(* ===== verification/Prelude.thy ===== *)
theory Prelude
  imports Main "HOL-Library.Word"
begin

text \<open>
  Shared vocabulary of the development: 32-bit words for \<open>uint32_t\<close>, the error values that stand
  for the exceptions, failed assertions and out-of-range array accesses of the program, the two result types
  (\<open>res\<close> for code that always returns or throws, \<open>run\<close> for loops that may also fail to return), folds over
  them, and the word and list lemmas several components use.
\<close>

unbundle bit_operations_syntax

type_synonym u8 = "8 word"
type_synonym u32 = "32 word"
type_synonym u64 = "64 word"

named_theorems result_simps "evaluation of the result types and of their folds"
named_theorems config_simps "the numerals behind the configuration constants"

subsection \<open>Errors and results\<close>

text \<open>
  One constructor per \<open>throw\<close> of the program with the numbers its message prints, one for a failed
  \<open>assert\<close>, one for \<open>exit(1)\<close>, and, where C++ leaves the behaviour undefined, \<open>Out_of_bounds\<close> for an array access
  outside the array and \<open>Null_pointer\<close> for a call through a null pointer.
\<close>

datatype error =
    Bad_addr_offset u32 u32
  | Bad_addr_page u32
  | Bad_page u8
  | No_free_slots u32
  | Initial_pos_out_of_bounds u32 u32
  | Planner_not_aligned u32 u32
  | Too_much_rows u32 u32
  | Hash_id_out_of_bounds
  | Assertion_failed
  | Process_exit
  | Out_of_bounds
  | Null_pointer
  | Not_joinable

type_synonym 'a res = "error + 'a"

fun bindE :: "'a res \<Rightarrow> ('a \<Rightarrow> 'b res) \<Rightarrow> 'b res" where
  "bindE (Inl e) f = Inl e"
| "bindE (Inr x) f = f x"

declare bindE.simps [result_simps]

lemma bindE_eq_Inr [simp]: "bindE m f = Inr y \<longleftrightarrow> (\<exists>x. m = Inr x \<and> f x = Inr y)"
  by (cases m) auto

lemma bindE_eq_Inl: "bindE m f = Inl e \<longleftrightarrow> m = Inl e \<or> (\<exists>x. m = Inr x \<and> f x = Inl e)"
  by (cases m) auto

lemma bindE_assoc: "bindE (bindE m f) g = bindE m (\<lambda>x. bindE (f x) g)"
  by (cases m) auto

text \<open>The \<open>for\<close> loops over a range: the body runs for each element until one throws.\<close>

fun foldE :: "('a \<Rightarrow> 's \<Rightarrow> 's res) \<Rightarrow> 'a list \<Rightarrow> 's \<Rightarrow> 's res" where
  "foldE f [] s = Inr s"
| "foldE f (x # xs) s = bindE (f x s) (foldE f xs)"

declare foldE.simps [result_simps]

lemma bindE_foldE_Nil [simp]: "bindE m (foldE f []) = m"
  by (cases m) simp_all

lemma foldE_append: "foldE f (xs @ ys) s = bindE (foldE f xs s) (foldE f ys)"
proof (induction xs arbitrary: s)
  case (Cons x xs)
  then show ?case by (cases "f x s") auto
qed simp

text \<open>An invariant kept by every successful iteration is kept by the loop.\<close>

lemma foldE_invariant:
  assumes "foldE f xs s = Inr s'" and "P s"
    and "\<And>x s s'. x \<in> set xs \<Longrightarrow> P s \<Longrightarrow> f x s = Inr s' \<Longrightarrow> P s'"
  shows "P s'"
  using assms by (induction xs arbitrary: s) auto

text \<open>A loop whose body cannot fail under an invariant it keeps does not fail.\<close>

lemma foldE_total:
  assumes "P s" and "\<And>x s. x \<in> set xs \<Longrightarrow> P s \<Longrightarrow> \<exists>s'. f x s = Inr s' \<and> P s'"
  shows "\<exists>s'. foldE f xs s = Inr s' \<and> P s'"
  using assms
proof (induction xs arbitrary: s)
  case (Cons x xs)
  then obtain s' where "f x s = Inr s'" and "P s'" by (meson list.set_intros(1))
  with Cons show ?case by simp
qed simp

text \<open>A loop whose body acts as a pure function under an invariant is the pure fold.\<close>

lemma foldE_pure:
  assumes "P s" and "\<And>x s. x \<in> set xs \<Longrightarrow> P s \<Longrightarrow> f x s = Inr (g x s) \<and> P (g x s)"
  shows "foldE f xs s = Inr (fold g xs s) \<and> P (fold g xs s)"
  using assms by (induction xs arbitrary: s) auto

subsection \<open>Loops that may not return\<close>

text \<open>\<open>None\<close> is a loop that never ends, \<open>Some (Inl e)\<close> a throw, \<open>Some (Inr x)\<close> a normal return.\<close>

type_synonym 'a run = "'a res option"

fun bindR :: "'a run \<Rightarrow> ('a \<Rightarrow> 'b run) \<Rightarrow> 'b run" where
  "bindR None f = None"
| "bindR (Some (Inl e)) f = Some (Inl e)"
| "bindR (Some (Inr x)) f = f x"

declare bindR.simps [result_simps]

lemma run_cases:
  fixes m :: "'a run"
  obtains "m = None" | e where "m = Some (Inl e)" | x where "m = Some (Inr x)"
  by (cases m; cases "the m") auto

lemma bindR_eq_Inr [simp]: "bindR m f = Some (Inr y) \<longleftrightarrow> (\<exists>x. m = Some (Inr x) \<and> f x = Some (Inr y))"
  by (cases "(m, f)" rule: bindR.cases) auto

lemma bindR_assoc: "bindR (bindR m f) g = bindR m (\<lambda>x. bindR (f x) g)"
  by (cases "(m, f)" rule: bindR.cases) auto

fun foldR :: "('a \<Rightarrow> 's \<Rightarrow> 's run) \<Rightarrow> 'a list \<Rightarrow> 's \<Rightarrow> 's run" where
  "foldR f [] s = Some (Inr s)"
| "foldR f (x # xs) s = bindR (f x s) (foldR f xs)"

declare foldR.simps [result_simps]

lemma foldR_append: "foldR f (xs @ ys) s = bindR (foldR f xs s) (foldR f ys)"
proof (induction xs arbitrary: s)
  case (Cons x xs)
  then show ?case by (cases "(f x s, foldR f xs)" rule: bindR.cases) auto
qed simp

lemma foldR_map: "foldR f (map g xs) s = foldR (\<lambda>x. f (g x)) xs s"
proof (induction xs arbitrary: s)
  case (Cons x xs)
  then show ?case by (cases "f (g x) s" rule: run_cases) auto
qed simp

lemma foldR_concat: "foldR (\<lambda>x. foldR f (g x)) xs s = foldR f (concat (map g xs)) s"
proof (induction xs arbitrary: s)
  case (Cons x xs)
  then show ?case by (cases "foldR f (g x) s" rule: run_cases) (auto simp: foldR_append)
qed simp

lemma foldR_pure:
  assumes "P s" and "\<And>x s. x \<in> set xs \<Longrightarrow> P s \<Longrightarrow> f x s = Some (Inr (g x s)) \<and> P (g x s)"
  shows "foldR f xs s = Some (Inr (fold g xs s)) \<and> P (fold g xs s)"
  using assms by (induction xs arbitrary: s) auto

subsection \<open>Loops with an early return\<close>

text \<open>
  A loop body returns its state and whether the enclosing function returned. \<open>foldS\<close> runs it over a list,
  \<open>for_while cond body i\<close> is \<open>for (; cond(i); ++i) body\<close> on a 32-bit counter, which wraps.
\<close>

fun foldS :: "('a \<Rightarrow> 's \<Rightarrow> ('s \<times> bool) run) \<Rightarrow> 'a list \<Rightarrow> 's \<Rightarrow> ('s \<times> bool) run" where
  "foldS f [] s = Some (Inr (s, False))"
| "foldS f (x # xs) s = bindR (f x s) (\<lambda>(s', stop). if stop then Some (Inr (s', True)) else foldS f xs s')"

declare foldS.simps [result_simps]

partial_function (option) for_while ::
  "(u32 \<Rightarrow> bool) \<Rightarrow> (u32 \<Rightarrow> 's \<Rightarrow> ('s \<times> bool) run) \<Rightarrow> u32 \<Rightarrow> 's \<Rightarrow> ('s \<times> bool) run" where
  "for_while cond body i s =
    (if cond i then
       (case body i s of
          None \<Rightarrow> None
        | Some (Inl e) \<Rightarrow> Some (Inl e)
        | Some (Inr (s', stop)) \<Rightarrow>
            if stop then Some (Inr (s', True)) else for_while cond body (i + 1) s')
     else Some (Inr (s, False)))"

lemma for_while_step:
  "for_while cond body i s =
    (if cond i then bindR (body i s)
        (\<lambda>(s', stop). if stop then Some (Inr (s', True)) else for_while cond body (i + 1) s')
     else Some (Inr (s, False)))"
  by (subst for_while.simps) (simp split: option.split sum.split)

text \<open>A bounded loop is the fold over its range; \<open>words m n\<close> is the range \<open>m, ..., n - 1\<close>.\<close>

definition words :: "nat \<Rightarrow> nat \<Rightarrow> u32 list" where
  "words m n = map of_nat [m..<n]"

lemma words_Cons: "m < n \<Longrightarrow> words m n = of_nat m # words (Suc m) n"
  by (simp add: words_def upt_rec [of m])

lemma words_empty [simp]: "n \<le> m \<Longrightarrow> words m n = []"
  by (simp add: words_def)

lemma for_while_words:
  assumes "n < 4294967296" and "\<And>k. m \<le> k \<Longrightarrow> k < n \<Longrightarrow> cond (of_nat k)" and "\<not> cond (of_nat (max m n))"
  shows "for_while cond body (of_nat m) s = foldS body (words m n) s"
  using assms(2,3)
proof (induction "n - m" arbitrary: m s)
  case 0
  then show ?case by (subst for_while_step) (simp add: max_def)
next
  case (Suc d)
  then have m: "m < n" by linarith
  have "for_while cond body (of_nat (Suc m)) s' = foldS body (words (Suc m) n) s'" for s'
    by (rule Suc.hyps(1)) (use Suc.hyps(2) Suc.prems m in \<open>simp_all add: max_def split: if_splits\<close>)
  then have "for_while cond body (of_nat m + 1) s' = foldS body (words (Suc m) n) s'" for s'
    by (simp add: add.commute)
  then show ?case
    using Suc.prems(1) [of m] m
    by (subst for_while_step) (simp add: words_Cons cong: if_cong)
qed

lemma foldS_append: "foldS f (xs @ ys) s =
    bindR (foldS f xs s) (\<lambda>(s', stop). if stop then Some (Inr (s', True)) else foldS f ys s')"
proof (induction xs arbitrary: s)
  case (Cons x xs)
  then show ?case by (cases "f x s" rule: run_cases) auto
qed simp

text \<open>Nested loops are one loop over all the inner elements.\<close>

lemma foldS_concat: "foldS (\<lambda>x. foldS f (g x)) xs s = foldS f (concat (map g xs)) s"
proof (induction xs arbitrary: s)
  case (Cons x xs)
  then show ?case by (simp add: foldS_append cong: if_cong)
qed simp

lemma foldS_map: "foldS f (map g xs) s = foldS (\<lambda>x. f (g x)) xs s"
  by (induction xs arbitrary: s) (simp_all cong: if_cong)

lemma foldS_cong:
  assumes "\<And>x s. x \<in> set xs \<Longrightarrow> f x s = g x s"
  shows "foldS f xs s = foldS g xs s"
  using assms by (induction xs arbitrary: s) (simp_all cong: if_cong)

text \<open>Elements whose body does nothing can be left out.\<close>

lemma foldS_filter:
  assumes "\<And>x s. x \<in> set xs \<Longrightarrow> \<not> P x \<Longrightarrow> f x s = Some (Inr (s, False))"
  shows "foldS f xs s = foldS f (filter P xs) s"
  using assms by (induction xs arbitrary: s) (simp_all cong: if_cong)

text \<open>A loop over the image \<open>u p\<close> of a smaller state \<open>p\<close>.\<close>

lemma foldS_sim:
  assumes "\<And>x p. x \<in> set xs \<Longrightarrow> f x (u p) = bindR (g x p) (\<lambda>(p', stop). Some (Inr (u p', stop)))"
  shows "foldS f xs (u p) = bindR (foldS g xs p) (\<lambda>(p', stop). Some (Inr (u p', stop)))"
  using assms
proof (induction xs arbitrary: p)
  case (Cons x xs)
  then show ?case by (cases "g x p" rule: run_cases) auto
qed simp

text \<open>What the body keeps, the loop keeps.\<close>

lemma foldS_keeps:
  assumes "foldS f xs s = Some (Inr (s', stop))" "I s"
    and "\<And>x s s' b. x \<in> set xs \<Longrightarrow> I s \<Longrightarrow> f x s = Some (Inr (s', b)) \<Longrightarrow> I s'"
  shows "I s'"
  using assms
proof (induction xs arbitrary: s)
  case (Cons x xs)
  then obtain s1 b where 1: "f x s = Some (Inr (s1, b))" by (cases "f x s" rule: run_cases) auto
  then have "I s1" using Cons.prems(2) by (auto intro: Cons.prems(3) [of x])
  moreover have "\<And>y t t' b. y \<in> set xs \<Longrightarrow> I t \<Longrightarrow> f y t = Some (Inr (t', b)) \<Longrightarrow> I t'"
    using Cons.prems(3) by (meson list.set_intros(2))
  ultimately show ?case using Cons.IH [of s1] Cons.prems(1) 1 by (cases b) auto
qed simp

text \<open>A body that never returns early.\<close>

lemma foldS_never:
  assumes "\<And>x s. x \<in> set xs \<Longrightarrow> f x s = bindR (g x s) (\<lambda>s'. Some (Inr (s', False)))"
  shows "foldS f xs s = bindR (foldR g xs s) (\<lambda>s'. Some (Inr (s', False)))"
  using assms
proof (induction xs arbitrary: s)
  case (Cons x xs)
  then show ?case by (cases "g x s" rule: run_cases) auto
qed simp

text \<open>A body that acts as a pure function and never returns early.\<close>

lemma foldS_pure:
  assumes "P s" and "\<And>x s. x \<in> set xs \<Longrightarrow> P s \<Longrightarrow> f x s = Some (Inr (g x s, False)) \<and> P (g x s)"
  shows "foldS f xs s = Some (Inr (fold g xs s, False)) \<and> P (fold g xs s)"
  using assms by (induction xs arbitrary: s) auto

subsection \<open>Words read as natural numbers\<close>

lemma unat_u32_bound: "unat (w :: u32) < 4294967296"
  using unsigned_less [of w, where ?'a = nat] by simp

lemma unat_of_nat_u32 [simp]: "n < 4294967296 \<Longrightarrow> unat (of_nat n :: u32) = n"
  by (simp add: unat_of_nat)

lemma word_eq_of_nat: "unat w = n \<Longrightarrow> w = of_nat n"
  by (auto simp flip: word_unat_eq_iff)

lemma of_nat_u32_eq_iff:
  assumes "m < 4294967296" and "n < 4294967296"
  shows "(of_nat m :: u32) = of_nat n \<longleftrightarrow> m = n"
proof
  assume "(of_nat m :: u32) = of_nat n"
  then have "unat (of_nat m :: u32) = unat (of_nat n :: u32)" by simp
  with assms show "m = n" by simp
qed simp

lemma of_nat_u32_eq_0_iff: "n < 4294967296 \<Longrightarrow> (of_nat n :: u32) = 0 \<longleftrightarrow> n = 0"
  using of_nat_u32_eq_iff [of n 0] by simp

lemma of_nat_u32_less_iff:
  "m < 4294967296 \<Longrightarrow> n < 4294967296 \<Longrightarrow> (of_nat m :: u32) < of_nat n \<longleftrightarrow> m < n"
  by (simp add: word_less_nat_alt)

lemma unat_ucast_u8: "unat (ucast (b :: u8) :: u32) = unat b"
proof -
  have "unat b < 256" using unsigned_less [of b, where ?'a = nat] by simp
  then show ?thesis by (simp add: unsigned_ucast_eq take_bit_eq_mod)
qed

lemma unat_plus_u32: "unat a + unat b < 4294967296 \<Longrightarrow> unat (a + b :: u32) = unat a + unat b"
  by (simp add: unat_word_ariths)

lemma unat_minus_u32: "b \<le> a \<Longrightarrow> unat (a - b :: u32) = unat a - unat b"
  by (rule unat_sub)

lemma unat_and_mask_u32: "unat (w AND mask n :: u32) = unat w mod 2 ^ n"
  by (metis take_bit_eq_mask unsigned_take_bit_eq take_bit_eq_mod)

lemma unat_drop_bit_u32: "unat (drop_bit n w :: u32) = unat w div 2 ^ n"
  unfolding unat_drop_bit_eq by (rule drop_bit_eq_div)

lemma unat_and_not_mask_u32: "unat (w AND NOT (mask n) :: u32) = unat w div 2 ^ n * 2 ^ n"
proof -
  have "w AND NOT (mask n) = push_bit n (drop_bit n w)"
    by (rule bit_word_eqI) (auto simp: bit_simps)
  then have "unat (w AND NOT (mask n)) = take_bit 32 (push_bit n (unat w div 2 ^ n))"
    by (simp only: unsigned_push_bit_eq unat_drop_bit_u32) simp
  also have "\<dots> = (unat w div 2 ^ n * 2 ^ n) mod 4294967296"
    by (simp add: push_bit_eq_mult take_bit_eq_mod)
  also have "\<dots> = unat w div 2 ^ n * 2 ^ n"
    by (rule mod_less) (rule le_less_trans [OF div_times_less_eq_dividend unat_u32_bound])
  finally show ?thesis .
qed

subsection \<open>Step relations\<close>

text \<open>
  The states a step relation reaches from a start state, and the interface of an inductive invariant: the protocols
  of the program are interpretations of it.
\<close>

inductive reachable :: "('s \<Rightarrow> 's \<Rightarrow> bool) \<Rightarrow> 's \<Rightarrow> 's \<Rightarrow> bool" for step s0 where
  reachable_start: "reachable step s0 s0"
| reachable_step: "reachable step s0 s \<Longrightarrow> step s s' \<Longrightarrow> reachable step s0 s'"

locale protocol_invariant =
  fixes step :: "'s \<Rightarrow> 's \<Rightarrow> bool" and start :: "'c \<Rightarrow> 's" and inv :: "'s \<Rightarrow> bool"
  assumes inv_start: "inv (start c)" and inv_step: "inv s \<Longrightarrow> step s s' \<Longrightarrow> inv s'"
begin

lemma reachable_inv: "reachable step (start c) s \<Longrightarrow> inv s"
  by (induction rule: reachable.induct) (auto intro: inv_start inv_step)

lemma reachable_inv_from: "reachable step s0 s \<Longrightarrow> inv s0 \<Longrightarrow> inv s"
  by (induction rule: reachable.induct) (auto intro: inv_step)

end

text \<open>
  A protocol whose threads also compute: its steps are steps of the protocol below (\<open>proj\<close>) or leave that alone,
  and its invariant may rest on the one below.
\<close>

locale protocol_extension = protocol_invariant +
  fixes xstep :: "'x \<Rightarrow> 'x \<Rightarrow> bool" and proj :: "'x \<Rightarrow> 's" and xinv :: "'x \<Rightarrow> bool"
  assumes xstep_proj: "xstep x x' \<Longrightarrow> step (proj x) (proj x') \<or> proj x' = proj x"
    and xinv_step: "inv (proj x) \<Longrightarrow> xinv x \<Longrightarrow> xstep x x' \<Longrightarrow> xinv x'"
begin

lemma reachable_proj: "reachable xstep x0 x \<Longrightarrow> reachable step (proj x0) (proj x)"
proof (induction rule: reachable.induct)
  case (reachable_step x x')
  then show ?case using xstep_proj [of x x'] by (auto intro: reachable.reachable_step)
qed (rule reachable_start)

lemma reachable_xinv: "reachable xstep x0 x \<Longrightarrow> proj x0 = start c \<Longrightarrow> xinv x0 \<Longrightarrow> inv (proj x) \<and> xinv x"
proof (induction rule: reachable.induct)
  case (reachable_step x x')
  then have "inv (proj x')" using reachable_inv reachable_proj reachable.reachable_step by metis
  then show ?case using reachable_step xinv_step by blast
qed (auto intro: inv_start)

end

subsection \<open>Ranges of words\<close>

lemma distinct_below:
  assumes "distinct ks" "\<forall>k\<in>set ks. k < (n :: u32)"
  shows "length ks \<le> unat n"
proof -
  have "unat ` set ks \<subseteq> {..<unat n}" using assms(2) by (auto simp: word_less_nat_alt)
  then have "card (unat ` set ks) \<le> unat n" using card_mono [of "{..<unat n}"] by fastforce
  moreover have "card (unat ` set ks) = length ks"
    using assms(1) by (simp add: card_image inj_on_def word_unat_eq_iff distinct_card)
  ultimately show ?thesis by simp
qed

lemma in_words: "k \<in> set (words m n) \<longleftrightarrow> (\<exists>j. m \<le> j \<and> j < n \<and> k = of_nat j)"
  by (auto simp: words_def)

lemma distinct_words: "n \<le> 4294967296 \<Longrightarrow> distinct (words m n)"
  using of_nat_u32_eq_iff by (simp add: words_def distinct_map inj_on_def)

lemma words_append: "l \<le> m \<Longrightarrow> m \<le> n \<Longrightarrow> words l n = words l m @ words m n"
  unfolding words_def using upt_add_eq_append [of l m "n - m"] by simp

lemma words_range: "unat k < n \<Longrightarrow> words (unat k) n = k # words (Suc (unat k)) n"
  by (simp add: words_Cons)

lemma lanes_words: "{i :: u32. i < 8} = insert 0 (set (words 1 8))"
proof (intro set_eqI iffI)
  fix i :: u32
  assume "i \<in> {i. i < 8}"
  then have "unat i < 8" by (simp add: word_less_nat_alt)
  then show "i \<in> insert 0 (set (words 1 8))"
    by (cases "i = 0") (auto simp: in_words Suc_le_eq unat_gt_0 intro!: exI [of _ "unat i"])
qed (auto simp: in_words word_less_nat_alt)

end
