(* ===== verification/Mem_Config.thy ===== *)
theory Mem_Config
  imports Prelude
begin

text \<open>
  The compile-time constants of \<open>mem_config.hpp\<close>, each written as the macro computes it, with its numeral
  as a simplification rule, and the data types of \<open>mem_types.hpp\<close>. The model is of the configuration the
  Makefile builds: \<open>USE_ADDR_COUNT_TABLE\<close>, \<open>MEM_CHECK_POINT_MAP\<close> and \<open>SEGMENT_STATS\<close> are defined,
  \<open>MEM_PLANNER_STATS\<close> and \<open>DIRECT_MEM_LOCATOR\<close> are not.
\<close>

unbundle bit_operations_syntax

subsection \<open>Sizes of the planners' tables\<close>

definition MAX_LOCATORS :: nat where "MAX_LOCATORS = 2048"
definition MAX_MEM_PLANNERS :: nat where "MAX_MEM_PLANNERS = 16"
definition SEGMENT_LARGE_CHUNKS :: u32 where "SEGMENT_LARGE_CHUNKS = 512"
definition RAM_ROWS :: u32 where "RAM_ROWS = push_bit 22 1"
definition ROM_ROWS :: u32 where "ROM_ROWS = push_bit 21 1"
definition INPUT_ROWS :: u32 where "INPUT_ROWS = push_bit 21 1"
definition MEM_ALIGN_ROWS :: u32 where "MEM_ALIGN_ROWS = push_bit 22 1"
definition MAX_CHUNKS :: u32 where "MAX_CHUNKS = 8192"

subsection \<open>Threads and pages\<close>

definition THREAD_BITS :: nat where "THREAD_BITS = 3"
definition ADDR_LOW_BITS :: nat where "ADDR_LOW_BITS = THREAD_BITS + 3"
definition MAX_THREADS :: u32 where "MAX_THREADS = push_bit THREAD_BITS 1"
definition ADDR_MASK :: u32 where "ADDR_MASK = (MAX_THREADS - 1) * 8"
definition MAX_PAGES :: u32 where "MAX_PAGES = 20"
definition ADDR_PAGE_BITS :: nat where "ADDR_PAGE_BITS = 23 - THREAD_BITS"
definition ADDR_PAGE_SIZE :: u32 where "ADDR_PAGE_SIZE = push_bit ADDR_PAGE_BITS 1"
definition RELATIVE_OFFSET_MASK :: u32 where "RELATIVE_OFFSET_MASK = ADDR_PAGE_SIZE - 1"
definition ADDR_TABLE_SIZE :: u32 where "ADDR_TABLE_SIZE = ADDR_PAGE_SIZE * MAX_PAGES"

subsection \<open>Slots\<close>

definition ADDR_SLOT_BITS :: nat where "ADDR_SLOT_BITS = 4"
definition ADDR_SLOT_SIZE :: u32 where "ADDR_SLOT_SIZE = push_bit ADDR_SLOT_BITS 1"
definition ADDR_SLOT_MASK :: u32 where "ADDR_SLOT_MASK = push_bit ADDR_SLOT_BITS 0xFFFFFFFF"
definition ADDR_SLOTS :: u32 where "ADDR_SLOTS = (1024 * 1024 * 32) div MAX_THREADS"
definition ADDR_SLOTS_SIZE :: u32 where "ADDR_SLOTS_SIZE = ADDR_SLOT_SIZE * ADDR_SLOTS"

definition NO_CHUNK_ID :: u32 where "NO_CHUNK_ID = 0xFFFFFFFF"

lemma config_values [simp, config_simps]:
  "MAX_LOCATORS = 2048" "MAX_MEM_PLANNERS = 16" "SEGMENT_LARGE_CHUNKS = 512"
  "RAM_ROWS = 4194304" "ROM_ROWS = 2097152" "INPUT_ROWS = 2097152" "MEM_ALIGN_ROWS = 4194304"
  "MAX_CHUNKS = 8192" "THREAD_BITS = 3" "ADDR_LOW_BITS = 6" "MAX_THREADS = 8" "ADDR_MASK = 56"
  "MAX_PAGES = 20" "ADDR_PAGE_BITS = 20" "ADDR_PAGE_SIZE = 1048576"
  "RELATIVE_OFFSET_MASK = 1048575" "ADDR_TABLE_SIZE = 20971520" "ADDR_SLOT_BITS = 4"
  "ADDR_SLOT_SIZE = 16" "ADDR_SLOT_MASK = 4294967280" "ADDR_SLOTS = 4194304"
  "ADDR_SLOTS_SIZE = 67108864" "NO_CHUNK_ID = 0xFFFFFFFF"
  by (simp_all add: MAX_LOCATORS_def MAX_MEM_PLANNERS_def SEGMENT_LARGE_CHUNKS_def RAM_ROWS_def
      ROM_ROWS_def INPUT_ROWS_def MEM_ALIGN_ROWS_def MAX_CHUNKS_def THREAD_BITS_def
      ADDR_LOW_BITS_def MAX_THREADS_def ADDR_MASK_def MAX_PAGES_def ADDR_PAGE_BITS_def
      ADDR_PAGE_SIZE_def RELATIVE_OFFSET_MASK_def ADDR_TABLE_SIZE_def ADDR_SLOT_BITS_def
      ADDR_SLOT_SIZE_def ADDR_SLOT_MASK_def ADDR_SLOTS_def ADDR_SLOTS_SIZE_def NO_CHUNK_ID_def
      push_bit_eq_mult)

subsection \<open>The masks as arithmetic\<close>

lemma mask_numerals: "(7 :: u32) = mask 3" "(15 :: u32) = mask 4" "(1048575 :: u32) = mask 20"
  "(0xFFFFFFF8 :: u32) = NOT (mask 3)" "(4294967280 :: u32) = NOT (mask 4)"
  by (simp_all add: mask_eq_exp_minus_1)

lemma unat_and_7: "unat (w AND 7 :: u32) = unat w mod 8"
  unfolding mask_numerals unat_and_mask_u32 by simp

lemma unat_and_15: "unat (w AND 15 :: u32) = unat w mod 16"
  unfolding mask_numerals unat_and_mask_u32 by simp

lemma unat_and_offset_mask: "unat (w AND 1048575 :: u32) = unat w mod 1048576"
  unfolding mask_numerals unat_and_mask_u32 by simp

lemma unat_and_align_mask: "unat (w AND 0xFFFFFFF8 :: u32) = unat w div 8 * 8"
  unfolding mask_numerals unat_and_not_mask_u32 by simp

lemma unat_and_slot_mask: "unat (w AND 4294967280 :: u32) = unat w div 16 * 16"
  unfolding mask_numerals unat_and_not_mask_u32 by simp

lemma unat_and_addr_mask: "unat (w AND 56 :: u32) = unat w mod 64 div 8 * 8"
proof -
  have "w AND 56 = (w AND mask 6) AND NOT (mask 3)"
    by (simp add: mask_eq_exp_minus_1 and.assoc)
  then show ?thesis by (simp add: unat_and_mask_u32 unat_and_not_mask_u32)
qed

subsection \<open>Bus data\<close>

record MemCountersBusData =
  bus_addr :: u32
  bus_flags :: u32

text \<open>
  A \<open>MemChunk\<close> is a pointer to its bus operations and their number; the model keeps the list of the
  operations, whose length is the count.
\<close>

type_synonym MemChunk = "MemCountersBusData list"

end
