(* ===== verification/Mem_Address.thy ===== *)
theory Mem_Address
  imports Mem_Config
begin

text \<open>
  The address arithmetic of \<open>MemCounter\<close> (the static functions at the end of \<open>mem_counter.hpp\<close>): the
  switch that finds the 64 MB page of an address, the offset of an address in the tables of one thread, and the
  way back. The lemmas read every function as arithmetic on natural numbers; the round trip, the order of the
  offsets and the exact set of accepted addresses follow from that.
\<close>

unbundle bit_operations_syntax

subsection \<open>The switches\<close>

definition addr_key :: "u32 \<Rightarrow> u8" where
  "addr_key a = ucast (drop_bit 24 a AND 0xFC)"

definition addr_to_offset :: "u32 \<Rightarrow> u32 \<Rightarrow> u32 res" where
  "addr_to_offset a chunk_id =
    (let k = addr_key a in
     if k = 0x80 then Inr (drop_bit ADDR_LOW_BITS (a - 0x80000000))
     else if k = 0x84 then Inr (drop_bit ADDR_LOW_BITS (a - 0x84000000) + ADDR_PAGE_SIZE)
     else if k = 0x90 then Inr (drop_bit ADDR_LOW_BITS (a - 0x90000000) + 2 * ADDR_PAGE_SIZE)
     else if k = 0x94 then Inr (drop_bit ADDR_LOW_BITS (a - 0x94000000) + 3 * ADDR_PAGE_SIZE)
     else if k = 0xA0 then Inr (drop_bit ADDR_LOW_BITS (a - 0xA0000000) + 4 * ADDR_PAGE_SIZE)
     else if k = 0xA4 then Inr (drop_bit ADDR_LOW_BITS (a - 0xA4000000) + 5 * ADDR_PAGE_SIZE)
     else if k = 0xA8 then Inr (drop_bit ADDR_LOW_BITS (a - 0xA8000000) + 6 * ADDR_PAGE_SIZE)
     else if k = 0xAC then Inr (drop_bit ADDR_LOW_BITS (a - 0xAC000000) + 7 * ADDR_PAGE_SIZE)
     else if k = 0xB0 then Inr (drop_bit ADDR_LOW_BITS (a - 0xB0000000) + 8 * ADDR_PAGE_SIZE)
     else if k = 0xB4 then Inr (drop_bit ADDR_LOW_BITS (a - 0xB4000000) + 9 * ADDR_PAGE_SIZE)
     else if k = 0xB8 then Inr (drop_bit ADDR_LOW_BITS (a - 0xB8000000) + 10 * ADDR_PAGE_SIZE)
     else if k = 0xBC then Inr (drop_bit ADDR_LOW_BITS (a - 0xBC000000) + 11 * ADDR_PAGE_SIZE)
     else if k = 0xC0 then Inr (drop_bit ADDR_LOW_BITS (a - 0xC0000000) + 12 * ADDR_PAGE_SIZE)
     else if k = 0xC4 then Inr (drop_bit ADDR_LOW_BITS (a - 0xC4000000) + 13 * ADDR_PAGE_SIZE)
     else if k = 0xC8 then Inr (drop_bit ADDR_LOW_BITS (a - 0xC8000000) + 14 * ADDR_PAGE_SIZE)
     else if k = 0xCC then Inr (drop_bit ADDR_LOW_BITS (a - 0xCC000000) + 15 * ADDR_PAGE_SIZE)
     else if k = 0xD0 then Inr (drop_bit ADDR_LOW_BITS (a - 0xD0000000) + 16 * ADDR_PAGE_SIZE)
     else if k = 0xD4 then Inr (drop_bit ADDR_LOW_BITS (a - 0xD4000000) + 17 * ADDR_PAGE_SIZE)
     else if k = 0xD8 then Inr (drop_bit ADDR_LOW_BITS (a - 0xD8000000) + 18 * ADDR_PAGE_SIZE)
     else if k = 0xDC then Inr (drop_bit ADDR_LOW_BITS (a - 0xDC000000) + 19 * ADDR_PAGE_SIZE)
     else Inl (Bad_addr_offset a chunk_id))"

definition addr_to_page :: "u32 \<Rightarrow> u32 res" where
  "addr_to_page a =
    (let k = addr_key a in
     if k = 0x80 then Inr 0
     else if k = 0x84 then Inr 1
     else if k = 0x90 then Inr 2
     else if k = 0x94 then Inr 3
     else if k = 0xA0 then Inr 4
     else if k = 0xA4 then Inr 5
     else if k = 0xA8 then Inr 6
     else if k = 0xAC then Inr 7
     else if k = 0xB0 then Inr 8
     else if k = 0xB4 then Inr 9
     else if k = 0xB8 then Inr 10
     else if k = 0xBC then Inr 11
     else if k = 0xC0 then Inr 12
     else if k = 0xC4 then Inr 13
     else if k = 0xC8 then Inr 14
     else if k = 0xCC then Inr 15
     else if k = 0xD0 then Inr 16
     else if k = 0xD4 then Inr 17
     else if k = 0xD8 then Inr 18
     else if k = 0xDC then Inr 19
     else Inl (Bad_addr_page a))"

definition page_to_addr :: "u8 \<Rightarrow> u32 res" where
  "page_to_addr page =
    (if page = 0 then Inr 0x80000000
     else if page = 1 then Inr 0x84000000
     else if page = 2 then Inr 0x90000000
     else if page = 3 then Inr 0x94000000
     else if page = 4 then Inr 0xA0000000
     else if page = 5 then Inr 0xA4000000
     else if page = 6 then Inr 0xA8000000
     else if page = 7 then Inr 0xAC000000
     else if page = 8 then Inr 0xB0000000
     else if page = 9 then Inr 0xB4000000
     else if page = 10 then Inr 0xB8000000
     else if page = 11 then Inr 0xBC000000
     else if page = 12 then Inr 0xC0000000
     else if page = 13 then Inr 0xC4000000
     else if page = 14 then Inr 0xC8000000
     else if page = 15 then Inr 0xCC000000
     else if page = 16 then Inr 0xD0000000
     else if page = 17 then Inr 0xD4000000
     else if page = 18 then Inr 0xD8000000
     else if page = 19 then Inr 0xDC000000
     else if page = 0xFF then Inr 0xFFFFFFFF
     else Inl (Bad_page page))"

definition offset_to_page :: "u32 \<Rightarrow> u32" where
  "offset_to_page off = drop_bit ADDR_PAGE_BITS off"

definition offset_to_addr :: "u32 \<Rightarrow> u32 \<Rightarrow> u32 res" where
  "offset_to_addr off thread_index =
    (let page = drop_bit ADDR_PAGE_BITS off in
     bindE (page_to_addr (ucast page)) (\<lambda>base_addr.
       Inr (push_bit ADDR_LOW_BITS (off AND RELATIVE_OFFSET_MASK) + base_addr + thread_index * 8)))"

text \<open>\<open>offset_info\<close> returns the page through its first reference argument and the address through its second.\<close>

definition offset_info :: "u32 \<Rightarrow> u32 \<Rightarrow> (u32 \<times> u32) res" where
  "offset_info off thread_index =
    (let page = drop_bit ADDR_PAGE_BITS off in
     bindE (page_to_addr (ucast page)) (\<lambda>base_addr.
       Inr (page, push_bit ADDR_LOW_BITS (off AND RELATIVE_OFFSET_MASK) + base_addr + thread_index * 8)))"

subsection \<open>The switches as arithmetic\<close>

text \<open>
  Addresses fall in 64 windows of 64 MB. \<open>window_page\<close> is the page of a window, where the program has one:
  ROM (windows 32, 33), input (36, 37) and RAM (40 to 55).
\<close>

definition window_page :: "nat \<Rightarrow> nat option" where
  "window_page q =
    (if 32 \<le> q \<and> q \<le> 33 then Some (q - 32)
     else if 36 \<le> q \<and> q \<le> 37 then Some (q - 34)
     else if 40 \<le> q \<and> q \<le> 55 then Some (q - 36)
     else None)"

definition page_window :: "nat \<Rightarrow> nat" where
  "page_window p = (if p < 2 then p + 32 else if p < 4 then p + 34 else p + 36)"

lemma window_page_Some_iff: "window_page q = Some p \<longleftrightarrow> p < 20 \<and> q = page_window p"
  by (auto simp: window_page_def page_window_def)

lemma page_window_bounds: "p < 20 \<Longrightarrow> 32 \<le> page_window p \<and> page_window p \<le> 55"
  by (auto simp: page_window_def)

lemma page_window_mono: "p < p' \<Longrightarrow> page_window p < page_window p'"
  by (auto simp: page_window_def)

lemma unat_addr_key: "unat (addr_key a) = 4 * (unat a div 67108864)"
proof -
  have "drop_bit 24 a AND 0xFC = (drop_bit 24 a AND mask 8) AND NOT (mask 2)"
    by (simp add: mask_eq_exp_minus_1 and.assoc)
  then have "unat (drop_bit 24 a AND 0xFC) = unat a div 2 ^ 24 mod 2 ^ 8 div 2 ^ 2 * 2 ^ 2"
    by (simp only: unat_and_not_mask_u32 unat_and_mask_u32 unat_drop_bit_u32)
  also have "\<dots> = 4 * (unat a div 67108864)"
    using unat_u32_bound [of a] by (simp add: div_mult2_eq [symmetric])
  finally show ?thesis
    using unat_u32_bound [of a] by (simp add: addr_key_def unsigned_ucast_eq take_bit_eq_mod)
qed

lemma addr_key_eq: "addr_key a = of_nat (4 * (unat a div 67108864))"
  by (rule word_eq_of_nat) (rule unat_addr_key)

lemma window_cases:
  assumes "\<And>q. q < 64 \<Longrightarrow> unat a div 67108864 = q \<Longrightarrow> P q"
  shows "P (unat (a :: u32) div 67108864)"
  using assms unat_u32_bound [of a] by (simp add: less_mult_imp_div_less)

lemma page_offset_eq:
  assumes "unat a div 67108864 = q" and "p < 20"
  shows "drop_bit 6 (a - of_nat (q * 67108864)) + of_nat (p * 1048576) =
    (of_nat (p * 1048576 + unat a mod 67108864 div 64) :: u32)"
proof -
  have a: "unat a = q * 67108864 + unat a mod 67108864"
    using assms(1) by (metis div_mult_mod_eq)
  then have q: "q * 67108864 < 4294967296" using unat_u32_bound [of a] by linarith
  have "a = of_nat (q * 67108864 + unat a mod 67108864)"
    by (subst a [symmetric]) simp
  then have "a - of_nat (q * 67108864) = of_nat (unat a mod 67108864)"
    by (metis add_diff_cancel_left' of_nat_add)
  moreover have "unat a mod 67108864 < 4294967296"
    by (rule less_trans [of _ 67108864]) simp_all
  ultimately have "unat (drop_bit 6 (a - of_nat (q * 67108864))) = unat a mod 67108864 div 64"
    by (simp only: unat_drop_bit_u32 unat_of_nat_u32) simp
  then have "drop_bit 6 (a - of_nat (q * 67108864)) = of_nat (unat a mod 67108864 div 64)"
    by (rule word_eq_of_nat)
  then show ?thesis by simp
qed

lemma addr_key_eq_iff: "n < 64 \<Longrightarrow> addr_key a = of_nat (4 * n) \<longleftrightarrow> unat a div 67108864 = n"
  unfolding word_unat_eq_iff unat_addr_key unat_of_nat by auto

lemmas addr_key_iffs =
  addr_key_eq_iff [of 32, simplified]
  addr_key_eq_iff [of 33, simplified]
  addr_key_eq_iff [of 36, simplified]
  addr_key_eq_iff [of 37, simplified]
  addr_key_eq_iff [of 40, simplified]
  addr_key_eq_iff [of 41, simplified]
  addr_key_eq_iff [of 42, simplified]
  addr_key_eq_iff [of 43, simplified]
  addr_key_eq_iff [of 44, simplified]
  addr_key_eq_iff [of 45, simplified]
  addr_key_eq_iff [of 46, simplified]
  addr_key_eq_iff [of 47, simplified]
  addr_key_eq_iff [of 48, simplified]
  addr_key_eq_iff [of 49, simplified]
  addr_key_eq_iff [of 50, simplified]
  addr_key_eq_iff [of 51, simplified]
  addr_key_eq_iff [of 52, simplified]
  addr_key_eq_iff [of 53, simplified]
  addr_key_eq_iff [of 54, simplified]
  addr_key_eq_iff [of 55, simplified]

lemma page_numerals: "p < 20 \<Longrightarrow> p \<in> {0,1,2,3,4,5,6,7,8,9,10,11,12,13,14,15,16,17,18,19 :: nat}"
  by simp presburger

lemma addr_to_offset_eq:
  "addr_to_offset a c = (case window_page (unat a div 67108864) of
      None \<Rightarrow> Inl (Bad_addr_offset a c)
    | Some p \<Rightarrow> Inr (of_nat (p * 1048576 + unat a mod 67108864 div 64)))"
proof (cases "window_page (unat a div 67108864)")
  case None
  then show ?thesis
    by (auto simp: addr_to_offset_def addr_key_iffs window_page_def split: if_splits)
next
  case (Some p)
  then have p: "p < 20" and q: "unat a div 67108864 = page_window p"
    by (simp_all add: window_page_Some_iff)
  have "drop_bit 6 (a - of_nat (page_window p * 67108864)) + of_nat (p * 1048576) =
      (of_nat (p * 1048576 + unat a mod 67108864 div 64) :: u32)"
    by (rule page_offset_eq [OF q p])
  with page_numerals [OF p] show ?thesis
    unfolding Some using q
    by (elim insertE emptyE) (simp_all add: addr_to_offset_def addr_key_iffs page_window_def)
qed

lemma addr_to_page_eq:
  "addr_to_page a = (case window_page (unat a div 67108864) of
      None \<Rightarrow> Inl (Bad_addr_page a) | Some p \<Rightarrow> Inr (of_nat p))"
proof (cases "window_page (unat a div 67108864)")
  case None
  then show ?thesis
    by (auto simp: addr_to_page_def addr_key_iffs window_page_def split: if_splits)
next
  case (Some p)
  then have p: "p < 20" and q: "unat a div 67108864 = page_window p"
    by (simp_all add: window_page_Some_iff)
  from page_numerals [OF p] show ?thesis
    unfolding Some using q
    by (elim insertE emptyE) (simp_all add: addr_to_page_def addr_key_iffs page_window_def)
qed

lemma page_to_addr_eq: "p < 20 \<Longrightarrow> page_to_addr (of_nat p) = Inr (of_nat (page_window p * 67108864))"
  by (drule page_numerals, elim insertE emptyE) (simp_all add: page_to_addr_def page_window_def)

text \<open>An offset names a page and a line of eight addresses, one per thread.\<close>

lemma offset_to_addr_eq:
  assumes "p < 20" and "r < 1048576" and "i < 8"
  shows "offset_to_addr (of_nat (p * 1048576 + r)) (of_nat i) =
    Inr (of_nat (page_window p * 67108864 + r * 64 + i * 8))"
proof -
  let ?off = "of_nat (p * 1048576 + r) :: u32"
  have off: "unat ?off = p * 1048576 + r"
    by (rule unat_of_nat_u32) (use assms in linarith)
  then have page: "drop_bit ADDR_PAGE_BITS ?off = of_nat p"
    using assms by (intro word_eq_of_nat) (simp add: unat_drop_bit_u32)
  have "?off AND RELATIVE_OFFSET_MASK = of_nat r"
    using assms off by (intro word_eq_of_nat) (simp add: unat_and_offset_mask)
  then have "push_bit ADDR_LOW_BITS (?off AND RELATIVE_OFFSET_MASK) = of_nat (r * 64)"
    by (simp add: push_bit_eq_mult)
  moreover have "(ucast (of_nat p :: u32) :: u8) = of_nat p"
    using assms by (intro word_eq_of_nat) (simp add: unsigned_ucast_eq take_bit_eq_mod)
  ultimately show ?thesis
    using assms page by (simp add: offset_to_addr_def page_to_addr_eq algebra_simps)
qed

subsection \<open>The interface to the counters and the planners\<close>

text \<open>
  What \<open>MemCounter::count_aligned\<close> and the planners rely on: an accepted address has an offset inside the
  tables, every offset of the tables is the line of one aligned address per thread, and both directions agree.
  \<open>lane\<close> is the thread that owns an address.
\<close>

definition lane :: "u32 \<Rightarrow> u32" where
  "lane a = drop_bit 3 (a AND ADDR_MASK)"

locale address_codec =
  fixes to_offset :: "u32 \<Rightarrow> u32 res" and of_offset :: "u32 \<Rightarrow> u32 \<Rightarrow> u32 res" and table_size :: u32
  assumes offset_bound: "to_offset a = Inr off \<Longrightarrow> off < table_size"
    and of_to_offset: "a AND 7 = 0 \<Longrightarrow> to_offset a = Inr off \<Longrightarrow> of_offset off (lane a) = Inr a"
    and to_of_offset: "off < table_size \<Longrightarrow> i < MAX_THREADS \<Longrightarrow>
      \<exists>a. of_offset off i = Inr a \<and> a AND 7 = 0 \<and> lane a = i \<and> to_offset a = Inr off"
begin

lemma to_offset_inj:
  assumes "a AND 7 = 0" "b AND 7 = 0" "lane a = lane b" "to_offset a = Inr off" "to_offset b = Inr off"
  shows "a = b"
  using of_to_offset assms by (metis sum.inject(2))

lemma of_offset_inj:
  assumes "off < table_size" "off' < table_size" "i < MAX_THREADS" "j < MAX_THREADS"
    and "of_offset off i = of_offset off' j"
  shows "off = off' \<and> i = j"
  using to_of_offset [OF assms(1,3)] to_of_offset [OF assms(2,4)] assms(5)
  by (metis sum.inject(2))

end

lemma unat_lane: "unat (lane a) = unat a mod 64 div 8"
  unfolding lane_def unat_drop_bit_u32 config_values unat_and_addr_mask by simp

lemma lane_bound: "lane a < MAX_THREADS"
  by (simp add: word_less_nat_alt unat_lane less_mult_imp_div_less)

lemma aligned_iff: "a AND 7 = 0 \<longleftrightarrow> unat (a :: u32) mod 8 = 0"
  by (simp add: word_unat_eq_iff unat_and_7)

lemma addr_split:
  assumes "a AND 7 = 0"
  shows "unat a = unat a div 67108864 * 67108864 + unat a mod 67108864 div 64 * 64 + unat (lane a) * 8"
proof -
  let ?m = "unat a mod 67108864"
  have "8 dvd unat a mod 64"
    using assms unfolding aligned_iff by (intro dvd_mod) (auto intro: mod_0_imp_dvd)
  then have "unat a mod 64 div 8 * 8 = unat a mod 64" by (rule dvd_div_mult_self)
  moreover have "?m mod 64 = unat a mod 64" by (rule mod_mod_cancel) simp
  ultimately have low: "?m mod 64 = unat (lane a) * 8" unfolding unat_lane by simp
  have "?m = ?m div 64 * 64 + ?m mod 64" by (rule div_mult_mod_eq [symmetric])
  moreover have "unat a = unat a div 67108864 * 67108864 + ?m" by (rule div_mult_mod_eq [symmetric])
  ultimately show ?thesis unfolding low by linarith
qed

lemma addr_to_offset_bound: "addr_to_offset a c = Inr off \<Longrightarrow> off < ADDR_TABLE_SIZE"
proof -
  assume "addr_to_offset a c = Inr off"
  then obtain p where "p < 20" and off: "off = of_nat (p * 1048576 + unat a mod 67108864 div 64)"
    by (auto simp: addr_to_offset_eq window_page_Some_iff split: option.splits)
  moreover have "unat a mod 67108864 div 64 < 1048576" by (simp add: less_mult_imp_div_less)
  ultimately have "p * 1048576 + unat a mod 67108864 div 64 < 20971520" by linarith
  then show ?thesis
    by (simp only: off word_less_nat_alt unat_of_nat_u32) simp
qed

lemma offset_to_addr_roundtrip:
  assumes "a AND 7 = 0" and "addr_to_offset a c = Inr off"
  shows "offset_to_addr off (lane a) = Inr a"
proof -
  let ?r = "unat a mod 67108864 div 64"
  from assms(2) obtain p where p: "p < 20" and q: "unat a div 67108864 = page_window p"
    and off: "off = of_nat (p * 1048576 + ?r)"
    by (auto simp: addr_to_offset_eq window_page_Some_iff split: option.splits)
  have "?r < 1048576" by (simp add: less_mult_imp_div_less)
  moreover have "unat (lane a) < 8" using lane_bound [of a] by (simp add: word_less_nat_alt)
  ultimately have "offset_to_addr off (of_nat (unat (lane a))) =
      Inr (of_nat (page_window p * 67108864 + ?r * 64 + unat (lane a) * 8))"
    unfolding off by (intro offset_to_addr_eq [OF p])
  also have "\<dots> = Inr (of_nat (unat a))"
    using addr_split [OF assms(1)] by (simp only: q)
  finally show ?thesis by simp
qed

text \<open>The address of line \<open>r\<close> of page \<open>p\<close> for thread \<open>i\<close>, and what the switches make of it.\<close>

lemma line_address:
  assumes "p < 20" "r < 1048576" "i < 8"
  defines "a \<equiv> of_nat (page_window p * 67108864 + r * 64 + i * 8) :: u32"
  shows "unat a = page_window p * 67108864 + r * 64 + i * 8"
    and "a AND 7 = 0" and "lane a = of_nat i"
    and "addr_to_offset a c = Inr (of_nat (p * 1048576 + r))" and "addr_to_page a = Inr (of_nat p)"
proof -
  have low: "r * 64 + i * 8 < 67108864" using assms by linarith
  have "page_window p * 67108864 + r * 64 + i * 8 < 4294967296"
    using page_window_bounds [OF assms(1)] low by linarith
  then show a: "unat a = page_window p * 67108864 + r * 64 + i * 8"
    unfolding a_def by (rule unat_of_nat_u32)
  have div: "unat a div 67108864 = page_window p" and mod: "unat a mod 67108864 = r * 64 + i * 8"
    unfolding a using low by (simp_all add: add.assoc)
  have "unat a = 8 * (page_window p * 8388608 + r * 8 + i)" unfolding a by simp
  then show "a AND 7 = 0" unfolding aligned_iff by (simp only: mod_mult_self1_is_0)
  have "unat a = (page_window p * 1048576 + r) * 64 + i * 8" unfolding a by simp
  then have "unat a mod 64 = i * 8 mod 64" by (simp only: mod_mult_self3)
  then have "unat a mod 64 = i * 8" using assms(3) by simp
  then show "lane a = of_nat i"
    by (intro word_eq_of_nat) (simp add: unat_lane)
  have "(r * 64 + i * 8) div 64 = r" using assms(3) by simp
  then show "addr_to_offset a c = Inr (of_nat (p * 1048576 + r))" "addr_to_page a = Inr (of_nat p)"
    using assms(1) by (simp_all add: addr_to_offset_eq addr_to_page_eq div mod
        window_page_Some_iff [THEN iffD2])
qed

lemma table_offset_cases:
  assumes "off < ADDR_TABLE_SIZE"
  obtains p r where "p < 20" "r < 1048576" "off = of_nat (p * 1048576 + r)"
    "unat off div 1048576 = p" "unat off mod 1048576 = r"
proof
  have "unat off < 20971520" using assms by (simp add: word_less_nat_alt)
  then show "unat off div 1048576 < 20" by (simp add: less_mult_imp_div_less)
  show "off = of_nat (unat off div 1048576 * 1048576 + unat off mod 1048576)"
    by (rule word_eq_of_nat) simp
qed simp_all

interpretation codec: address_codec "\<lambda>a. addr_to_offset a c" offset_to_addr ADDR_TABLE_SIZE for c
proof unfold_locales
  fix off i :: u32
  assume "off < ADDR_TABLE_SIZE" and i: "i < MAX_THREADS"
  from \<open>off < ADDR_TABLE_SIZE\<close> obtain p r
    where pr: "p < 20" "r < 1048576" and off: "off = of_nat (p * 1048576 + r)"
    by (rule table_offset_cases)
  have i': "unat i < 8" using i by (simp add: word_less_nat_alt)
  show "\<exists>a. offset_to_addr off i = Inr a \<and> a AND 7 = 0 \<and> lane a = i \<and> addr_to_offset a c = Inr off"
    using line_address(2-4) [OF pr i'] offset_to_addr_eq [OF pr i'] unfolding off
    by (simp only: of_nat_unat ucast_id) blast
qed (fact addr_to_offset_bound offset_to_addr_roundtrip)+

subsection \<open>Properties\<close>

text \<open>
  C16: An aligned address with an offset has it inside the tables, in the page \<open>addr_to_page\<close> names, and
  \<open>offset_to_addr\<close> and \<open>offset_info\<close> give the address back from the offset and the thread that owns it.
\<close>

theorem addr_offset_roundtrip:
  assumes "a AND 7 = 0" "addr_to_offset a c = Inr off"
  shows "off < ADDR_TABLE_SIZE \<and> addr_to_page a = Inr (offset_to_page off) \<and>
    offset_to_addr off (lane a) = Inr a \<and> offset_info off (lane a) = Inr (offset_to_page off, a)"
proof -
  have addr: "offset_to_addr off (lane a) = Inr a" by (rule codec.of_to_offset [OF assms])
  from assms(2) obtain p where p: "p < 20" "window_page (unat a div 67108864) = Some p"
    and off: "off = of_nat (p * 1048576 + unat a mod 67108864 div 64)"
    by (auto simp: addr_to_offset_eq window_page_Some_iff split: option.splits)
  have r: "unat a mod 67108864 div 64 < 1048576" by (simp add: less_mult_imp_div_less)
  then have u: "unat off = p * 1048576 + unat a mod 67108864 div 64"
    unfolding off using p(1) by (intro unat_of_nat_u32) linarith
  have "unat (drop_bit 20 off) = p" unfolding unat_drop_bit_u32 u using r by simp
  then have "offset_to_page off = of_nat p" unfolding offset_to_page_def config_values by (rule word_eq_of_nat)
  with p(2) have "addr_to_page a = Inr (offset_to_page off)" by (simp add: addr_to_page_eq)
  moreover have "offset_info off (lane a) = Inr (offset_to_page off, a)"
    using addr by (auto simp: offset_info_def offset_to_addr_def offset_to_page_def Let_def)
  ultimately show ?thesis using addr codec.offset_bound [OF assms(2)] by blast
qed

theorem addr_offset_roundtrip_witness:
  "addr_to_offset 0xA4000048 0 = Inr 0x500001 \<and>
   (0x500001 :: u32) < ADDR_TABLE_SIZE \<and> addr_to_page 0xA4000048 = Inr (offset_to_page 0x500001) \<and>
   offset_to_addr 0x500001 (lane 0xA4000048) = Inr 0xA4000048 \<and>
   offset_info 0x500001 (lane 0xA4000048) = Inr (offset_to_page 0x500001, 0xA4000048)"
proof -
  have "addr_to_offset 0xA4000048 0 = Inr 0x500001"
    by (simp add: addr_to_offset_eq window_page_def)
  then show ?thesis using addr_offset_roundtrip [of "0xA4000048" 0 "0x500001"] by simp
qed

text \<open>
  Every offset of the tables is, for every thread, the line of exactly one aligned address of that thread, and
  \<open>offset_to_addr\<close> finds it.
\<close>

theorem every_offset_has_address:
  assumes "off < ADDR_TABLE_SIZE" "i < MAX_THREADS"
  shows "\<exists>!a. a AND 7 = 0 \<and> lane a = i \<and> addr_to_offset a c = Inr off \<and> offset_to_addr off i = Inr a"
  using codec.to_of_offset [OF assms, of c] by auto

theorem every_offset_has_address_witness:
  "\<exists>!a. a AND 7 = 0 \<and> lane a = 3 \<and> addr_to_offset a 0 = Inr 0x13FFFFF \<and> offset_to_addr 0x13FFFFF 3 = Inr a"
  using every_offset_has_address [of "0x13FFFFF" 3 0] by simp

text \<open>The three windows of addresses.\<close>

definition mapped :: "u32 \<Rightarrow> bool" where
  "mapped a \<longleftrightarrow> 0x80000000 \<le> a \<and> a \<le> 0x87FFFFFF \<or> 0x90000000 \<le> a \<and> a \<le> 0x97FFFFFF \<or>
    0xA0000000 \<le> a \<and> a \<le> 0xDFFFFFFF"

lemma mapped_iff: "mapped a \<longleftrightarrow> window_page (unat a div 67108864) \<noteq> None"
proof -
  have ge: "q * 67108864 \<le> unat a \<longleftrightarrow> q \<le> unat a div 67108864" for q
    by (simp add: less_eq_div_iff_mult_less_eq)
  have le: "unat a \<le> q * 67108864 + 67108863 \<longleftrightarrow> unat a div 67108864 \<le> q" for q
    using ge [of "Suc q"] by linarith
  show ?thesis
    using ge [of 32] ge [of 36] ge [of 40] le [of 33] le [of 37] le [of 55]
    by (auto simp: mapped_def word_le_nat_alt window_page_def)
qed

text \<open>
  C17: The addresses with an offset are exactly those of the ROM, the input and the RAM windows; every other address
  is refused with an error that names it and the current chunk.
\<close>

theorem addr_to_offset_domain:
  "((\<exists>off. addr_to_offset a c = Inr off) \<longleftrightarrow> mapped a) \<and>
   (addr_to_offset a c = Inl e \<longleftrightarrow> \<not> mapped a \<and> e = Bad_addr_offset a c) \<and>
   ((\<exists>p. addr_to_page a = Inr p) \<longleftrightarrow> mapped a)"
  unfolding mapped_iff by (auto simp: addr_to_offset_eq addr_to_page_eq split: option.splits)

text \<open>
  Offsets, and threads within an offset, order the aligned addresses: the planners, which visit the tables by
  offset and then by thread, visit addresses in increasing order.
\<close>

theorem offset_order:
  assumes "a AND 7 = 0" "b AND 7 = 0" "addr_to_offset a c = Inr off" "addr_to_offset b c = Inr off'"
  shows "a < b \<longleftrightarrow> off < off' \<or> off = off' \<and> lane a < lane b"
proof -
  have parts: "\<exists>p r. p < 20 \<and> r < 1048576 \<and> unat x = page_window p * 67108864 + r * 64 + unat (lane x) * 8 \<and>
      unat o' = p * 1048576 + r" if "x AND 7 = 0" "addr_to_offset x c = Inr o'" for x o'
  proof -
    from that(2) obtain p where p: "p < 20" "unat x div 67108864 = page_window p"
      and o': "o' = of_nat (p * 1048576 + unat x mod 67108864 div 64)"
      by (auto simp: addr_to_offset_eq window_page_Some_iff split: option.splits)
    have r: "unat x mod 67108864 div 64 < 1048576" by (simp add: less_mult_imp_div_less)
    then have "unat o' = p * 1048576 + unat x mod 67108864 div 64"
      unfolding o' using p(1) by (intro unat_of_nat_u32) linarith
    with p r addr_split [OF that(1)] show ?thesis by metis
  qed
  obtain p r where a: "p < 20" "r < 1048576" "unat a = page_window p * 67108864 + r * 64 + unat (lane a) * 8"
    "unat off = p * 1048576 + r" using parts [OF assms(1,3)] by blast
  obtain p' r' where b: "p' < 20" "r' < 1048576" "unat b = page_window p' * 67108864 + r' * 64 + unat (lane b) * 8"
    "unat off' = p' * 1048576 + r'" using parts [OF assms(2,4)] by blast
  have lanes: "unat (lane a) < 8" "unat (lane b) < 8"
    using lane_bound [of a] lane_bound [of b] by (simp_all add: word_less_nat_alt)
  consider "p < p'" | "p = p'" | "p' < p" by linarith
  then show ?thesis
  proof cases
    case 1
    then have "Suc (page_window p) \<le> page_window p'" using page_window_mono by (simp add: Suc_leI)
    then have "Suc (page_window p) * 67108864 \<le> page_window p' * 67108864" by (rule mult_le_mono1)
    then show ?thesis
      using 1 a b lanes by (simp add: word_less_nat_alt word_unat_eq_iff)
  next
    case 2
    then show ?thesis using a b lanes by (auto simp: word_less_nat_alt word_unat_eq_iff)
  next
    case 3
    then have "Suc (page_window p') \<le> page_window p" using page_window_mono by (simp add: Suc_leI)
    then have "Suc (page_window p') * 67108864 \<le> page_window p * 67108864" by (rule mult_le_mono1)
    then show ?thesis
      using 3 a b lanes by (simp add: word_less_nat_alt word_unat_eq_iff)
  qed
qed

theorem offset_order_witness:
  "(0x84000000 :: u32) < 0x90000008 \<longleftrightarrow>
    (0x100000 :: u32) < 0x200000 \<or> (0x100000 :: u32) = 0x200000 \<and> lane 0x84000000 < lane 0x90000008"
proof -
  have "addr_to_offset 0x84000000 0 = Inr 0x100000" "addr_to_offset 0x90000008 0 = Inr 0x200000"
    by (simp_all add: addr_to_offset_eq window_page_def)
  then show ?thesis using offset_order [of "0x84000000" "0x90000008" 0 "0x100000" "0x200000"] by simp
qed

end
