(* ===== verification/Slot_Chain.thy ===== *)
theory Slot_Chain
  imports Mem_Config
begin

text \<open>
  The layout \<open>MemCounter\<close> keeps in \<open>addr_slots\<close>: blocks of 16 words, each with a back link (word 0), a forward
  link (word 1) and seven pairs of a chunk id and a count. The blocks of one address form a ring: word 1 of the
  last block leads back to the first. \<open>chain S bs es\<close> says that the store \<open>S\<close> holds the entries \<open>es\<close> in
  the blocks \<open>bs\<close>; the lemmas give the effect on it of each kind of write the counter makes.
\<close>

unbundle bit_operations_syntax

named_theorems slot_simps "positions inside the slot store"

definition slot_at :: "nat \<Rightarrow> nat \<Rightarrow> u32" where
  "slot_at b r = of_nat (16 * b + r)"

abbreviation max_blocks :: nat where
  "max_blocks \<equiv> 4194304"

lemma unat_slot_at [slot_simps]: "b < max_blocks \<Longrightarrow> r < 16 \<Longrightarrow> unat (slot_at b r) = 16 * b + r"
  unfolding slot_at_def by (rule unat_of_nat_u32) linarith

lemma slot_at_eq_iff [slot_simps]:
  assumes "b < max_blocks" "b' < max_blocks" "r < 16" "r' < 16"
  shows "slot_at b r = slot_at b' r' \<longleftrightarrow> b = b' \<and> r = r'"
proof -
  have "b = b'" if "16 * b + r = 16 * b' + r'"
    using arg_cong [OF that, of "\<lambda>n. n div 16"] assms by simp
  then have "16 * b + r = 16 * b' + r' \<longleftrightarrow> b = b' \<and> r = r'" by auto
  then show ?thesis using assms by (simp add: word_unat_eq_iff unat_slot_at)
qed

lemma slot_at_0_0 [simp]: "slot_at 0 0 = 0"
  by (simp add: slot_at_def)

lemma slot_at_eq_0_iff [slot_simps]:
  "b < max_blocks \<Longrightarrow> r < 16 \<Longrightarrow> slot_at b r = 0 \<longleftrightarrow> b = 0 \<and> r = 0"
  using slot_at_eq_iff [of b 0 r 0] by simp

lemma slot_at_plus [slot_simps]:
  "slot_at b r + 1 = slot_at b (r + 1)" "slot_at b r + numeral k = slot_at b (r + numeral k)"
  by (simp_all add: slot_at_def algebra_simps)

lemma slot_at_block [slot_simps]:
  "b < max_blocks \<Longrightarrow> r < 16 \<Longrightarrow> slot_at b r AND 4294967280 = slot_at b 0"
  by (simp add: word_unat_eq_iff unat_and_slot_mask unat_slot_at)

lemma slot_at_relative [slot_simps]:
  "b < max_blocks \<Longrightarrow> r < 16 \<Longrightarrow> slot_at b r AND 15 = of_nat r"
  "b < max_blocks \<Longrightarrow> r < 16 \<Longrightarrow> slot_at b r mod 16 = of_nat r"
  by (simp_all add: word_unat_eq_iff unat_and_15 unat_slot_at unat_mod)

lemma slot_at_less [slot_simps]: "b < max_blocks \<Longrightarrow> r < 16 \<Longrightarrow> slot_at b r < 67108864"
  by (simp add: word_less_nat_alt unat_slot_at)

lemma slot_at_back [slot_simps]: "slot_at b 14 - 16 + 2 = slot_at b 0"
  by (simp add: slot_at_def)

lemma slot_at_scale: "b < max_blocks \<Longrightarrow> of_nat b * 16 = slot_at b 0"
  by (simp add: slot_at_def)

subsection \<open>Chains\<close>

definition entry_slot :: "nat list \<Rightarrow> nat \<Rightarrow> nat \<Rightarrow> u32" where
  "entry_slot bs j k = slot_at (bs ! (j div 7)) (2 + 2 * (j mod 7) + k)"

definition links :: "(u32 \<Rightarrow> u32) \<Rightarrow> nat list \<Rightarrow> bool" where
  "links S bs \<longleftrightarrow> (\<forall>i<length bs.
    S (slot_at (bs ! i) 0) = (if i = 0 then 0 else slot_at (bs ! (i - 1)) 0) \<and>
    S (slot_at (bs ! i) 1) = slot_at (bs ! (if Suc i = length bs then 0 else Suc i)) 0)"

definition entries :: "(u32 \<Rightarrow> u32) \<Rightarrow> nat list \<Rightarrow> (u32 \<times> u32) list \<Rightarrow> bool" where
  "entries S bs es \<longleftrightarrow>
    (\<forall>j<length es. S (entry_slot bs j 0) = fst (es ! j) \<and> S (entry_slot bs j 1) = snd (es ! j))"

definition shape :: "nat list \<Rightarrow> 'a list \<Rightarrow> bool" where
  "shape bs es \<longleftrightarrow> es \<noteq> [] \<and> length bs = (length es + 6) div 7 \<and>
    sorted_wrt (<) bs \<and> (\<forall>b\<in>set bs. b < max_blocks)"

definition chain :: "(u32 \<Rightarrow> u32) \<Rightarrow> nat list \<Rightarrow> (u32 \<times> u32) list \<Rightarrow> bool" where
  "chain S bs es \<longleftrightarrow> shape bs es \<and> links S bs \<and> entries S bs es"

lemma shape_facts:
  assumes "shape bs es"
  shows "bs \<noteq> []" and "es \<noteq> []" and "distinct bs" and "sorted_wrt (<) bs"
    and "length bs = (length es + 6) div 7"
    and "\<And>j. j < length es \<Longrightarrow> j div 7 < length bs"
    and "\<And>i. i < length bs \<Longrightarrow> bs ! i < max_blocks"
  using assms by (auto simp: shape_def strict_sorted_iff length_greater_0_conv [symmetric]
      simp del: length_greater_0_conv)

lemma links_cong:
  assumes "\<And>i r. i < length bs \<Longrightarrow> r < 2 \<Longrightarrow> S' (slot_at (bs ! i) r) = S (slot_at (bs ! i) r)"
  shows "links S' bs \<longleftrightarrow> links S bs"
  using assms by (simp add: links_def)

lemma full_blocks:
  assumes "shape bs es" and "length es mod 7 = 0"
  shows "length es div 7 = length bs"
proof -
  obtain k where "length es = 7 * k" using assms(2) by (auto simp: mod_eq_0_iff_dvd elim: dvdE)
  then show ?thesis using shape_facts(5) [OF assms(1)] by simp
qed

lemma shape_last:
  assumes "shape bs es"
  shows "last bs = bs ! ((length es - 1) div 7)"
proof -
  have "(length es - 1) div 7 = length bs - 1"
    using shape_facts(2,5) [OF assms] by (cases es) simp_all
  then show ?thesis using shape_facts(1) [OF assms] by (simp add: last_conv_nth)
qed

lemma entry_slot_last:
  "shape bs es \<Longrightarrow> entry_slot bs (length es - 1) k = slot_at (last bs) (2 + 2 * ((length es - 1) mod 7) + k)"
  by (simp add: entry_slot_def shape_last)

text \<open>Two entries of one chain never share a word, and none shares one with a link.\<close>

lemma pair_index_eq_iff: "k < 2 \<Longrightarrow> k' < 2 \<Longrightarrow> 2 * a + k = 2 * a' + k' \<longleftrightarrow> a = a' \<and> k = (k' :: nat)"
  by presburger

lemma div_mod_eq_imp_eq: "j div 7 = j' div 7 \<Longrightarrow> j mod 7 = j' mod 7 \<Longrightarrow> j = (j' :: nat)"
  by (metis div_mult_mod_eq)

lemma entry_slot_eq_iff:
  assumes "shape bs es" "j < length es" "j' < length es" "k < 2" "k' < 2"
  shows "entry_slot bs j k = entry_slot bs j' k' \<longleftrightarrow> j = j' \<and> k = k'"
proof -
  note facts = shape_facts [OF assms(1)]
  have jj: "j div 7 < length bs" "j' div 7 < length bs" using facts(6) assms(2,3) by simp_all
  have small: "2 + 2 * (j mod 7) + k < 16" if "k < 2" for j k :: nat
    using that mod_less_divisor [of 7 j] by linarith
  have "entry_slot bs j k = entry_slot bs j' k' \<longleftrightarrow>
      bs ! (j div 7) = bs ! (j' div 7) \<and> 2 * (j mod 7) + k = 2 * (j' mod 7) + k'"
    unfolding entry_slot_def using small assms(4,5) facts(7) jj
    by (subst slot_at_eq_iff) simp_all
  also have "\<dots> \<longleftrightarrow> j div 7 = j' div 7 \<and> j mod 7 = j' mod 7 \<and> k = k'"
    using nth_eq_iff_index_eq [OF facts(3) jj] pair_index_eq_iff assms(4,5) by simp
  also have "\<dots> \<longleftrightarrow> j = j' \<and> k = k'"
    using div_mod_eq_imp_eq [of j j'] by blast
  finally show ?thesis .
qed

lemma entry_slot_not_link:
  assumes "shape bs es" "j < length es" "k < 2" "i < length bs" "r < 2"
  shows "entry_slot bs j k \<noteq> slot_at (bs ! i) r"
proof -
  note facts = shape_facts [OF assms(1)]
  have "2 + 2 * (j mod 7) + k < 16" using assms(3) mod_less_divisor [of 7 j] by linarith
  then show ?thesis
    unfolding entry_slot_def using assms facts(6,7) by (subst slot_at_eq_iff) auto
qed

text \<open>A chain depends only on the words of its own blocks.\<close>

lemma chain_cong:
  assumes "chain S bs es" and "\<And>b r. b \<in> set bs \<Longrightarrow> r < 16 \<Longrightarrow> S' (slot_at b r) = S (slot_at b r)"
  shows "chain S' bs es"
proof -
  have shape: "shape bs es" using assms(1) by (simp add: chain_def)
  have "S' (entry_slot bs j k) = S (entry_slot bs j k)" if "j < length es" "k < 2" for j k
    unfolding entry_slot_def
    using that mod_less_divisor [of 7 j] shape_facts(6) [OF shape that(1)]
    by (intro assms(2)) auto
  moreover have "links S' bs \<longleftrightarrow> links S bs" by (rule links_cong) (simp add: assms(2))
  ultimately show ?thesis using assms(1) by (simp add: chain_def entries_def)
qed

lemma chain_new:
  assumes "b < max_blocks" "S (slot_at b 0) = 0" "S (slot_at b 1) = slot_at b 0"
    "S (slot_at b 2) = c" "S (slot_at b 3) = n"
  shows "chain S [b] [(c, n)]"
  using assms by (simp add: chain_def shape_def links_def entries_def entry_slot_def)

text \<open>Adding to the count of the last entry.\<close>

lemma chain_add_last:
  assumes "chain S bs es"
  defines "p \<equiv> entry_slot bs (length es - 1) 1"
  shows "chain (S(p := S p + n)) bs (es[length es - 1 := (fst (last es), snd (last es) + n)])"
proof -
  let ?l = "length es - 1" and ?S = "S(p := S p + n)"
  have shape: "shape bs es" and links: "links S bs" and entries: "entries S bs es"
    using assms(1) by (simp_all add: chain_def)
  have es: "es \<noteq> []" and l: "?l < length es" using shape_facts(2) [OF shape] by simp_all
  have "slot_at (bs ! i) r \<noteq> p" if "i < length bs" "r < 2" for i r
    unfolding p_def by (rule entry_slot_not_link [OF shape l _ that, symmetric]) simp
  then have "links ?S bs"
    using links by (subst links_cong [of bs ?S S]) auto
  moreover have p: "entry_slot bs j 0 \<noteq> p" "entry_slot bs j 1 = p \<longleftrightarrow> j = ?l" if "j < length es" for j
    unfolding p_def using entry_slot_eq_iff [OF shape that l] by auto
  have "entries ?S bs (es[?l := (fst (last es), snd (last es) + n)])"
    unfolding entries_def
  proof (intro allI impI)
    fix j assume "j < length (es[?l := (fst (last es), snd (last es) + n)])"
    then have j: "j < length es" by simp
    then show "?S (entry_slot bs j 0) = fst (es[?l := (fst (last es), snd (last es) + n)] ! j) \<and>
        ?S (entry_slot bs j 1) = snd (es[?l := (fst (last es), snd (last es) + n)] ! j)"
      using p [OF j] entries es
      by (cases "j = ?l") (auto simp: entries_def nth_list_update last_conv_nth fun_upd_apply)
  qed
  moreover have "shape bs (es[?l := (fst (last es), snd (last es) + n)])"
    using shape by (auto simp: shape_def)
  ultimately show ?thesis by (simp add: chain_def)
qed

text \<open>Appending an entry in the free part of the last block.\<close>

lemma shape_append:
  assumes "shape bs es" and "length es mod 7 \<noteq> 0"
  shows "shape bs (es @ [e])"
proof -
  have "Suc (n + 6) div 7 = (n + 6) div 7" if "n mod 7 \<noteq> 0" for n :: nat
    using that by (subst div_Suc) simp
  with assms show ?thesis by (auto simp: shape_def)
qed

lemma chain_append:
  assumes "chain S bs es" and "length es mod 7 \<noteq> 0"
  defines "p \<equiv> entry_slot bs (length es)"
  shows "chain (S(p 0 := c, p 1 := n)) bs (es @ [(c, n)])"
proof -
  let ?l = "length es" and ?S = "S(p 0 := c, p 1 := n)"
  have links: "links S bs" and entries: "entries S bs es" and shape: "shape bs (es @ [(c, n)])"
    using assms(1,2) shape_append by (auto simp: chain_def)
  have l: "?l < length (es @ [(c, n)])" by simp
  have "slot_at (bs ! i) r \<noteq> p k" if "i < length bs" "r < 2" "k < 2" for i r k
    unfolding p_def by (rule entry_slot_not_link [OF shape l that(3,1,2), symmetric])
  from this [of _ _ 0] this [of _ _ 1] have "links ?S bs"
    using links by (subst links_cong [of bs ?S S]) auto
  moreover have p: "entry_slot bs j k = p k' \<longleftrightarrow> j = ?l \<and> k = k'"
    if "j < Suc ?l" "k < 2" "k' < 2" for j k k'
    unfolding p_def using entry_slot_eq_iff [OF shape _ l, of j k k'] that by auto
  have "entries ?S bs (es @ [(c, n)])"
    unfolding entries_def
  proof (intro allI impI)
    fix j assume "j < length (es @ [(c, n)])"
    then have j: "j < Suc ?l" by simp
    show "?S (entry_slot bs j 0) = fst ((es @ [(c, n)]) ! j) \<and>
        ?S (entry_slot bs j 1) = snd ((es @ [(c, n)]) ! j)"
      using p [OF j, of 0 0] p [OF j, of 0 1] p [OF j, of 1 0] p [OF j, of 1 1] j entries
      by (cases "j = ?l") (simp_all add: entries_def nth_append fun_upd_apply)
  qed
  ultimately show ?thesis using shape by (simp add: chain_def)
qed

text \<open>Appending an entry in a new block, linked behind the full last one.\<close>

lemma chain_extend:
  assumes "chain S bs es" and "length es mod 7 = 0" and "b < max_blocks" and "\<forall>b'\<in>set bs. b' < b"
  defines "t \<equiv> last bs"
  shows "chain (S(slot_at b 0 := slot_at t 0, slot_at b 1 := S (slot_at t 1),
      slot_at b 2 := c, slot_at b 3 := n, slot_at t 1 := slot_at b 0)) (bs @ [b]) (es @ [(c, n)])"
    (is "chain ?S _ _")
proof -
  have links: "links S bs" and entries: "entries S bs es" and sh: "shape bs es"
    using assms(1) by (auto simp: chain_def)
  note facts = shape_facts [OF sh]
  have div: "length es div 7 = length bs" by (rule full_blocks [OF sh assms(2)])
  have shape: "shape (bs @ [b]) (es @ [(c, n)])"
    using sh assms(2-4) by (auto simp: shape_def sorted_wrt_append)
  have t: "t = bs ! (length bs - 1)" using facts(1) by (simp add: t_def last_conv_nth)
  have neq: "bs ! i \<noteq> b" "bs ! i < max_blocks" if "i < length bs" for i
    using that assms(4) nth_mem [OF that] facts(7) by auto
  have same: "bs ! i = t \<longleftrightarrow> Suc i = length bs" if "i < length bs" for i
    unfolding t using nth_eq_iff_index_eq [OF facts(3) that] facts(1) by auto
  have tb: "t < max_blocks" "t \<noteq> b" using neq facts(1) by (auto simp: t)
  have tl: "S (slot_at t 1) = slot_at (bs ! 0) 0"
    using links facts(1) by (auto simp: links_def t)
  have "links ?S (bs @ [b])"
    unfolding links_def
  proof (intro allI impI)
    fix i assume "i < length (bs @ [b])"
    then consider "i = length bs" | "i < length bs" by force
    then show "?S (slot_at ((bs @ [b]) ! i) 0) = (if i = 0 then 0 else slot_at ((bs @ [b]) ! (i - 1)) 0) \<and>
        ?S (slot_at ((bs @ [b]) ! i) 1) =
        slot_at ((bs @ [b]) ! (if Suc i = length (bs @ [b]) then 0 else Suc i)) 0"
    proof cases
      case 1
      then show ?thesis using assms(3) facts(1) tb tl
        by (auto simp: slot_at_eq_iff nth_append t)
    next
      case 2
      then show ?thesis using assms(3) neq [OF 2] same [OF 2] tb links
        by (auto simp: slot_at_eq_iff nth_append links_def)
    qed
  qed
  moreover have "entries ?S (bs @ [b]) (es @ [(c, n)])"
    unfolding entries_def
  proof (intro allI impI)
    fix j assume "j < length (es @ [(c, n)])"
    then consider "j = length es" | "j < length es" by force
    then show "?S (entry_slot (bs @ [b]) j 0) = fst ((es @ [(c, n)]) ! j) \<and>
        ?S (entry_slot (bs @ [b]) j 1) = snd ((es @ [(c, n)]) ! j)"
    proof cases
      case 1
      then show ?thesis using assms(2,3) tb
        by (simp add: entry_slot_def nth_append div slot_at_eq_iff)
    next
      case 2
      then have jb: "j div 7 < length bs" using facts(6) by simp
      have m: "2 + 2 * (j mod 7) + k < 16" if "k < 2" for k
        using that mod_less_divisor [of 7 j] by linarith
      show ?thesis using 2 jb assms(3) neq [OF jb] tb entries m [of 0] m [of 1]
        by (simp add: entry_slot_def nth_append entries_def slot_at_eq_iff)
    qed
  qed
  ultimately show ?thesis using shape by (simp add: chain_def)
qed

end
