(* ===== verification/Mem_Counter.thy ===== *)
theory Mem_Counter
  imports Mem_Address Slot_Chain
begin

text \<open>
  \<open>MemCounter\<close> of \<open>mem_counter.hpp\<close>: one counting thread with its address table, its slot store and the
  first and last used offset of every page. The operations are the code's, with every array access checked: an
  access outside its array is the error \<open>Out_of_bounds\<close>. The clock (\<open>elapsed_ms\<close>) and the \<open>printf\<close>s
  are left out.
\<close>

unbundle bit_operations_syntax

subsection \<open>State\<close>

record AddrCount =
  ac_pos :: u32
  ac_count :: u32

record MemCounter =
  counter_id :: u32
  addr_mask :: u32
  addr_count :: int
  addr_count_table :: "u32 \<Rightarrow> AddrCount"
  addr_slots :: "u32 \<Rightarrow> u32"
  current_chunk :: u32
  free_slot :: u32
  tot_usleep :: u32
  queue_full :: u32
  first_offset :: "u32 \<Rightarrow> u32"
  last_offset :: "u32 \<Rightarrow> u32"

text \<open>
  The constructor clears the table and the limits; it leaves the slots as \<open>aligned_alloc\<close> returns them and
  \<open>current_chunk\<close> unset, so both contents are parameters.
\<close>

definition mem_counter_new :: "(u32 \<Rightarrow> u32) \<Rightarrow> u32 \<Rightarrow> u32 \<Rightarrow> MemCounter" where
  "mem_counter_new slots0 chunk0 thread =
    \<lparr>counter_id = thread, addr_mask = thread * 8, addr_count = 0,
     addr_count_table = (\<lambda>_. \<lparr>ac_pos = 0, ac_count = 0\<rparr>), addr_slots = slots0,
     current_chunk = chunk0, free_slot = 0, tot_usleep = 0, queue_full = 0,
     first_offset = (\<lambda>_. 0xFFFFFFFF), last_offset = (\<lambda>_. 0)\<rparr>"

subsection \<open>Array accesses\<close>

definition table_read :: "MemCounter \<Rightarrow> u32 \<Rightarrow> AddrCount res" where
  "table_read w i = (if i < ADDR_TABLE_SIZE then Inr (addr_count_table w i) else Inl Out_of_bounds)"

definition table_write :: "u32 \<Rightarrow> AddrCount \<Rightarrow> MemCounter \<Rightarrow> MemCounter res" where
  "table_write i v w =
    (if i < ADDR_TABLE_SIZE then Inr (w\<lparr>addr_count_table := (addr_count_table w)(i := v)\<rparr>)
     else Inl Out_of_bounds)"

definition slot_read :: "MemCounter \<Rightarrow> u32 \<Rightarrow> u32 res" where
  "slot_read w i = (if i < ADDR_SLOTS_SIZE then Inr (addr_slots w i) else Inl Out_of_bounds)"

definition slot_write :: "u32 \<times> u32 \<Rightarrow> MemCounter \<Rightarrow> MemCounter res" where
  "slot_write iv w =
    (if fst iv < ADDR_SLOTS_SIZE then Inr (w\<lparr>addr_slots := (addr_slots w)(fst iv := snd iv)\<rparr>)
     else Inl Out_of_bounds)"

definition limits_write :: "u32 \<Rightarrow> u32 \<Rightarrow> MemCounter \<Rightarrow> MemCounter res" where
  "limits_write page off w =
    (if page < MAX_PAGES
     then Inr (w\<lparr>first_offset := (first_offset w)(page := min (first_offset w page) off),
                 last_offset := (last_offset w)(page := max (last_offset w page) off)\<rparr>)
     else Inl Out_of_bounds)"

subsection \<open>Readers\<close>

definition get_count :: "MemCounter \<Rightarrow> u32" where
  "get_count w = of_int (addr_count w)"

definition get_used_slots :: "MemCounter \<Rightarrow> u32" where
  "get_used_slots w = free_slot w"

definition get_addr_table :: "MemCounter \<Rightarrow> u32 \<Rightarrow> u32 res" where
  "get_addr_table w index = bindE (table_read w index) (\<lambda>c. Inr (ac_pos c))"

definition get_count_table :: "MemCounter \<Rightarrow> u32 \<Rightarrow> u32 res" where
  "get_count_table w index = bindE (table_read w index) (\<lambda>c. Inr (ac_count c))"

definition get_pos_value :: "MemCounter \<Rightarrow> u32 \<Rightarrow> u32 res" where
  "get_pos_value w pos = slot_read w pos"

definition get_initial_block_pos :: "MemCounter \<Rightarrow> u32 \<Rightarrow> u32 res" where
  "get_initial_block_pos w pos =
    (let tpos = pos AND ADDR_SLOT_MASK in
     bindE (slot_read w tpos) (\<lambda>v. if v = 0 then Inr tpos else slot_read w (tpos + 1)))"

definition get_final_block_pos :: "u32 \<Rightarrow> u32" where
  "get_final_block_pos pos = pos AND ADDR_SLOT_MASK"

definition get_next_block :: "MemCounter \<Rightarrow> u32 \<Rightarrow> u32 res" where
  "get_next_block w pos = slot_read w (pos + 1)"

definition get_initial_pos :: "MemCounter \<Rightarrow> u32 \<Rightarrow> u32 res" where
  "get_initial_pos w pos =
    (let tpos = pos AND ADDR_SLOT_MASK in
     if tpos \<ge> ADDR_SLOTS_SIZE then Inl (Initial_pos_out_of_bounds tpos pos)
     else bindE (slot_read w tpos) (\<lambda>v.
       if v = 0 then Inr (tpos + 2)
       else bindE (slot_read w (tpos + 1)) (\<lambda>first. Inr (first + 2))))"

definition get_next_pos :: "MemCounter \<Rightarrow> u32 \<Rightarrow> u32 res" where
  "get_next_pos w pos =
    (let relative_pos = pos AND (ADDR_SLOT_SIZE - 1) in
     if relative_pos < ADDR_SLOT_SIZE - 1 then Inr (pos + 1)
     else let tpos = pos AND ADDR_SLOT_MASK in
       bindE (slot_read w (tpos + 1)) (\<lambda>next. if next \<noteq> 0 then Inr (next + 2) else Inr 0))"

subsection \<open>Counting one aligned access\<close>

definition get_next_slot_pos :: "MemCounter \<Rightarrow> (u32 \<times> MemCounter) res" where
  "get_next_slot_pos w =
    (if free_slot w \<ge> ADDR_SLOTS then Inl (No_free_slots (counter_id w))
     else Inr (free_slot w * ADDR_SLOT_SIZE, w\<lparr>free_slot := free_slot w + 1\<rparr>))"

definition count_aligned :: "u32 \<Rightarrow> u32 \<Rightarrow> u32 \<Rightarrow> MemCounter \<Rightarrow> MemCounter res" where
  "count_aligned a chunk_id count w =
    bindE (addr_to_offset a (current_chunk w)) (\<lambda>offset.
    bindE (table_read w offset) (\<lambda>cell.
    let pos = ac_pos cell in
    if pos = 0 then
      bindE (get_next_slot_pos w) (\<lambda>(pos, w).
      bindE (foldE slot_write [(pos, 0), (pos + 1, pos), (pos + 2, chunk_id), (pos + 3, count)] w) (\<lambda>w.
      bindE (table_write offset \<lparr>ac_pos = pos + 2, ac_count = count\<rparr> w) (\<lambda>w.
      bindE (limits_write (drop_bit ADDR_PAGE_BITS offset) offset w) (\<lambda>w.
      Inr (w\<lparr>addr_count := addr_count w + 1\<rparr>)))))
    else
      bindE (table_write offset \<lparr>ac_pos = pos, ac_count = ac_count cell + count\<rparr> w) (\<lambda>w.
      bindE (slot_read w pos) (\<lambda>last_chunk.
      if last_chunk = chunk_id then
        bindE (slot_read w (pos + 1)) (\<lambda>v. slot_write (pos + 1, v + count) w)
      else if pos mod ADDR_SLOT_SIZE = ADDR_SLOT_SIZE - 2 then
        bindE (get_next_slot_pos w) (\<lambda>(npos, w).
        let tpos = pos - ADDR_SLOT_SIZE + 2 in
        bindE (slot_write (npos, tpos) w) (\<lambda>w.
        bindE (slot_read w (tpos + 1)) (\<lambda>first.
        bindE (foldE slot_write [(npos + 1, first), (npos + 2, chunk_id), (npos + 3, count),
          (tpos + 1, npos)] w) (\<lambda>w.
        table_write offset \<lparr>ac_pos = npos + 2, ac_count = ac_count cell + count\<rparr> w))))
      else
        bindE (foldE slot_write [(pos + 2, chunk_id), (pos + 3, count)] w) (\<lambda>w.
        table_write offset \<lparr>ac_pos = pos + 2, ac_count = ac_count cell + count\<rparr> w)))))"

subsection \<open>The entries of an offset and the invariant of the counter\<close>

text \<open>What one access adds to the entries of its offset, most recent entry last.\<close>

definition log_add :: "u32 \<Rightarrow> u32 \<Rightarrow> (u32 \<times> u32) list \<Rightarrow> (u32 \<times> u32) list" where
  "log_add c n es =
    (if es \<noteq> [] \<and> fst (last es) = c then es[length es - 1 := (fst (last es), snd (last es) + n)]
     else es @ [(c, n)])"

definition needs_block :: "u32 \<Rightarrow> (u32 \<times> u32) list \<Rightarrow> bool" where
  "needs_block c es \<longleftrightarrow> length es mod 7 = 0 \<and> (es = [] \<or> fst (last es) \<noteq> c)"

text \<open>
  \<open>offset_ok w off bs es\<close>: offset \<open>off\<close> holds the entries \<open>es\<close> in the blocks \<open>bs\<close>; \<open>rep w B E\<close>: every
  offset does, no two share a block, and the page limits bound exactly the used offsets.
\<close>

definition offset_ok :: "MemCounter \<Rightarrow> u32 \<Rightarrow> nat list \<Rightarrow> (u32 \<times> u32) list \<Rightarrow> bool" where
  "offset_ok w off bs es \<longleftrightarrow>
    (if es = [] then bs = [] \<and> addr_count_table w off = \<lparr>ac_pos = 0, ac_count = 0\<rparr>
     else off < ADDR_TABLE_SIZE \<and> chain (addr_slots w) bs es \<and> (\<forall>b\<in>set bs. b < unat (free_slot w)) \<and>
       addr_count_table w off =
         \<lparr>ac_pos = entry_slot bs (length es - 1) 0, ac_count = sum_list (map snd es)\<rparr>)"

definition limits_ok :: "MemCounter \<Rightarrow> u32 set \<Rightarrow> bool" where
  "limits_ok w U \<longleftrightarrow>
    (\<forall>off\<in>U. first_offset w (offset_to_page off) \<le> off \<and> off \<le> last_offset w (offset_to_page off)) \<and>
    (\<forall>p. if \<exists>off\<in>U. offset_to_page off = p
      then first_offset w p \<in> U \<and> offset_to_page (first_offset w p) = p \<and>
        last_offset w p \<in> U \<and> offset_to_page (last_offset w p) = p
      else first_offset w p = 0xFFFFFFFF \<and> last_offset w p = 0)"

abbreviation used :: "(u32 \<Rightarrow> 'a list) \<Rightarrow> u32 set" where
  "used E \<equiv> {off. E off \<noteq> []}"

definition rep :: "MemCounter \<Rightarrow> (u32 \<Rightarrow> nat list) \<Rightarrow> (u32 \<Rightarrow> (u32 \<times> u32) list) \<Rightarrow> bool" where
  "rep w B E \<longleftrightarrow> free_slot w \<le> ADDR_SLOTS \<and> (\<forall>off. offset_ok w off (B off) (E off)) \<and>
    (\<forall>off off'. off \<noteq> off' \<longrightarrow> set (B off) \<inter> set (B off') = {}) \<and> limits_ok w (used E) \<and>
    addr_count w = int (card (used E))"

subsection \<open>Reading a chain\<close>

lemma entry_slot_bounds:
  assumes "shape bs es" "j < length es" "k < 2"
  obtains b r where "entry_slot bs j k = slot_at b (r + k)" "b = bs ! (j div 7)" "r = 2 + 2 * (j mod 7)"
    "b < max_blocks" "r + k < 16" "r + 1 < 16"
proof
  show "bs ! (j div 7) < max_blocks" using shape_facts(6,7) [OF assms(1)] assms(2) by simp
  show "2 + 2 * (j mod 7) + k < 16" "2 + 2 * (j mod 7) + 1 < 16"
    using assms(3) mod_less_divisor [of 7 j] by linarith+
qed (simp_all add: entry_slot_def)

lemma slot_read_slot_at [slot_simps]:
  "b < max_blocks \<Longrightarrow> r < 16 \<Longrightarrow> slot_read w (slot_at b r) = Inr (addr_slots w (slot_at b r))"
  by (simp add: slot_read_def slot_at_less)

lemma slot_write_slot_at [slot_simps]:
  "b < max_blocks \<Longrightarrow> r < 16 \<Longrightarrow>
    slot_write (slot_at b r, v) w = Inr (w\<lparr>addr_slots := (addr_slots w)(slot_at b r := v)\<rparr>)"
  by (simp add: slot_write_def slot_at_less)

lemma get_pos_value_entry:
  assumes "chain (addr_slots w) bs es" "j < length es"
  shows "get_pos_value w (entry_slot bs j 0) = Inr (fst (es ! j))"
    and "get_pos_value w (entry_slot bs j 1) = Inr (snd (es ! j))"
proof -
  have shape: "shape bs es" and entries: "entries (addr_slots w) bs es"
    using assms(1) by (simp_all add: chain_def)
  have "get_pos_value w (entry_slot bs j k) = Inr (addr_slots w (entry_slot bs j k))" if "k < 2" for k
    by (rule entry_slot_bounds [OF shape assms(2) that])
      (simp add: get_pos_value_def slot_read_slot_at)
  with entries assms(2) show "get_pos_value w (entry_slot bs j 0) = Inr (fst (es ! j))"
    and "get_pos_value w (entry_slot bs j 1) = Inr (snd (es ! j))"
    by (simp_all add: entries_def)
qed

lemma entry_slot_1: "entry_slot bs j 0 + 1 = entry_slot bs j 1"
  by (simp add: entry_slot_def slot_at_plus)

lemma entry_slot_nonzero: "shape bs es \<Longrightarrow> j < length es \<Longrightarrow> entry_slot bs j 0 \<noteq> 0"
  by (rule entry_slot_bounds [of bs es j 0]) (simp_all add: slot_at_eq_0_iff)

text \<open>The first link of a chain is zero for its first block, and for a second block behind block 0.\<close>

lemma first_link_zero_iff:
  assumes "chain S bs es"
  shows "S (slot_at (last bs) 0) = 0 \<longleftrightarrow> length bs = 1 \<or> length bs = 2 \<and> hd bs = 0"
proof -
  have shape: "shape bs es" and links: "links S bs" using assms by (simp_all add: chain_def)
  note facts = shape_facts [OF shape]
  have last: "S (slot_at (last bs) 0) = (if length bs = 1 then 0 else slot_at (bs ! (length bs - 2)) 0)"
    using links facts(1) by (cases bs) (auto simp: links_def last_conv_nth numeral_2_eq_2)
  have "bs ! (length bs - 2) = 0 \<longleftrightarrow> length bs = 2 \<and> hd bs = 0" if "length bs \<noteq> 1"
  proof (cases "length bs = 2")
    case False
    then have "0 < length bs - 2" using that facts(1) by (cases bs; cases "tl bs") auto
    then have "bs ! 0 < bs ! (length bs - 2)"
      using facts(4) by (simp add: sorted_wrt_iff_nth_less)
    with False show ?thesis by simp
  qed (use facts(1) in \<open>simp add: hd_conv_nth\<close>)
  moreover have "bs ! (length bs - 2) < max_blocks" using facts(1,7) by simp
  ultimately show ?thesis unfolding last by (simp add: slot_at_eq_0_iff)
qed

lemma get_initial_pos_chain:
  assumes "chain (addr_slots w) bs es"
  shows "get_initial_pos w (entry_slot bs (length es - 1) 0) =
    Inr (entry_slot bs (if length bs = 2 \<and> hd bs = 0 then 7 else 0) 0)"
proof -
  have shape: "shape bs es" and links: "links (addr_slots w) bs" using assms by (simp_all add: chain_def)
  note facts = shape_facts [OF shape]
  let ?t = "last bs"
  define r where "r = 2 + 2 * ((length es - 1) mod 7)"
  have pos: "entry_slot bs (length es - 1) 0 = slot_at ?t r"
    using entry_slot_last [OF shape, of 0] by (simp add: r_def)
  have r: "r < 16" unfolding r_def using mod_less_divisor [of 7 "length es - 1"] by linarith
  have t: "?t < max_blocks" using facts(1,7) by (simp add: last_conv_nth)
  have "addr_slots w (slot_at ?t 1) = slot_at (hd bs) 0"
    using links facts(1) by (auto simp: links_def last_conv_nth hd_conv_nth)
  then have "get_initial_pos w (slot_at ?t r) =
      Inr (if length bs = 1 \<or> length bs = 2 \<and> hd bs = 0 then slot_at ?t 2 else slot_at (hd bs) 2)"
    using r t first_link_zero_iff [OF assms]
    by (simp add: get_initial_pos_def Let_def slot_simps not_le
        del: One_nat_def add_2_eq_Suc add_2_eq_Suc')
  then show ?thesis
    using facts(1) unfolding pos by (auto simp: entry_slot_def last_conv_nth hd_conv_nth)
qed

lemma get_next_pos_chain:
  assumes "chain (addr_slots w) bs es" "Suc j < length es"
  shows "get_next_pos w (entry_slot bs j 1) = Inr (entry_slot bs (Suc j) 0)"
proof -
  have shape: "shape bs es" and links: "links (addr_slots w) bs" using assms by (simp_all add: chain_def)
  note facts = shape_facts [OF shape]
  let ?i = "j div 7"
  have i: "?i < length bs" "bs ! ?i < max_blocks" using facts(6,7) assms(2) by simp_all
  show ?thesis
  proof (cases "j mod 7 = 6")
    case False
    then have m: "j mod 7 < 6" using mod_less_divisor [of 7 j] by linarith
    have nx: "Suc j div 7 = ?i" "Suc j mod 7 = Suc (j mod 7)"
      using m by (simp_all add: div_Suc mod_Suc)
    define b m where "b = bs ! ?i" and "m = 3 + 2 * (j mod 7)"
    have pos: "entry_slot bs j 1 = slot_at b m" "entry_slot bs (Suc j) 0 = slot_at b (m + 1)"
      unfolding entry_slot_def nx b_def m_def by (rule arg_cong [where f = "slot_at _"], simp)+
    have bm: "b < max_blocks" "m < 15" using m i(2) by (simp_all add: b_def m_def)
    then have "(of_nat m :: u32) < 15" by (simp add: word_less_nat_alt)
    then show ?thesis
      using bm unfolding pos by (simp add: get_next_pos_def slot_simps)
  next
    case True
    then have nx: "Suc j div 7 = Suc ?i" "Suc j mod 7 = 0"
      by (simp_all add: div_Suc mod_Suc)
    then have si: "Suc ?i < length bs" using facts(6) [OF assms(2)] by simp
    then have "bs ! ?i < bs ! Suc ?i" using facts(4) by (simp add: sorted_wrt_iff_nth_less)
    moreover have "addr_slots w (slot_at (bs ! ?i) 1) = slot_at (bs ! Suc ?i) 0"
      using links i(1) si by (auto simp: links_def)
    ultimately show ?thesis
      using True i facts(7) [OF si]
      by (simp add: get_next_pos_def entry_slot_def nx slot_simps del: One_nat_def)
  qed
qed

subsection \<open>One access keeps the invariant\<close>

lemma log_add_nonempty [simp]: "log_add c n es \<noteq> []"
  by (simp add: log_add_def)

lemma sum_list_log_add: "sum_list (map snd (log_add c n es)) = sum_list (map snd es) + n"
proof (cases "es \<noteq> [] \<and> fst (last es) = c")
  case True
  then obtain xs x where "es = xs @ [x]" by (metis append_butlast_last_id)
  then show ?thesis using True by (simp add: log_add_def algebra_simps)
qed (auto simp: log_add_def)

text \<open>The frame of a write: what the other offsets need to stay represented.\<close>

definition frame :: "nat set \<Rightarrow> u32 \<Rightarrow> MemCounter \<Rightarrow> MemCounter \<Rightarrow> bool" where
  "frame bs off w w' \<longleftrightarrow> free_slot w \<le> free_slot w' \<and> free_slot w' \<le> ADDR_SLOTS \<and>
    (\<forall>off'. off' \<noteq> off \<longrightarrow> addr_count_table w' off' = addr_count_table w off') \<and>
    (\<forall>b r. b < unat (free_slot w) \<longrightarrow> b \<notin> bs \<longrightarrow> r < 16 \<longrightarrow>
      addr_slots w' (slot_at b r) = addr_slots w (slot_at b r))"

lemma offset_ok_frame:
  assumes "offset_ok w off' bs' es'" and "frame bs off w w'" and "off' \<noteq> off" and "bs \<inter> set bs' = {}"
  shows "offset_ok w' off' bs' es'"
proof (cases "es' = []")
  case False
  then have ch: "chain (addr_slots w) bs' es'" and free: "\<forall>b\<in>set bs'. b < unat (free_slot w)"
    using assms(1) by (auto simp: offset_ok_def)
  have "chain (addr_slots w') bs' es'"
    by (rule chain_cong [OF ch]) (use assms(2,4) free in \<open>auto simp: frame_def\<close>)
  moreover have "\<forall>b\<in>set bs'. b < unat (free_slot w')"
    using free assms(2) by (auto simp: frame_def word_le_nat_alt)
  ultimately show ?thesis using assms(1-3) False by (simp add: offset_ok_def frame_def)
qed (use assms in \<open>simp add: offset_ok_def frame_def\<close>)

lemma rep_update:
  assumes "rep w B E" and "frame (set (B off)) off w w'" and "offset_ok w' off bs es"
    and "set bs \<subseteq> set (B off) \<union> {b. unat (free_slot w) \<le> b}"
    and "limits_ok w' (used (E(off := es)))" and "addr_count w' = int (card (used (E(off := es))))"
  shows "rep w' (B(off := bs)) (E(off := es))"
proof -
  have free: "b < unat (free_slot w)" if "b \<in> set (B off')" for b off'
  proof -
    have "offset_ok w off' (B off') (E off')" using assms(1) by (simp add: rep_def)
    with that show ?thesis by (auto simp: offset_ok_def split: if_splits)
  qed
  have disj: "set (B off') \<inter> set (B off'') = {}" if "off' \<noteq> off''" for off' off''
    using assms(1) that by (auto simp: rep_def)
  have "offset_ok w' off' ((B(off := bs)) off') ((E(off := es)) off')" for off'
    using assms(1-3) disj [of off off'] offset_ok_frame [of w off' "B off'" "E off'" "set (B off)" off w']
    by (cases "off' = off") (auto simp: rep_def)
  moreover have "set bs \<inter> set (B off') = {}" if "off' \<noteq> off" for off'
    using assms(4) disj [of off off'] free [of _ off'] that by fastforce
  ultimately show ?thesis
    using assms(2,5,6) disj by (auto simp: rep_def frame_def Int_commute)
qed

lemma limits_ok_cong:
  "first_offset w' = first_offset w \<Longrightarrow> last_offset w' = last_offset w \<Longrightarrow> limits_ok w' U \<longleftrightarrow> limits_ok w U"
  by (simp add: limits_ok_def)

text \<open>A new offset moves the limits of its page.\<close>

lemma limits_ok_new:
  assumes "limits_ok w U"
    and "first_offset w' = (first_offset w)(offset_to_page off := min (first_offset w (offset_to_page off)) off)"
    and "last_offset w' = (last_offset w)(offset_to_page off := max (last_offset w (offset_to_page off)) off)"
  shows "limits_ok w' (insert off U)"
proof (cases "\<exists>off'\<in>U. offset_to_page off' = offset_to_page off")
  case True
  then show ?thesis
    using assms unfolding limits_ok_def by (auto simp: min_def max_def split: if_splits)
next
  case False
  have "off \<le> 0xFFFFFFFF" by (simp add: word_le_nat_alt) (use unat_u32_bound [of off] in linarith)
  then have "first_offset w' = (first_offset w)(offset_to_page off := off)"
    "last_offset w' = (last_offset w)(offset_to_page off := off)"
    using False assms unfolding limits_ok_def by (simp_all add: min_def max_def)
  with False assms(1) show ?thesis unfolding limits_ok_def by (auto split: if_splits)
qed

subsection \<open>What \<open>count_aligned\<close> writes, case by case\<close>

definition with_cell :: "u32 \<Rightarrow> u32 \<Rightarrow> u32 \<Rightarrow> MemCounter \<Rightarrow> MemCounter" where
  "with_cell off pos n w = w\<lparr>addr_count_table := (addr_count_table w)(off := \<lparr>ac_pos = pos, ac_count = n\<rparr>)\<rparr>"

lemmas access_defs = table_read_def table_write_def limits_write_def get_next_slot_pos_def

lemma slot_at_offsets [slot_simps]:
  "slot_at b 0 + 1 = slot_at b 1" "slot_at b 0 + 2 = slot_at b 2" "slot_at b 0 + 3 = slot_at b 3"
  by (simp_all add: slot_at_def)

lemma free_block:
  assumes "free_slot w < ADDR_SLOTS"
  shows "free_slot w * 16 = slot_at (unat (free_slot w)) 0" and "unat (free_slot w) < max_blocks"
proof -
  show "unat (free_slot w) < max_blocks" using assms by (simp add: word_less_nat_alt)
  then show "free_slot w * 16 = slot_at (unat (free_slot w)) 0"
    using slot_at_scale [of "unat (free_slot w)"] by simp
qed

lemma table_page:
  assumes "off < ADDR_TABLE_SIZE"
  shows "drop_bit ADDR_PAGE_BITS off < MAX_PAGES"
proof -
  have "unat off div 1048576 < 20" using assms by (simp add: word_less_nat_alt less_mult_imp_div_less)
  then show ?thesis by (simp only: word_less_nat_alt unat_drop_bit_u32 config_values) simp
qed

lemma count_aligned_new:
  assumes "addr_to_offset a (current_chunk w) = Inr off" and "ac_pos (addr_count_table w off) = 0"
    and "free_slot w < ADDR_SLOTS"
  defines "b \<equiv> unat (free_slot w)" and "p \<equiv> offset_to_page off"
  shows "count_aligned a c n w = Inr (with_cell off (slot_at b 2) n w
    \<lparr>free_slot := free_slot w + 1, addr_count := addr_count w + 1,
     addr_slots := (addr_slots w)(slot_at b 0 := 0, slot_at b 1 := slot_at b 0,
       slot_at b 2 := c, slot_at b 3 := n),
     first_offset := (first_offset w)(p := min (first_offset w p) off),
     last_offset := (last_offset w)(p := max (last_offset w p) off)\<rparr>)"
proof -
  have off: "off < ADDR_TABLE_SIZE" by (rule addr_to_offset_bound [OF assms(1)])
  have b: "free_slot w * 16 = slot_at b 0" "b < max_blocks"
    using free_block [OF assms(3)] by (simp_all add: b_def)
  show ?thesis
    using off table_page [OF off] b assms(1-3)
    by (simp add: count_aligned_def access_defs slot_write_slot_at slot_at_offsets with_cell_def
        p_def offset_to_page_def del: One_nat_def)
qed

lemma count_aligned_full:
  assumes "addr_to_offset a (current_chunk w) = Inr off" and "ac_pos (addr_count_table w off) = 0"
    and "\<not> free_slot w < ADDR_SLOTS"
  shows "count_aligned a c n w = Inl (No_free_slots (counter_id w))"
  using addr_to_offset_bound [OF assms(1)] assms
  by (simp add: count_aligned_def access_defs not_less)

text \<open>The three cases of a used offset; \<open>b\<close> and \<open>r\<close> locate its last entry.\<close>

lemma count_aligned_same:
  assumes "addr_to_offset a (current_chunk w) = Inr off"
    and "addr_count_table w off = \<lparr>ac_pos = slot_at b r, ac_count = m\<rparr>"
    and "b < max_blocks" "0 < r" "r + 1 < 16" "addr_slots w (slot_at b r) = c"
  shows "count_aligned a c n w = Inr (with_cell off (slot_at b r) (m + n) w
    \<lparr>addr_slots := (addr_slots w)(slot_at b (r + 1) := addr_slots w (slot_at b (r + 1)) + n)\<rparr>)"
  using addr_to_offset_bound [OF assms(1)] assms
  by (simp add: count_aligned_def access_defs slot_read_slot_at slot_write_slot_at slot_at_plus
      slot_at_eq_0_iff with_cell_def)

lemma count_aligned_append:
  assumes "addr_to_offset a (current_chunk w) = Inr off"
    and "addr_count_table w off = \<lparr>ac_pos = slot_at b r, ac_count = m\<rparr>"
    and "b < max_blocks" "0 < r" "r < 14" "r + 3 < 16" "addr_slots w (slot_at b r) \<noteq> c"
  shows "count_aligned a c n w = Inr (with_cell off (slot_at b (r + 2)) (m + n) w
    \<lparr>addr_slots := (addr_slots w)(slot_at b (r + 2) := c, slot_at b (r + 3) := n)\<rparr>)"
proof -
  have "slot_at b r mod 16 \<noteq> 14"
    using assms(3,5) by (simp add: slot_at_relative word_unat_eq_iff)
  then show ?thesis
    using addr_to_offset_bound [OF assms(1)] assms
    by (simp add: count_aligned_def access_defs slot_read_slot_at slot_write_slot_at slot_at_plus
        slot_at_eq_0_iff with_cell_def del: add_2_eq_Suc add_2_eq_Suc')
qed

lemma count_aligned_extend:
  assumes "addr_to_offset a (current_chunk w) = Inr off"
    and "addr_count_table w off = \<lparr>ac_pos = slot_at t 14, ac_count = m\<rparr>"
    and "t < max_blocks" "addr_slots w (slot_at t 14) \<noteq> c" "free_slot w < ADDR_SLOTS"
  defines "b \<equiv> unat (free_slot w)"
  assumes "t \<noteq> b"
  shows "count_aligned a c n w = Inr (with_cell off (slot_at b 2) (m + n) w
    \<lparr>free_slot := free_slot w + 1,
     addr_slots := (addr_slots w)(slot_at b 0 := slot_at t 0, slot_at b 1 := addr_slots w (slot_at t 1),
       slot_at b 2 := c, slot_at b 3 := n, slot_at t 1 := slot_at b 0)\<rparr>)"
proof -
  have b: "free_slot w * 16 = slot_at b 0" "b < max_blocks"
    using free_block [OF assms(5)] by (simp_all add: b_def)
  have "slot_at t 14 mod 16 = 14"
    using assms(3) by (simp add: slot_at_relative)
  then show ?thesis
    using addr_to_offset_bound [OF assms(1)] b assms(1-5,7)
    by (simp add: count_aligned_def access_defs slot_read_slot_at slot_write_slot_at slot_at_offsets
        slot_at_back slot_at_eq_0_iff slot_at_eq_iff with_cell_def Let_def del: One_nat_def)
qed

lemma count_aligned_extend_full:
  assumes "addr_to_offset a (current_chunk w) = Inr off"
    and "addr_count_table w off = \<lparr>ac_pos = slot_at t 14, ac_count = m\<rparr>"
    and "t < max_blocks" "addr_slots w (slot_at t 14) \<noteq> c" "\<not> free_slot w < ADDR_SLOTS"
  shows "count_aligned a c n w = Inl (No_free_slots (counter_id w))"
proof -
  have "slot_at t 14 mod 16 = 14"
    using assms(3) by (simp add: slot_at_relative)
  then show ?thesis
    using addr_to_offset_bound [OF assms(1)] assms
    by (simp add: count_aligned_def access_defs slot_read_slot_at slot_at_eq_0_iff not_less)
qed

subsection \<open>One access implements \<open>log_add\<close>\<close>

definition new_blocks :: "MemCounter \<Rightarrow> u32 \<Rightarrow> (u32 \<times> u32) list \<Rightarrow> nat list" where
  "new_blocks w c es = (if needs_block c es then [unat (free_slot w)] else [])"

text \<open>The fields no access changes, and the slot counter.\<close>

definition same_counter :: "MemCounter \<Rightarrow> MemCounter \<Rightarrow> bool" where
  "same_counter w w' \<longleftrightarrow> counter_id w' = counter_id w \<and> addr_mask w' = addr_mask w \<and>
    current_chunk w' = current_chunk w \<and> tot_usleep w' = tot_usleep w \<and> queue_full w' = queue_full w"

lemma with_cell_simps [simp]:
  "addr_slots (with_cell off pos n w) = addr_slots w" "free_slot (with_cell off pos n w) = free_slot w"
  "first_offset (with_cell off pos n w) = first_offset w" "last_offset (with_cell off pos n w) = last_offset w"
  "addr_count (with_cell off pos n w) = addr_count w"
  "addr_count_table (with_cell off pos n w) = (addr_count_table w)(off := \<lparr>ac_pos = pos, ac_count = n\<rparr>)"
  "same_counter w0 (with_cell off pos n w) = same_counter w0 w"
  by (simp_all add: with_cell_def same_counter_def)

lemma rep_free_bound: "rep w B E \<Longrightarrow> b \<in> set (B off) \<Longrightarrow> b < unat (free_slot w)"
proof -
  assume "rep w B E" and b: "b \<in> set (B off)"
  then have "offset_ok w off (B off) (E off)" by (simp add: rep_def)
  with b show ?thesis by (auto simp: offset_ok_def split: if_splits)
qed

lemma rep_blocks: "rep w B E \<Longrightarrow> b < unat (free_slot w) \<Longrightarrow> b < max_blocks"
  by (auto simp: rep_def word_le_nat_alt)

lemma rep_chain:
  assumes "rep w B E" "E off \<noteq> []"
  shows "chain (addr_slots w) (B off) (E off)" and "off < ADDR_TABLE_SIZE"
    and "addr_count_table w off =
      \<lparr>ac_pos = entry_slot (B off) (length (E off) - 1) 0, ac_count = sum_list (map snd (E off))\<rparr>"
proof -
  have "offset_ok w off (B off) (E off)" using assms(1) by (simp add: rep_def)
  with assms(2) show "chain (addr_slots w) (B off) (E off)" "off < ADDR_TABLE_SIZE"
    "addr_count_table w off =
      \<lparr>ac_pos = entry_slot (B off) (length (E off) - 1) 0, ac_count = sum_list (map snd (E off))\<rparr>"
    by (simp_all add: offset_ok_def)
qed

lemma rep_empty:
  assumes "rep w B E" "E off = []"
  shows "B off = []" and "addr_count_table w off = \<lparr>ac_pos = 0, ac_count = 0\<rparr>"
proof -
  have "offset_ok w off (B off) (E off)" using assms(1) by (simp add: rep_def)
  with assms(2) show "B off = []" "addr_count_table w off = \<lparr>ac_pos = 0, ac_count = 0\<rparr>"
    by (simp_all add: offset_ok_def)
qed

lemma finite_used: "rep w B E \<Longrightarrow> finite (used E)"
  by simp

lemma step_new:
  assumes "rep w B E" "addr_to_offset a (current_chunk w) = Inr off" "E off = []"
    and "free_slot w < ADDR_SLOTS"
  shows "\<exists>w'. count_aligned a c n w = Inr w' \<and> same_counter w w' \<and> free_slot w' = free_slot w + 1 \<and>
    rep w' (B(off := [unat (free_slot w)])) (E(off := [(c, n)]))"
proof -
  let ?b = "unat (free_slot w)" and ?p = "offset_to_page off"
  note e = rep_empty [OF assms(1,3)]
  have b: "?b < max_blocks" using free_block(2) [OF assms(4)] .
  have succ: "unat (free_slot w + 1) = Suc ?b"
    using b unat_plus_u32 [of "free_slot w" 1] by simp
  have used: "used (E(off := [(c, n)])) = insert off (used E)" by auto
  define w' where "w' = with_cell off (slot_at ?b 2) n w
    \<lparr>free_slot := free_slot w + 1, addr_count := addr_count w + 1,
     addr_slots := (addr_slots w)(slot_at ?b 0 := 0, slot_at ?b 1 := slot_at ?b 0,
       slot_at ?b 2 := c, slot_at ?b 3 := n),
     first_offset := (first_offset w)(?p := min (first_offset w ?p) off),
     last_offset := (last_offset w)(?p := max (last_offset w ?p) off)\<rparr>"
  have "count_aligned a c n w = Inr w'"
    unfolding w'_def by (rule count_aligned_new) (use assms(2,4) e in simp_all)
  moreover have "rep w' (B(off := [?b])) (E(off := [(c, n)]))"
  proof (rule rep_update [OF assms(1)])
    show "frame (set (B off)) off w w'"
      using b succ by (auto simp: frame_def w'_def word_le_nat_alt slot_at_eq_iff)
    have "chain (addr_slots w') [?b] [(c, n)]"
      by (rule chain_new) (use b in \<open>simp_all add: w'_def slot_at_eq_iff\<close>)
    then show "offset_ok w' off [?b] [(c, n)]"
      using succ addr_to_offset_bound [OF assms(2)]
      by (simp add: offset_ok_def w'_def entry_slot_def)
    show "limits_ok w' (used (E(off := [(c, n)])))"
      unfolding used by (rule limits_ok_new) (use assms(1) in \<open>simp_all add: rep_def w'_def\<close>)
    show "addr_count w' = int (card (used (E(off := [(c, n)]))))"
      unfolding used using assms(1,3) by (simp add: rep_def w'_def)
  qed simp
  ultimately show ?thesis by (auto simp: w'_def same_counter_def with_cell_def)
qed

text \<open>A write inside a used offset: the page limits and the number of offsets stay.\<close>

lemma rep_update_used:
  assumes "rep w B E" and "E off \<noteq> []" and "es \<noteq> []"
    and "frame (set (B off)) off w w'"
    and "chain (addr_slots w') bs es" and "\<forall>b\<in>set bs. b < unat (free_slot w')"
    and "addr_count_table w' off =
      \<lparr>ac_pos = entry_slot bs (length es - 1) 0, ac_count = sum_list (map snd es)\<rparr>"
    and "set bs \<subseteq> set (B off) \<union> {b. unat (free_slot w) \<le> b}"
    and "first_offset w' = first_offset w" "last_offset w' = last_offset w" "addr_count w' = addr_count w"
  shows "rep w' (B(off := bs)) (E(off := es))"
proof (rule rep_update [OF assms(1,4)])
  have used: "used (E(off := es)) = used E" using assms(2,3) by auto
  show "offset_ok w' off bs es"
    using assms(3,5-7) rep_chain(2) [OF assms(1,2)] by (simp add: offset_ok_def)
  show "limits_ok w' (used (E(off := es)))"
    using assms(1) limits_ok_cong [OF assms(9,10)] unfolding used by (simp add: rep_def)
  show "addr_count w' = int (card (used (E(off := es))))"
    using assms(1,11) unfolding used by (simp add: rep_def)
qed (fact assms(8))

lemma last_entry:
  assumes "chain S bs es"
  obtains b r where "\<And>k. entry_slot bs (length es - 1) k = slot_at b (r + k)" "b = last bs" "b \<in> set bs"
    "b < max_blocks" "r = 2 + 2 * ((length es - 1) mod 7)" "0 < r" "r \<le> 14"
    "S (slot_at b r) = fst (last es)"
proof -
  have shape: "shape bs es" and entries: "entries S bs es" using assms by (simp_all add: chain_def)
  note facts = shape_facts [OF shape]
  define r where "r = 2 + 2 * ((length es - 1) mod 7)"
  have l: "length es - 1 < length es" using facts(2) by simp
  have pos: "entry_slot bs (length es - 1) k = slot_at (last bs) (r + k)" for k
    unfolding r_def by (rule entry_slot_last [OF shape])
  have "S (entry_slot bs (length es - 1) 0) = fst (es ! (length es - 1))"
    using entries l by (simp add: entries_def)
  then have "S (slot_at (last bs) r) = fst (last es)"
    using pos [of 0] facts(2) by (simp add: last_conv_nth)
  moreover have "r \<le> 14" "0 < r" unfolding r_def using mod_less_divisor [of 7 "length es - 1"] by linarith+
  moreover have "last bs < max_blocks" using facts(1,7) by (simp add: last_conv_nth)
  ultimately show ?thesis using that pos facts(1) r_def by simp
qed

lemma mod_7_cases:
  assumes "es \<noteq> []"
  shows "length es mod 7 = 0 \<longleftrightarrow> (length es - 1) mod 7 = 6"
    and "length es mod 7 \<noteq> 0 \<Longrightarrow> length es div 7 = (length es - 1) div 7"
    and "length es mod 7 \<noteq> 0 \<Longrightarrow> length es mod 7 = Suc ((length es - 1) mod 7)"
proof -
  obtain n where n: "length es = Suc n" using assms by (cases es) auto
  show "length es mod 7 = 0 \<longleftrightarrow> (length es - 1) mod 7 = 6"
    and "length es mod 7 \<noteq> 0 \<Longrightarrow> length es div 7 = (length es - 1) div 7"
    and "length es mod 7 \<noteq> 0 \<Longrightarrow> length es mod 7 = Suc ((length es - 1) mod 7)"
    unfolding n by (auto simp: mod_Suc div_Suc split: if_splits)
qed

lemma step_same:
  assumes "rep w B E" "addr_to_offset a (current_chunk w) = Inr off" "E off \<noteq> []" "fst (last (E off)) = c"
  shows "\<exists>w'. count_aligned a c n w = Inr w' \<and> same_counter w w' \<and> free_slot w' = free_slot w \<and>
    rep w' B (E(off := log_add c n (E off)))"
proof -
  let ?es = "E off" and ?bs = "B off"
  note used = rep_chain [OF assms(1,3)]
  obtain b r where pos: "\<And>k. entry_slot ?bs (length ?es - 1) k = slot_at b (r + k)" "b = last ?bs"
    and r: "r = 2 + 2 * ((length ?es - 1) mod 7)"
    and b: "b \<in> set ?bs" "b < max_blocks" "0 < r" "r \<le> 14" and slot: "addr_slots w (slot_at b r) = fst (last ?es)"
    using last_entry [OF used(1)] by metis
  define w' where "w' = with_cell off (slot_at b r) (sum_list (map snd ?es) + n) w
    \<lparr>addr_slots := (addr_slots w)(slot_at b (r + 1) := addr_slots w (slot_at b (r + 1)) + n)\<rparr>"
  have "count_aligned a c n w = Inr w'"
    unfolding w'_def
    by (rule count_aligned_same) (use assms(2,4) used(3) pos(1) [of 0] b slot in simp_all)
  moreover have "rep w' (B(off := ?bs)) (E(off := log_add c n ?es))"
  proof (rule rep_update_used [OF assms(1,3)])
    show "frame (set ?bs) off w w'"
      using assms(1) b rep_free_bound [OF assms(1) b(1)] rep_blocks [OF assms(1)]
      by (auto simp: frame_def w'_def rep_def slot_at_eq_iff)
    show "chain (addr_slots w') ?bs (log_add c n ?es)"
      using chain_add_last [OF used(1), of n] assms(3,4) pos(1) [of 1] by (simp add: log_add_def w'_def)
    have "length (log_add c n ?es) = length ?es" using assms(3,4) by (simp add: log_add_def)
    then show "addr_count_table w' off = \<lparr>ac_pos = entry_slot ?bs (length (log_add c n ?es) - 1) 0,
        ac_count = sum_list (map snd (log_add c n ?es))\<rparr>"
      using pos(1) [of 0] by (simp add: w'_def sum_list_log_add)
    show "\<forall>b\<in>set ?bs. b < unat (free_slot w')"
      using rep_free_bound [OF assms(1)] by (simp add: w'_def)
  qed (simp_all add: w'_def)
  ultimately show ?thesis by (auto simp: w'_def same_counter_def with_cell_def)
qed

lemma step_append:
  assumes "rep w B E" "addr_to_offset a (current_chunk w) = Inr off" "E off \<noteq> []" "fst (last (E off)) \<noteq> c"
    and "length (E off) mod 7 \<noteq> 0"
  shows "\<exists>w'. count_aligned a c n w = Inr w' \<and> same_counter w w' \<and> free_slot w' = free_slot w \<and>
    rep w' B (E(off := log_add c n (E off)))"
proof -
  let ?es = "E off" and ?bs = "B off"
  note used = rep_chain [OF assms(1,3)]
  obtain b r where pos: "\<And>k. entry_slot ?bs (length ?es - 1) k = slot_at b (r + k)" "b = last ?bs"
    and r: "r = 2 + 2 * ((length ?es - 1) mod 7)"
    and b: "b \<in> set ?bs" "b < max_blocks" "0 < r" "r \<le> 14" and slot: "addr_slots w (slot_at b r) = fst (last ?es)"
    using last_entry [OF used(1)] by metis
  note m = mod_7_cases [OF assms(3)]
  have r14: "r < 14" "r + 3 < 16" using m(1) assms(5) mod_less_divisor [of 7 "length ?es - 1"] unfolding r by linarith+
  have new: "entry_slot ?bs (length ?es) k = slot_at b (r + 2 + k)" for k
    using m(2,3) [OF assms(5)] shape_last [of ?bs ?es] used(1)
    by (simp add: entry_slot_def r pos(2) chain_def)
  define w' where "w' = with_cell off (slot_at b (r + 2)) (sum_list (map snd ?es) + n) w
    \<lparr>addr_slots := (addr_slots w)(slot_at b (r + 2) := c, slot_at b (r + 3) := n)\<rparr>"
  have "count_aligned a c n w = Inr w'"
    unfolding w'_def
    by (rule count_aligned_append) (use assms(2,4) used(3) pos(1) [of 0] b r14 slot in simp_all)
  moreover have "rep w' (B(off := ?bs)) (E(off := log_add c n ?es))"
  proof (rule rep_update_used [OF assms(1,3)])
    show "frame (set ?bs) off w w'"
      using assms(1) b r14 rep_free_bound [OF assms(1) b(1)] rep_blocks [OF assms(1)]
      by (auto simp: frame_def w'_def rep_def slot_at_eq_iff)
    show "chain (addr_slots w') ?bs (log_add c n ?es)"
      using chain_append [OF used(1) assms(5), of c n] assms(3,4) new [of 0] new [of 1]
      by (simp add: log_add_def w'_def numeral_3_eq_3)
    show "addr_count_table w' off = \<lparr>ac_pos = entry_slot ?bs (length (log_add c n ?es) - 1) 0,
        ac_count = sum_list (map snd (log_add c n ?es))\<rparr>"
      using new [of 0] assms(3,4) by (simp add: w'_def log_add_def)
    show "\<forall>b\<in>set ?bs. b < unat (free_slot w')"
      using rep_free_bound [OF assms(1)] by (simp add: w'_def)
  qed (simp_all add: w'_def)
  ultimately show ?thesis by (auto simp: w'_def same_counter_def with_cell_def)
qed

lemma step_extend:
  assumes "rep w B E" "addr_to_offset a (current_chunk w) = Inr off" "E off \<noteq> []" "fst (last (E off)) \<noteq> c"
    and "length (E off) mod 7 = 0" and "free_slot w < ADDR_SLOTS"
  shows "\<exists>w'. count_aligned a c n w = Inr w' \<and> same_counter w w' \<and> free_slot w' = free_slot w + 1 \<and>
    rep w' (B(off := B off @ [unat (free_slot w)])) (E(off := log_add c n (E off)))"
proof -
  let ?es = "E off" and ?bs = "B off" and ?b = "unat (free_slot w)"
  note used = rep_chain [OF assms(1,3)]
  obtain t r where pos: "\<And>k. entry_slot ?bs (length ?es - 1) k = slot_at t (r + k)" "t = last ?bs"
    and r: "r = 2 + 2 * ((length ?es - 1) mod 7)"
    and t: "t \<in> set ?bs" "t < max_blocks" and slot: "addr_slots w (slot_at t r) = fst (last ?es)"
    using last_entry [OF used(1)] by metis
  have r14: "r = 14" using mod_7_cases(1) [OF assms(3)] assms(5) by (simp add: r)
  have b: "?b < max_blocks" using free_block(2) [OF assms(6)] .
  have succ: "unat (free_slot w + 1) = Suc ?b" using b unat_plus_u32 [of "free_slot w" 1] by simp
  have free: "\<forall>b\<in>set ?bs. b < ?b" using rep_free_bound [OF assms(1)] by blast
  then have tb: "t < ?b" using t(1) by blast
  have log: "log_add c n ?es = ?es @ [(c, n)]" using assms(4) by (simp add: log_add_def)
  define w' where "w' = with_cell off (slot_at ?b 2) (sum_list (map snd ?es) + n) w
    \<lparr>free_slot := free_slot w + 1,
     addr_slots := (addr_slots w)(slot_at ?b 0 := slot_at t 0, slot_at ?b 1 := addr_slots w (slot_at t 1),
       slot_at ?b 2 := c, slot_at ?b 3 := n, slot_at t 1 := slot_at ?b 0)\<rparr>"
  have "count_aligned a c n w = Inr w'"
    unfolding w'_def
    by (rule count_aligned_extend) (use assms(2,4,6) used(3) pos(1) [of 0] t slot r14 tb in simp_all)
  moreover have "rep w' (B(off := ?bs @ [?b])) (E(off := log_add c n ?es))"
  proof (rule rep_update_used [OF assms(1,3)])
    show "frame (set ?bs) off w w'"
      using b succ t tb rep_blocks [OF assms(1)]
      by (auto simp: frame_def w'_def word_le_nat_alt slot_at_eq_iff)
    show "chain (addr_slots w') (?bs @ [?b]) (log_add c n ?es)"
      using chain_extend [OF used(1) assms(5) b free, of c n] pos(2) by (simp add: log w'_def)
    have "length ?es div 7 = length ?bs"
      using used(1) full_blocks [OF _ assms(5)] by (simp add: chain_def)
    then show "addr_count_table w' off = \<lparr>ac_pos = entry_slot (?bs @ [?b]) (length (log_add c n ?es) - 1) 0,
        ac_count = sum_list (map snd (log_add c n ?es))\<rparr>"
      using assms(5) by (simp add: w'_def log entry_slot_def nth_append)
    show "\<forall>b\<in>set (?bs @ [?b]). b < unat (free_slot w')"
      using free succ by (auto simp: w'_def)
  qed (simp_all add: w'_def)
  ultimately show ?thesis by (auto simp: w'_def same_counter_def with_cell_def)
qed

text \<open>
  The whole step: it throws exactly when it needs a block and none is free, and otherwise implements
  \<open>log_add\<close> on the entries of the offset and leaves every other offset as it was.
\<close>

lemma count_aligned_rep:
  assumes "rep w B E" and "addr_to_offset a (current_chunk w) = Inr off"
    and "needs_block c (E off) \<Longrightarrow> free_slot w < ADDR_SLOTS"
  shows "\<exists>w'. count_aligned a c n w = Inr w' \<and> same_counter w w' \<and>
    free_slot w' = free_slot w + (if needs_block c (E off) then 1 else 0) \<and>
    rep w' (B(off := B off @ new_blocks w c (E off))) (E(off := log_add c n (E off)))"
proof (cases "E off = []")
  case True
  then show ?thesis
    using step_new [OF assms(1,2) True] assms(3) rep_empty(1) [OF assms(1) True]
    by (simp add: needs_block_def new_blocks_def log_add_def)
next
  case False
  then show ?thesis
    using step_same [OF assms(1,2) False] step_append [OF assms(1,2) False] step_extend [OF assms(1,2) False] assms(3)
    by (cases "fst (last (E off)) = c"; cases "length (E off) mod 7 = 0")
      (simp_all add: needs_block_def new_blocks_def)
qed

lemma count_aligned_no_slots:
  assumes "rep w B E" and "addr_to_offset a (current_chunk w) = Inr off"
    and "needs_block c (E off)" and "\<not> free_slot w < ADDR_SLOTS"
  shows "count_aligned a c n w = Inl (No_free_slots (counter_id w))"
proof (cases "E off = []")
  case True
  then show ?thesis
    using count_aligned_full [OF assms(2) _ assms(4)] rep_empty(2) [OF assms(1) True] by simp
next
  case False
  note used = rep_chain [OF assms(1) False]
  obtain t r where pos: "\<And>k. entry_slot (B off) (length (E off) - 1) k = slot_at t (r + k)"
    and r: "r = 2 + 2 * ((length (E off) - 1) mod 7)" and t: "t < max_blocks"
    and slot: "addr_slots w (slot_at t r) = fst (last (E off))"
    using last_entry [OF used(1)] by metis
  have "r = 14" using mod_7_cases(1) [OF False] assms(3) by (simp add: r needs_block_def)
  then show ?thesis
    using used(3) pos [of 0] t slot assms(3) False
    by (intro count_aligned_extend_full [OF assms(2) _ t _ assms(4)]) (auto simp: needs_block_def)
qed

lemma rep_new: "rep (mem_counter_new slots0 chunk0 thread) (\<lambda>_. []) (\<lambda>_. [])"
  by (simp add: rep_def mem_counter_new_def offset_ok_def limits_ok_def)

subsection \<open>Properties\<close>

text \<open>
  C6: The complete behaviour of \<open>count_aligned\<close> on a well-formed counter. An address outside the windows is
  refused; an access that needs a new block when none is left throws; every other access returns a well-formed counter
  in which the entries of its offset are \<open>log_add\<close> of the old ones (the count added to the last entry if that
  has the same chunk, a new entry otherwise) and all other offsets are unchanged.
\<close>

theorem count_aligned_refines_log:
  assumes "rep w B E"
  shows "case addr_to_offset a (current_chunk w) of
      Inl e \<Rightarrow> count_aligned a c n w = Inl e
    | Inr off \<Rightarrow>
        if needs_block c (E off) \<and> ADDR_SLOTS \<le> free_slot w
        then count_aligned a c n w = Inl (No_free_slots (counter_id w))
        else \<exists>w' bs. count_aligned a c n w = Inr w' \<and> same_counter w w' \<and>
          free_slot w' = free_slot w + of_nat (length bs) \<and>
          rep w' (B(off := B off @ bs)) (E(off := log_add c n (E off)))"
proof (cases "addr_to_offset a (current_chunk w)")
  case (Inl e)
  then show ?thesis by (simp add: count_aligned_def)
next
  case (Inr off)
  show ?thesis
  proof (cases "needs_block c (E off) \<and> ADDR_SLOTS \<le> free_slot w")
    case True
    then show ?thesis using count_aligned_no_slots [OF assms Inr, of c n] Inr by (simp add: not_less)
  next
    case False
    then obtain w' where "count_aligned a c n w = Inr w'" "same_counter w w'"
      "free_slot w' = free_slot w + (if needs_block c (E off) then 1 else 0)"
      "rep w' (B(off := B off @ new_blocks w c (E off))) (E(off := log_add c n (E off)))"
      using count_aligned_rep [OF assms Inr, of c n] by (auto simp: not_le)
    then have "\<exists>w' bs. count_aligned a c n w = Inr w' \<and> same_counter w w' \<and>
        free_slot w' = free_slot w + of_nat (length bs) \<and>
        rep w' (B(off := B off @ bs)) (E(off := log_add c n (E off)))"
      by (intro exI [of _ w'] exI [of _ "new_blocks w c (E off)"]) (simp add: new_blocks_def)
    then show ?thesis unfolding Inr using False by (simp only: sum.case if_False)
  qed
qed

theorem count_aligned_refines_log_witness:
  "\<exists>w' bs. count_aligned 0xA0000000 5 2 (mem_counter_new (\<lambda>_. 7) 0 0) = Inr w' \<and>
    rep w' ((\<lambda>_. [])(0x400000 := bs)) ((\<lambda>_. [])(0x400000 := [(5, 2)]))"
proof -
  have "addr_to_offset 0xA0000000 (current_chunk (mem_counter_new (\<lambda>_. 7) 0 0)) = Inr 0x400000"
    by (simp add: addr_to_offset_eq window_page_def)
  moreover have "\<not> ADDR_SLOTS \<le> free_slot (mem_counter_new (\<lambda>_. 7) 0 0)"
    by (simp add: mem_counter_new_def)
  ultimately show ?thesis
    using count_aligned_refines_log [OF rep_new [of "\<lambda>_. 7" 0 0], of "0xA0000000" 5 2]
    by (auto simp: log_add_def simp del: config_values)
qed

text \<open>
  What a well-formed counter reports: the count table holds the sum of the counts of an offset, the address table
  is zero exactly for the offsets without entries, and \<open>get_count\<close> is the number of offsets with entries.
\<close>

theorem counter_reports:
  assumes "rep w B E" "off < ADDR_TABLE_SIZE"
  shows "get_count_table w off = Inr (sum_list (map snd (E off))) \<and>
    (get_addr_table w off = Inr 0 \<longleftrightarrow> E off = []) \<and> get_count w = of_nat (card {off. E off \<noteq> []})"
proof (cases "E off = []")
  case True
  then show ?thesis
    using assms rep_empty [OF assms(1) True]
    by (auto simp: get_count_table_def get_addr_table_def table_read_def get_count_def rep_def)
next
  case False
  note used = rep_chain [OF assms(1) False]
  have "entry_slot (B off) (length (E off) - 1) 0 \<noteq> 0"
    using used(1) False by (intro entry_slot_nonzero) (auto simp: chain_def)
  moreover have "addr_count_table w off = \<lparr>ac_pos = entry_slot (B off) (length (E off) - 1) 0,
      ac_count = sum_list (map snd (E off))\<rparr>"
    using assms(1) False by (auto simp: rep_def offset_ok_def split: if_splits)
  ultimately show ?thesis
    using assms False by (auto simp: get_count_table_def get_addr_table_def table_read_def get_count_def rep_def)
qed

theorem counter_reports_witness:
  "get_count_table (mem_counter_new (\<lambda>_. 7) 0 3) 12 = Inr 0 \<and>
   get_addr_table (mem_counter_new (\<lambda>_. 7) 0 3) 12 = Inr 0 \<and> get_count (mem_counter_new (\<lambda>_. 7) 0 3) = 0"
  using counter_reports [OF rep_new [of "\<lambda>_. 7" 0 3], of 12] by simp

end
