(* ===== verification/Chain_Walk.thy ===== *)
theory Chain_Walk
  imports Mem_Counter
begin

text \<open>
  The loop every planner runs over the entries of one offset, \<open>walk\<close>, and the interface it relies on: the locale
  \<open>chain_reader\<close> says what the four read operations of a counter promise. Inside it the loop is proved to
  return and to visit the entries in order; the interpretation discharges the laws for \<open>MemCounter\<close>. The entries
  a reader sees are \<open>visible\<close>: all of them, except that a two-block chain whose first block is block 0
  loses its first seven, because \<open>get_initial_pos\<close> takes the back link 0 for the end of the chain.
\<close>

subsection \<open>The loop\<close>

text \<open>
  \<open>while (cpos != 0) { body; if (cpos == pos) break; cpos = get_next_pos(cpos + 1); }\<close>; the body may end the
  loop and its caller (its flag, the \<open>return\<close> of \<open>execute_from_locator\<close>). Without \<open>guarded\<close> it is
  the \<open>while (true)\<close> of \<open>generate_locators\<close>.
\<close>

partial_function (option) walk ::
  "bool \<Rightarrow> (u32 \<Rightarrow> u32 res) \<Rightarrow> (u32 \<Rightarrow> 's \<Rightarrow> ('s \<times> bool) run) \<Rightarrow> u32 \<Rightarrow> u32 \<Rightarrow> 's \<Rightarrow> ('s \<times> bool) run" where
  "walk guarded nxt body pos cpos s =
    (if guarded \<and> cpos = 0 then Some (Inr (s, False))
     else case body cpos s of
       None \<Rightarrow> None
     | Some (Inl e) \<Rightarrow> Some (Inl e)
     | Some (Inr (s', stop)) \<Rightarrow>
         if stop then Some (Inr (s', True))
         else if cpos = pos then Some (Inr (s', False))
         else (case nxt (cpos + 1) of
             Inl e \<Rightarrow> Some (Inl e)
           | Inr n \<Rightarrow> walk guarded nxt body pos n s'))"

text \<open>The first two statements of every body: the chunk id and the count at \<open>cpos\<close>.\<close>

definition read_entry :: "(u32 \<Rightarrow> u32 res) \<Rightarrow> (u32 \<Rightarrow> u32 \<Rightarrow> u32 \<Rightarrow> 's \<Rightarrow> 'r run) \<Rightarrow> u32 \<Rightarrow> 's \<Rightarrow> 'r run" where
  "read_entry val f cpos s =
    (case val cpos of
       Inl e \<Rightarrow> Some (Inl e)
     | Inr chunk_id \<Rightarrow>
         (case val (cpos + 1) of
            Inl e \<Rightarrow> Some (Inl e)
          | Inr count \<Rightarrow> f cpos chunk_id count s))"

text \<open>The same loop over a list of positions with their entries.\<close>

definition run_entries :: "(u32 \<Rightarrow> u32 \<Rightarrow> u32 \<Rightarrow> 's \<Rightarrow> ('s \<times> bool) run) \<Rightarrow> (u32 \<times> u32 \<times> u32) list \<Rightarrow> 's \<Rightarrow>
    ('s \<times> bool) run" where
  "run_entries f es s = foldS (\<lambda>(p, c, n). f p c n) es s"

lemma run_entries_simps [simp]:
  "run_entries f [] s = Some (Inr (s, False))"
  "run_entries f ((p, c, n) # es) s =
    (case f p c n s of
       None \<Rightarrow> None
     | Some (Inl e) \<Rightarrow> Some (Inl e)
     | Some (Inr (s', stop)) \<Rightarrow> if stop then Some (Inr (s', True)) else run_entries f es s')"
  by (simp_all add: run_entries_def split: option.split sum.split)

subsection \<open>The interface\<close>

locale chain_reader =
  fixes table initial nxt val :: "'w \<Rightarrow> u32 \<Rightarrow> u32 res"
    and invar :: "'w \<Rightarrow> (u32 \<Rightarrow> u32 list) \<Rightarrow> (u32 \<Rightarrow> (u32 \<times> u32) list) \<Rightarrow> bool"
  assumes table_empty: "invar w P V \<Longrightarrow> off < ADDR_TABLE_SIZE \<Longrightarrow> V off = [] \<Longrightarrow> table w off = Inr 0"
    and table_last: "invar w P V \<Longrightarrow> V off \<noteq> [] \<Longrightarrow> table w off = Inr (last (P off))"
    and positions: "invar w P V \<Longrightarrow> length (P off) = length (V off) \<and> distinct (P off) \<and> 0 \<notin> set (P off)"
    and initial_first: "invar w P V \<Longrightarrow> V off \<noteq> [] \<Longrightarrow> initial w (last (P off)) = Inr (hd (P off))"
    and next_step: "invar w P V \<Longrightarrow> Suc j < length (V off) \<Longrightarrow> nxt w (P off ! j + 1) = Inr (P off ! Suc j)"
    and value_chunk: "invar w P V \<Longrightarrow> j < length (V off) \<Longrightarrow> val w (P off ! j) = Inr (fst (V off ! j))"
    and value_count: "invar w P V \<Longrightarrow> j < length (V off) \<Longrightarrow> val w (P off ! j + 1) = Inr (snd (V off ! j))"
begin

lemma table_nonzero: "invar w P V \<Longrightarrow> V off \<noteq> [] \<Longrightarrow> last (P off) \<noteq> 0"
  using positions [of w P V off] by (metis last_in_set length_0_conv)

text \<open>From any entry of an offset on, the loop returns and runs the body on the remaining entries in order.\<close>

lemma walk_from:
  assumes "invar w P V" and "i < length (V off)"
  shows "walk guarded (nxt w) (read_entry (val w) f) (last (P off)) (P off ! i) s =
    run_entries f (drop i (zip (P off) (V off))) s"
  using assms(2)
proof (induction "length (V off) - i" arbitrary: i s)
  case 0
  then show ?case by simp
next
  case (Suc d)
  note pos = positions [OF assms(1), of off]
  obtain c n where cn: "V off ! i = (c, n)" by fastforce
  let ?p = "P off ! i"
  have entry: "drop i (zip (P off) (V off)) = (?p, c, n) # drop (Suc i) (zip (P off) (V off))"
    using Suc.prems pos cn by (simp flip: Cons_nth_drop_Suc)
  have p0: "?p \<noteq> 0" using Suc.prems pos by (metis nth_mem)
  have body: "read_entry (val w) f ?p s = f ?p c n s"
    using value_chunk [OF assms(1) Suc.prems] value_count [OF assms(1) Suc.prems] cn
    by (simp add: read_entry_def)
  have last: "?p = last (P off) \<longleftrightarrow> Suc i = length (V off)"
  proof -
    have "last (P off) = P off ! (length (V off) - 1)"
      using Suc.prems pos by (metis last_conv_nth length_0_conv not_less_zero)
    then show ?thesis
      using nth_eq_iff_index_eq [of "P off" i "length (V off) - 1"] Suc.prems pos by auto
  qed
  have rest: "walk guarded (nxt w) (read_entry (val w) f) (last (P off)) (P off ! Suc i) s' =
      run_entries f (drop (Suc i) (zip (P off) (V off))) s'" if "Suc i \<noteq> length (V off)" for s'
    using Suc.hyps Suc.prems that by (intro Suc.hyps(1)) simp_all
  show ?case
  proof (cases "Suc i = length (V off)")
    case True
    then have lp: "last (P off) = ?p" and nil: "drop (Suc i) (zip (P off) (V off)) = []"
      using last pos by simp_all
    show ?thesis
      unfolding entry lp nil using p0
      by (subst walk.simps) (simp add: body split: option.split sum.split prod.split)
  next
    case False
    then have "nxt w (?p + 1) = Inr (P off ! Suc i)"
      using Suc.prems next_step [OF assms(1), of i off] by simp
    moreover have "?p \<noteq> last (P off)" using last False by simp
    ultimately show ?thesis
      unfolding entry using p0 rest [OF False]
      by (subst walk.simps) (simp add: body split: option.split sum.split prod.split)
  qed
qed

text \<open>The whole loop of an offset, as the planners start it.\<close>

lemma walk_all:
  assumes "invar w P V" and "V off \<noteq> []"
  shows "\<exists>cpos. initial w (last (P off)) = Inr cpos \<and>
    walk guarded (nxt w) (read_entry (val w) f) (last (P off)) cpos s = run_entries f (zip (P off) (V off)) s"
proof -
  have "hd (P off) = P off ! 0"
    using positions [OF assms(1), of off] assms(2) by (metis hd_conv_nth length_0_conv)
  then show ?thesis
    using initial_first [OF assms] walk_from [OF assms(1), of 0 off guarded f s] assms(2) by simp
qed

end

subsection \<open>What a reader sees of a counter\<close>

definition hidden :: "nat list \<Rightarrow> nat" where
  "hidden bs = (if length bs = 2 \<and> hd bs = 0 then 7 else 0)"

definition visible :: "nat list \<Rightarrow> 'a list \<Rightarrow> 'a list" where
  "visible bs es = drop (hidden bs) es"

definition positions_of :: "nat list \<Rightarrow> 'a list \<Rightarrow> u32 list" where
  "positions_of bs es = map (\<lambda>j. entry_slot bs j 0) [hidden bs..<length es]"

definition reads_as :: "MemCounter \<Rightarrow> (u32 \<Rightarrow> u32 list) \<Rightarrow> (u32 \<Rightarrow> (u32 \<times> u32) list) \<Rightarrow> bool" where
  "reads_as w P V \<longleftrightarrow> (\<exists>B E. rep w B E \<and>
    P = (\<lambda>off. positions_of (B off) (E off)) \<and> V = (\<lambda>off. visible (B off) (E off)))"

lemma hidden_less: "shape bs es \<Longrightarrow> hidden bs < length es"
  using shape_facts(2,5) [of bs es] by (auto simp: hidden_def)

lemma visible_nonempty: "shape bs es \<Longrightarrow> visible bs es \<noteq> []"
  using hidden_less [of bs es] by (simp add: visible_def)

lemma last_positions: "shape bs es \<Longrightarrow> last (positions_of bs es) = entry_slot bs (length es - 1) 0"
  using hidden_less [of bs es] shape_facts(2) [of bs es] by (simp add: positions_of_def last_map upt_eq_Nil_conv)

lemma hd_positions: "shape bs es \<Longrightarrow> hd (positions_of bs es) = entry_slot bs (hidden bs) 0"
  using hidden_less [of bs es] shape_facts(2) [of bs es] by (simp add: positions_of_def hd_map upt_eq_Nil_conv hd_upt)

interpretation counter_reader: chain_reader get_addr_table get_initial_pos get_next_pos get_pos_value reads_as
proof unfold_locales
  fix w P V off
  assume "reads_as w P V"
  then obtain B E where rep: "rep w B E" and P: "P = (\<lambda>off. positions_of (B off) (E off))"
    and V: "V = (\<lambda>off. visible (B off) (E off))" by (auto simp: reads_as_def)
  have cases: "(E off = [] \<and> B off = []) \<or> (chain (addr_slots w) (B off) (E off) \<and> shape (B off) (E off))"
    using rep_empty [OF rep] rep_chain [OF rep] by (auto simp: chain_def)
  have used: "chain (addr_slots w) (B off) (E off)" "shape (B off) (E off)" "E off \<noteq> []" if "V off \<noteq> []"
    using cases that shape_facts(2) by (auto simp: V visible_def)
  have nth: "P off ! j = entry_slot (B off) (hidden (B off) + j) 0" "V off ! j = E off ! (hidden (B off) + j)"
    "hidden (B off) + j < length (E off)" if "j < length (V off)" for j
    using that by (simp_all add: P V positions_of_def visible_def)
  show "length (P off) = length (V off) \<and> distinct (P off) \<and> 0 \<notin> set (P off)"
    using cases entry_slot_eq_iff [of "B off" "E off" _ _ 0 0] entry_slot_nonzero [of "B off" "E off"]
    by (auto simp: P V positions_of_def visible_def distinct_map inj_on_def)
  show "get_addr_table w off = Inr 0" if "off < ADDR_TABLE_SIZE" "V off = []"
  proof -
    have "E off = []" using cases that(2) visible_nonempty [of "B off" "E off"] by (auto simp: V)
    then show ?thesis
      using that(1) rep_empty [OF rep] by (simp add: get_addr_table_def table_read_def)
  qed
  show "get_addr_table w off = Inr (last (P off))" if "V off \<noteq> []"
    using used [OF that] rep_chain [OF rep]
    by (simp add: get_addr_table_def table_read_def P last_positions)
  show "get_initial_pos w (last (P off)) = Inr (hd (P off))" if "V off \<noteq> []"
    using used [OF that] get_initial_pos_chain
    by (simp add: P hidden_def last_positions hd_positions)
  fix j
  show "get_next_pos w (P off ! j + 1) = Inr (P off ! Suc j)" if "Suc j < length (V off)"
    using nth [of j] nth [of "Suc j"] that used get_next_pos_chain
    by (simp add: entry_slot_1 del: One_nat_def) (metis length_0_conv not_less_zero)
  show "get_pos_value w (P off ! j) = Inr (fst (V off ! j))" "get_pos_value w (P off ! j + 1) = Inr (snd (V off ! j))"
    if "j < length (V off)"
    using nth [OF that] that used get_pos_value_entry
    by (simp_all add: entry_slot_1 del: One_nat_def) (metis length_0_conv not_less_zero)+
qed

subsection \<open>Properties\<close>

text \<open>
  C11: The loop of every planner over the entries of an offset returns, and runs its body once for each entry the
  counter shows, in order, from the position \<open>get_initial_pos\<close> finds for the position in the address table to
  that position itself.
\<close>

theorem chain_walk_visits_entries:
  assumes "reads_as w P V" "V off \<noteq> []"
  shows "\<exists>pos cpos. get_addr_table w off = Inr pos \<and> pos \<noteq> 0 \<and> get_initial_pos w pos = Inr cpos \<and>
    walk guarded (get_next_pos w) (read_entry (get_pos_value w) f) pos cpos s =
      foldS (\<lambda>(p, c, n). f p c n) (zip (P off) (V off)) s"
  using counter_reader.table_last [OF assms] counter_reader.table_nonzero [OF assms]
    counter_reader.walk_all [OF assms, of guarded f s]
  by (auto simp: run_entries_def)

lemma reads_one_entry:
  obtains w P V where "reads_as w P V" "V 0x400000 = [(5, 2)]"
proof -
  let ?w = "mem_counter_new (\<lambda>_. 7) 0 0"
  have "addr_to_offset 0xA0000000 (current_chunk ?w) = Inr 0x400000"
    by (simp add: addr_to_offset_eq window_page_def)
  then obtain w' B E where rep: "rep w' B E" and E: "E 0x400000 = [(5, 2)]"
    using count_aligned_rep [OF rep_new [of "\<lambda>_. 7" 0 0], of "0xA0000000" "0x400000" 5 2]
    by (force simp: log_add_def mem_counter_new_def)
  then have "hidden (B 0x400000) = 0"
    using rep_chain(1) [OF rep, of "0x400000"] hidden_less [of "B 0x400000" "E 0x400000"] by (simp add: chain_def)
  then show ?thesis
    using rep E by (intro that [of w' "\<lambda>off. positions_of (B off) (E off)" "\<lambda>off. visible (B off) (E off)"])
      (auto simp: reads_as_def visible_def)
qed

theorem chain_walk_visits_entries_witness:
  "\<exists>w pos cpos. get_addr_table w 0x400000 = Inr pos \<and> pos \<noteq> 0 \<and> get_initial_pos w pos = Inr cpos \<and>
    walk True (get_next_pos w) (read_entry (get_pos_value w) (\<lambda>p c n s. Some (Inr (s @ [(c, n)], False)))) pos cpos []
      = Some (Inr ([(5, 2)], False))"
proof -
  obtain w P V where r: "reads_as w P V" and V: "V 0x400000 = [(5, 2)]" by (rule reads_one_entry)
  have "length (P 0x400000) = 1" using counter_reader.positions [OF r, of "0x400000"] V by simp
  then obtain p where P: "P 0x400000 = [p]" by (auto simp: length_Suc_conv)
  have "V 0x400000 \<noteq> []" by (simp add: V)
  from chain_walk_visits_entries [OF r this, of True "\<lambda>p c n s. Some (Inr (s @ [(c, n)], False))" "[]"]
  obtain pos cpos where "get_addr_table w 0x400000 = Inr pos" "pos \<noteq> 0" "get_initial_pos w pos = Inr cpos"
    "walk True (get_next_pos w) (read_entry (get_pos_value w) (\<lambda>p c n s. Some (Inr (s @ [(c, n)], False)))) pos cpos []
      = foldS (\<lambda>(p, c, n) s. Some (Inr (s @ [(c, n)], False))) (zip (P 0x400000) (V 0x400000)) []"
    by auto
  then show ?thesis by (intro exI [of _ w] exI [of _ pos] exI [of _ cpos]) (simp add: P V)
qed

end
