(* ===== verification/Mem_Context.thy ===== *)
theory Mem_Context
  imports Mem_Config
begin

text \<open>
  \<open>MemContext\<close> of \<open>mem_context.hpp\<close>: the array of chunks the emulator publishes and the counters read. The first
  part is the sequential behaviour of its operations and the \<open>while ((chunk = get_chunk(chunk_id)) != nullptr)\<close>
  loop that \<open>MemCounter::execute\<close> and \<open>MemAlignCounter::execute\<close> share, under the interface
  \<open>chunk_source\<close>. The second part is the concurrent protocol: the producer and one reader as a step relation with
  one step per atomic access.
\<close>

subsection \<open>Operations\<close>

record MemContext =
  chunks :: "u32 \<Rightarrow> MemChunk"
  chunks_count :: u32
  chunks_completed :: bool

definition context_new :: "(u32 \<Rightarrow> MemChunk) \<Rightarrow> MemContext" where
  "context_new chunks0 = \<lparr>chunks = chunks0, chunks_count = 0, chunks_completed = False\<rparr>"

definition context_clear :: "MemContext \<Rightarrow> MemContext" where
  "context_clear ctx = ctx\<lparr>chunks_count := 0, chunks_completed := False\<rparr>"

text \<open>\<open>add_chunk\<close> writes without a check: past \<open>MAX_CHUNKS\<close> it leaves the array.\<close>

definition add_chunk :: "MemChunk \<Rightarrow> MemContext \<Rightarrow> MemContext res" where
  "add_chunk data ctx =
    (let chunk_id = chunks_count ctx in
     if chunk_id < MAX_CHUNKS
     then Inr (ctx\<lparr>chunks := (chunks ctx)(chunk_id := data), chunks_count := chunk_id + 1\<rparr>)
     else Inl Out_of_bounds)"

definition context_set_completed :: "MemContext \<Rightarrow> MemContext" where
  "context_set_completed ctx = ctx\<lparr>chunks_completed := True\<rparr>"

definition context_size :: "MemContext \<Rightarrow> u32" where
  "context_size ctx = chunks_count ctx"

text \<open>
  \<open>get_chunk\<close> on a context nobody changes: it spins for ever (\<open>None\<close>) on a chunk that is not there and
  not excluded, returns \<open>nullptr\<close> (an inner \<open>None\<close>) after completion, and otherwise the chunk.
\<close>

definition get_chunk :: "MemContext \<Rightarrow> u32 \<Rightarrow> MemChunk option run" where
  "get_chunk ctx chunk_id =
    (if chunk_id \<ge> chunks_count ctx
     then (if chunks_completed ctx then Some (Inr None) else None)
     else if chunk_id < MAX_CHUNKS then Some (Inr (Some (chunks ctx chunk_id))) else Some (Inl Out_of_bounds))"

subsection \<open>The readers' loop\<close>

partial_function (option) chunk_loop ::
  "(u32 \<Rightarrow> MemChunk option run) \<Rightarrow> (u32 \<Rightarrow> MemChunk \<Rightarrow> 's \<Rightarrow> 's res) \<Rightarrow> u32 \<Rightarrow> 's \<Rightarrow> 's run" where
  "chunk_loop fetch body chunk_id s =
    (case fetch chunk_id of
       None \<Rightarrow> None
     | Some (Inl e) \<Rightarrow> Some (Inl e)
     | Some (Inr None) \<Rightarrow> Some (Inr s)
     | Some (Inr (Some data)) \<Rightarrow>
         (case body chunk_id data s of
            Inl e \<Rightarrow> Some (Inl e)
          | Inr s' \<Rightarrow> chunk_loop fetch body (chunk_id + 1) s'))"

text \<open>The chunks with their ids, as the loop passes them to its body.\<close>

definition numbered :: "'a list \<Rightarrow> (u32 \<times> 'a) list" where
  "numbered chs = zip (map of_nat [0..<length chs]) chs"

lemma numbered_Nil [simp]: "numbered [] = []"
  by (simp add: numbered_def)

lemma numbered_snoc: "numbered (chs @ [d]) = numbered chs @ [(of_nat (length chs), d)]"
  by (simp add: numbered_def)

lemma numbered_bound: "(k, d) \<in> set (numbered chs) \<Longrightarrow> \<exists>i<length chs. k = of_nat i \<and> d = chs ! i"
  by (auto simp: numbered_def in_set_zip)

locale chunk_source =
  fixes fetch :: "'c \<Rightarrow> u32 \<Rightarrow> MemChunk option run" and holds :: "'c \<Rightarrow> MemChunk list \<Rightarrow> bool"
  assumes fetch_chunk: "holds c chs \<Longrightarrow> i < length chs \<Longrightarrow> fetch c (of_nat i) = Some (Inr (Some (chs ! i)))"
    and fetch_end: "holds c chs \<Longrightarrow> fetch c (of_nat (length chs)) = Some (Inr None)"
begin

lemma chunk_loop_from:
  assumes "holds c chs" and "i \<le> length chs"
  shows "chunk_loop (fetch c) body (of_nat i) s = Some (foldE (\<lambda>(k, d). body k d) (drop i (numbered chs)) s)"
  using assms(2)
proof (induction "length chs - i" arbitrary: i s)
  case 0
  then have "i = length chs" by simp
  then show ?case
    using fetch_end [OF assms(1)] by (subst chunk_loop.simps) (simp add: numbered_def)
next
  case (Suc d)
  then have i: "i < length chs" by linarith
  have num: "drop i (numbered chs) = (of_nat i, chs ! i) # drop (Suc i) (numbered chs)"
    using i by (simp add: numbered_def flip: Cons_nth_drop_Suc)
  have rest: "chunk_loop (fetch c) body (of_nat (Suc i)) s' =
      Some (foldE (\<lambda>(k, d). body k d) (drop (Suc i) (numbered chs)) s')" for s'
    using Suc i by (intro Suc.hyps(1)) simp_all
  show ?case
    using fetch_chunk [OF assms(1) i] rest unfolding num
    by (subst chunk_loop.simps) (simp add: add.commute split: sum.split)
qed

text \<open>On a completed source the loop returns: it is the loop over the published chunks.\<close>

lemma chunk_loop_all:
  "holds c chs \<Longrightarrow> chunk_loop (fetch c) body 0 s = Some (foldE (\<lambda>(k, d). body k d) (numbered chs) s)"
  using chunk_loop_from [of c chs 0 body s] by simp

end

definition context_holds :: "MemContext \<Rightarrow> MemChunk list \<Rightarrow> bool" where
  "context_holds ctx chs \<longleftrightarrow> length chs \<le> 8192 \<and> chunks_count ctx = of_nat (length chs) \<and>
    (\<forall>i<length chs. chunks ctx (of_nat i) = chs ! i)"

lemma context_holds_new: "context_holds (context_new c0) []"
  by (simp add: context_holds_def context_new_def)

lemma context_holds_add:
  assumes "context_holds ctx chs" "length chs < 8192"
  shows "\<exists>ctx'. add_chunk d ctx = Inr ctx' \<and> context_holds ctx' (chs @ [d]) \<and>
    chunks_completed ctx' = chunks_completed ctx"
proof -
  have "(of_nat i :: u32) = of_nat (length chs) \<longleftrightarrow> i = length chs" if "i \<le> length chs" for i
    using assms(2) that by (intro of_nat_u32_eq_iff) simp_all
  moreover have "(of_nat (length chs) :: u32) < MAX_CHUNKS"
    using assms(2) unfolding word_less_nat_alt by simp
  ultimately show ?thesis
    using assms by (auto simp: context_holds_def add_chunk_def Let_def nth_append less_Suc_eq add.commute
        simp del: config_values)
qed

interpretation context_source: chunk_source get_chunk "\<lambda>ctx chs. context_holds ctx chs \<and> chunks_completed ctx"
proof unfold_locales
  fix ctx chs i
  assume "context_holds ctx chs \<and> chunks_completed ctx"
  then have holds: "context_holds ctx chs" and fin: "chunks_completed ctx" by simp_all
  show "get_chunk ctx (of_nat (length chs)) = Some (Inr None)"
    using holds fin by (simp add: get_chunk_def context_holds_def)
  assume "i < length chs"
  then show "get_chunk ctx (of_nat i) = Some (Inr (Some (chs ! i)))"
    using holds by (auto simp: get_chunk_def context_holds_def word_less_nat_alt word_le_nat_alt)
qed

subsection \<open>Properties\<close>

text \<open>
  C21: Publishing and reading back. \<open>add_chunk\<close> appends a chunk while there is room in the array and leaves the array
  otherwise; on a completed context the loop of \<open>get_chunk\<close> that every counter runs returns, and runs its body once
  for each chunk, in order, with the chunk's id.
\<close>

theorem chunks_published_and_read:
  assumes "context_holds ctx chs"
  shows "(case add_chunk d ctx of
      Inr ctx' \<Rightarrow> length chs < 8192 \<and> context_holds ctx' (chs @ [d]) \<and> chunks_completed ctx' = chunks_completed ctx
    | Inl e \<Rightarrow> length chs = 8192 \<and> e = Out_of_bounds) \<and>
    chunk_loop (get_chunk (context_set_completed ctx)) body 0 s = Some (foldE (\<lambda>(k, d). body k d) (numbered chs) s)"
proof
  show "case add_chunk d ctx of
      Inr ctx' \<Rightarrow> length chs < 8192 \<and> context_holds ctx' (chs @ [d]) \<and> chunks_completed ctx' = chunks_completed ctx
    | Inl e \<Rightarrow> length chs = 8192 \<and> e = Out_of_bounds"
  proof (cases "length chs < 8192")
    case True
    then show ?thesis using context_holds_add [OF assms, of d] by auto
  next
    case False
    then have "length chs = 8192" "\<not> chunks_count ctx < MAX_CHUNKS"
      using assms by (auto simp: context_holds_def word_less_nat_alt)
    then show ?thesis by (simp add: add_chunk_def Let_def)
  qed
  show "chunk_loop (get_chunk (context_set_completed ctx)) body 0 s = Some (foldE (\<lambda>(k, d). body k d) (numbered chs) s)"
    by (rule context_source.chunk_loop_all) (use assms in \<open>simp add: context_holds_def context_set_completed_def\<close>)
qed

theorem chunks_published_and_read_witness:
  "chunk_loop (get_chunk (context_set_completed (context_new (\<lambda>_. [])))) (\<lambda>k d n. Inr (n + length d)) 0 5 =
    Some (Inr 5)"
  using chunks_published_and_read [OF context_holds_new [of "\<lambda>_. []"], of "[]" "\<lambda>k d n. Inr (n + length d)" 5]
  by simp

end
