(* ===== verification/Mem_Count.thy ===== *)
theory Mem_Count
  imports Chain_Walk Mem_Context "HOL-Library.Multiset"
begin

text \<open>
  \<open>MemCounter::execute_chunk\<close> and \<open>MemCounter::execute\<close>: which bus operations a thread counts, and what a sequence
  of accesses leaves in its tables. \<open>accesses\<close> is the specification of a bus operation (the aligned addresses it
  touches, with the operations each costs); a thread counts the accesses of its lane. A counter that holds a log holds it
  in exactly the blocks it takes (\<open>holds_log\<close>); a whole run is in \<open>Count_Run\<close>.
\<close>

unbundle bit_operations_syntax

subsection \<open>The loops\<close>

definition op_bytes :: "MemCountersBusData \<Rightarrow> u8" where
  "op_bytes d = ucast (bus_flags d AND 0xFF)"

definition count_op :: "u32 \<Rightarrow> MemCountersBusData \<Rightarrow> MemCounter \<Rightarrow> MemCounter res" where
  "count_op chunk_id d w =
    (let bytes = op_bytes d; a = bus_addr d in
     if bytes = 8 \<and> a AND 7 = 0 then
       if a AND ADDR_MASK \<noteq> addr_mask w then Inr w
       else count_aligned a chunk_id 1 w
     else
       let aligned_addr = a AND 0xFFFFFFF8 in
       if aligned_addr AND ADDR_MASK = addr_mask w then
         count_aligned aligned_addr chunk_id (1 + drop_bit 16 (bus_flags d)) w
       else if ucast bytes + (a AND 7) > 8 \<and> (aligned_addr + 8) AND ADDR_MASK = addr_mask w then
         count_aligned (aligned_addr + 8) chunk_id (1 + drop_bit 16 (bus_flags d)) w
       else Inr w)"

definition execute_chunk :: "u32 \<Rightarrow> MemChunk \<Rightarrow> MemCounter \<Rightarrow> MemCounter res" where
  "execute_chunk chunk_id data w = foldE (count_op chunk_id) data (w\<lparr>current_chunk := chunk_id\<rparr>)"

definition execute :: "MemContext \<Rightarrow> MemCounter \<Rightarrow> MemCounter run" where
  "execute ctx w = chunk_loop (get_chunk ctx) execute_chunk 0 w"

subsection \<open>The accesses of a bus operation\<close>

definition crosses :: "MemCountersBusData \<Rightarrow> bool" where
  "crosses d \<longleftrightarrow> ucast (op_bytes d) + (bus_addr d AND 7) > 8"

definition accesses :: "MemCountersBusData \<Rightarrow> (u32 \<times> u32) list" where
  "accesses d =
    (let a = bus_addr d AND 0xFFFFFFF8; ops = 1 + drop_bit 16 (bus_flags d) in
     if op_bytes d = 8 \<and> bus_addr d AND 7 = 0 then [(bus_addr d, 1)]
     else if crosses d then [(a, ops), (a + 8, ops)] else [(a, ops)])"

definition lane_accesses :: "u32 \<Rightarrow> MemChunk \<Rightarrow> (u32 \<times> u32) list" where
  "lane_accesses i data = filter (\<lambda>(a, n). lane a = i) (concat (map accesses data))"

text \<open>The mask test of the code picks the lane.\<close>

lemma masked_lane: "a AND 56 = lane a * 8"
proof -
  have "lane a * 8 = push_bit 3 (lane a)" by (simp add: push_bit_eq_mult)
  also have "\<dots> = (a AND 56) AND NOT (mask 3)"
    unfolding lane_def config_values by (rule bit_word_eqI) (auto simp: bit_simps)
  also have "\<dots> = a AND 56" by (simp add: mask_eq_exp_minus_1 and.assoc)
  finally show ?thesis by simp
qed

lemma lane_eq_iff:
  assumes "i < MAX_THREADS"
  shows "a AND 56 = i * 8 \<longleftrightarrow> lane a = i"
proof -
  have "unat (x * 8) = unat x * 8" if "x < MAX_THREADS" for x :: u32
    using that by (simp add: word_less_nat_alt unat_word_ariths)
  then show ?thesis
    using lane_bound [of a] assms unfolding masked_lane by (auto simp: word_unat_eq_iff)
qed

lemma aligned_and_7: "(a AND 0xFFFFFFF8) AND 7 = (0 :: u32)"
  by (simp add: and.assoc)

lemma unat_lane_plus_8: "unat (lane (a + 8)) = (unat a + 8) mod 64 div 8"
proof -
  have "unat (a + 8) mod 64 = (unat a + 8) mod 4294967296 mod 64"
    by (simp add: unat_word_ariths)
  also have "\<dots> = (unat a + 8) mod 64" by (rule mod_mod_cancel) simp
  finally show ?thesis by (simp add: unat_lane)
qed

text \<open>The two halves of a crossing operation belong to different lanes, so a thread counts at most one.\<close>

lemma lane_plus_8: "lane (a + 8) \<noteq> lane a"
proof
  assume "lane (a + 8) = lane a"
  then have "(unat a + 8) mod 64 div 8 = unat a mod 64 div 8"
    using unat_lane_plus_8 [of a] unat_lane [of a] by simp
  moreover have "(unat a + 8) mod 64 = (unat a mod 64 + 8) mod 64" by (simp add: mod_add_left_eq)
  ultimately have "(m + 8) mod 64 div 8 = m div 8" if "m = unat a mod 64" for m using that by simp
  moreover have "(m + 8) mod 64 div 8 \<noteq> m div 8" if "m < 64" for m :: nat
  proof (cases "m + 8 < 64")
    case False
    then have "(m + 8) mod 64 = m - 56" using that by (simp add: mod_if)
    then show ?thesis using False by simp
  qed simp
  ultimately show False by (meson mod_less_divisor zero_less_numeral)
qed

lemma count_op_accesses:
  assumes "addr_mask w = i * 8" "i < MAX_THREADS"
  shows "count_op c d w = foldE (\<lambda>(a, n). count_aligned a c n) (filter (\<lambda>(a, n). lane a = i) (accesses d)) w"
proof -
  have "\<not> (lane (bus_addr d AND 0xFFFFFFF8) = i \<and> lane ((bus_addr d AND 0xFFFFFFF8) + 8) = i)"
    using lane_plus_8 [of "bus_addr d AND 0xFFFFFFF8"] by auto
  then show ?thesis
    using assms by (auto simp: count_op_def accesses_def crosses_def Let_def lane_eq_iff)
qed

subsection \<open>What a sequence of accesses leaves behind\<close>

text \<open>
  \<open>line a\<close> is the offset of an address, \<open>line_counts xs off\<close> the counts the accesses \<open>xs\<close> add to one
  offset, and \<open>log_all c xs E\<close> their effect on the entries when they belong to chunk \<open>c\<close>.
\<close>

definition line :: "u32 \<Rightarrow> u32 option" where
  "line a = (case addr_to_offset a 0 of Inl e \<Rightarrow> None | Inr off \<Rightarrow> Some off)"

lemma line_eq_Some: "line a = Some off \<longleftrightarrow> addr_to_offset a c = Inr off"
  by (auto simp: line_def addr_to_offset_eq split: option.splits)

definition line_counts :: "(u32 \<times> u32) list \<Rightarrow> u32 \<Rightarrow> u32 list" where
  "line_counts xs off = map snd (filter (\<lambda>(a, n). line a = Some off) xs)"

definition log_all :: "u32 \<Rightarrow> (u32 \<times> u32) list \<Rightarrow> (u32 \<Rightarrow> (u32 \<times> u32) list) \<Rightarrow> u32 \<Rightarrow> (u32 \<times> u32) list" where
  "log_all c xs E off =
    (if line_counts xs off = [] then E off else log_add c (sum_list (line_counts xs off)) (E off))"

lemma log_add_twice: "log_add c n (log_add c m es) = log_add c (m + n) es"
proof (cases "es \<noteq> [] \<and> fst (last es) = c")
  case True
  then obtain xs x where "es = xs @ [x]" by (metis append_butlast_last_id)
  then show ?thesis using True by (simp add: log_add_def algebra_simps)
qed (auto simp: log_add_def)

lemma log_all_Cons:
  assumes "line a = Some off"
  shows "log_all c ((a, n) # xs) E = log_all c xs (E(off := log_add c n (E off)))"
  using assms by (auto simp: log_all_def line_counts_def fun_eq_iff log_add_twice)

lemma line_counts_Cons_None: "line a = None \<Longrightarrow> log_all c ((a, n) # xs) E = log_all c xs E"
  by (simp add: log_all_def line_counts_def fun_eq_iff)

lemma log_all_append: "log_all c (xs @ ys) E = log_all c ys (log_all c xs E)"
proof (induction xs arbitrary: E)
  case Nil
  have "log_all c [] E = E" by (simp add: log_all_def line_counts_def fun_eq_iff)
  then show ?case by simp
next
  case (Cons x xs)
  obtain a n where x: "x = (a, n)" by fastforce
  show ?case
    by (cases "line a") (simp_all add: x line_counts_Cons_None log_all_Cons Cons del: fun_upd_apply)
qed

text \<open>The blocks entries take: seven entries to a block, no block shared.\<close>

definition blocks :: "(u32 \<Rightarrow> 'a list) \<Rightarrow> nat" where
  "blocks E = (\<Sum>off\<in>UNIV. (length (E off) + 6) div 7)"

lemma blocks_mono: "(\<And>off. length (E off) \<le> length (E' off)) \<Longrightarrow> blocks E \<le> blocks E'"
  unfolding blocks_def by (intro sum_mono div_le_mono add_le_mono1)

lemma blocks_empty [simp]: "blocks (\<lambda>_. []) = 0"
  by (simp add: blocks_def)

lemma blocks_log_add: "blocks (E(off := log_add c n (E off))) = blocks E + (if needs_block c (E off) then 1 else 0)"
proof -
  let ?b = "\<lambda>es :: (u32 \<times> u32) list. (length es + 6) div 7"
  have b: "?b (log_add c n (E off)) = ?b (E off) + (if needs_block c (E off) then 1 else 0)"
  proof (cases "E off \<noteq> [] \<and> fst (last (E off)) = c")
    case False
    have "(m + 7) div 7 = (m + 6) div 7 + (if m mod 7 = 0 then 1 else 0)" for m :: nat by presburger
    from this [of "length (E off)"] show ?thesis using False by (auto simp: log_add_def needs_block_def)
  qed (auto simp: log_add_def needs_block_def)
  have rest: "(\<Sum>o'\<in>UNIV - {off}. ?b ((E(off := log_add c n (E off))) o')) = (\<Sum>o'\<in>UNIV - {off}. ?b (E o'))"
    by (intro sum.cong) auto
  have fin: "finite (UNIV :: u32 set)" by simp
  show ?thesis
    unfolding blocks_def sum.remove [OF fin UNIV_I [of off]] rest by (simp add: b)
qed

lemma blocks_log_all: "blocks E \<le> blocks (log_all c xs E)"
  by (rule blocks_mono) (simp add: log_all_def log_add_def)

text \<open>
  \<open>holds_log w z E\<close>: counter \<open>w\<close> holds the entries \<open>E\<close> in exactly the blocks they take, and \<open>z\<close> is the offset
  that owns block 0, the first one it ever counted.
\<close>

definition holds_log :: "MemCounter \<Rightarrow> u32 option \<Rightarrow> (u32 \<Rightarrow> (u32 \<times> u32) list) \<Rightarrow> bool" where
  "holds_log w z E \<longleftrightarrow> unat (free_slot w) = blocks E \<and> (\<exists>B. rep w B E \<and>
    (\<forall>off. B off \<noteq> [] \<and> hd (B off) = 0 \<longrightarrow> z = Some off) \<and> (z = None \<longrightarrow> free_slot w = 0) \<and>
    (\<forall>off. z = Some off \<longrightarrow> B off \<noteq> [] \<and> hd (B off) = 0 \<and> free_slot w \<noteq> 0))"

lemma holds_logI:
  assumes "rep w B E" and "unat (free_slot w) = blocks E" and "\<And>off. B off \<noteq> [] \<and> hd (B off) = 0 \<Longrightarrow> z = Some off"
    and "z = None \<Longrightarrow> free_slot w = 0"
    and "\<And>off. z = Some off \<Longrightarrow> B off \<noteq> [] \<and> hd (B off) = 0 \<and> free_slot w \<noteq> 0"
  shows "holds_log w z E"
  using assms unfolding holds_log_def by blast

lemma holds_log_blocks: "holds_log w z E \<Longrightarrow> unat (free_slot w) = blocks E"
  by (simp add: holds_log_def)

lemma same_counter_trans: "same_counter w w1 \<Longrightarrow> same_counter w1 w' \<Longrightarrow> same_counter w w'"
  by (simp add: same_counter_def)

text \<open>What a run of a thread leaves of its counter.\<close>

definition same_thread :: "MemCounter \<Rightarrow> MemCounter \<Rightarrow> bool" where
  "same_thread w w' \<longleftrightarrow> counter_id w' = counter_id w \<and> addr_mask w' = addr_mask w \<and> tot_usleep w' = tot_usleep w \<and>
    queue_full w' = queue_full w"

lemma same_threadD: "same_thread w w' \<Longrightarrow> addr_mask w' = addr_mask w" "same_thread w w' \<Longrightarrow> counter_id w' = counter_id w"
  by (simp_all add: same_thread_def)

lemma holds_log_new: "holds_log (mem_counter_new slots0 chunk0 thread) None (\<lambda>_. [])"
  unfolding holds_log_def using rep_new by (auto simp: mem_counter_new_def)

definition first_owner :: "u32 option \<Rightarrow> u32 \<Rightarrow> u32 option" where
  "first_owner z off = (case z of None \<Rightarrow> Some off | Some o' \<Rightarrow> Some o')"

lemma holds_log_step:
  assumes "holds_log w z E" and "addr_to_offset a (current_chunk w) = Inr off"
    and "needs_block c (E off) \<Longrightarrow> free_slot w < ADDR_SLOTS"
  shows "\<exists>w'. count_aligned a c n w = Inr w' \<and> same_counter w w' \<and>
    holds_log w' (first_owner z off) (E(off := log_add c n (E off)))"
proof -
  obtain B where rep: "rep w B E" and owner: "\<And>off. B off \<noteq> [] \<and> hd (B off) = 0 \<Longrightarrow> z = Some off"
    and none: "z = None \<Longrightarrow> free_slot w = 0"
    and some: "\<And>off. z = Some off \<Longrightarrow> B off \<noteq> [] \<and> hd (B off) = 0 \<and> free_slot w \<noteq> 0"
    using assms(1) unfolding holds_log_def by blast
  obtain w' where w': "count_aligned a c n w = Inr w'" "same_counter w w'"
    and free: "free_slot w' = free_slot w + (if needs_block c (E off) then 1 else 0)"
    and rep': "rep w' (B(off := B off @ new_blocks w c (E off))) (E(off := log_add c n (E off)))"
    using count_aligned_rep [OF rep assms(2,3)] by blast
  have empty: "needs_block c (E off) \<and> B off' = []" if "z = None" for off'
  proof -
    have "B o' = []" for o'
      using none [OF that] rep_free_bound [OF rep, of _ o'] by (cases "B o'") auto
    moreover from this have "E off = []" using rep_chain [OF rep, of off] shape_facts(1) by (auto simp: chain_def)
    ultimately show ?thesis by (simp add: needs_block_def)
  qed
  have used: "unat (free_slot w') = blocks (E(off := log_add c n (E off)))"
    using assms(3) holds_log_blocks [OF assms(1)] unat_plus_u32 [of "free_slot w" 1]
    unfolding free blocks_log_add by (auto simp: word_less_nat_alt)
  have pos: "free_slot w' \<noteq> 0" if "needs_block c (E off) \<or> free_slot w \<noteq> 0"
  proof -
    have "unat (free_slot w') \<noteq> 0"
      using that unfolding used blocks_log_add holds_log_blocks [OF assms(1), symmetric] by (auto simp: unat_eq_0)
    then show ?thesis by auto
  qed
  let ?B = "B(off := B off @ new_blocks w c (E off))"
  have B1: "first_owner z off = Some off'" if "?B off' \<noteq> [] \<and> hd (?B off') = 0" for off'
  proof (cases z)
    case None
    then have "off' = off" using that empty [OF None, of off'] by (auto split: if_splits)
    with None show ?thesis by (simp add: first_owner_def)
  next
    case (Some o')
    have "B off' \<noteq> [] \<and> hd (B off') = 0"
      using that some [OF Some]
      by (cases "off' = off"; cases "B off") (auto simp: new_blocks_def unat_eq_0 split: if_splits)
    from owner [OF this] show ?thesis by (simp add: first_owner_def)
  qed
  have B2: "?B off' \<noteq> [] \<and> hd (?B off') = 0 \<and> free_slot w' \<noteq> 0" if "first_owner z off = Some off'" for off'
  proof (cases z)
    case None
    then show ?thesis using that empty [OF None, of off] none [OF None] pos
      by (simp add: first_owner_def new_blocks_def)
  next
    case (Some o')
    then show ?thesis using that some [OF Some] pos
      by (cases "off' = off") (auto simp: first_owner_def hd_append)
  qed
  have "first_owner z off \<noteq> None" by (simp add: first_owner_def split: option.split)
  then have "holds_log w' (first_owner z off) (E(off := log_add c n (E off)))"
    by (intro holds_logI [OF rep' used B1 _ B2]) simp_all
  with w' show ?thesis by blast
qed

text \<open>The first mapped line of a sequence of accesses, unless \<open>z\<close> already names one.\<close>

fun first_line :: "u32 option \<Rightarrow> (u32 \<times> u32) list \<Rightarrow> u32 option" where
  "first_line z [] = z"
| "first_line z ((a, n) # xs) = first_line (if z = None then line a else z) xs"

lemma first_line_Cons: "line a = Some off \<Longrightarrow> first_line z ((a, n) # xs) = first_line (first_owner z off) xs"
  by (cases z) (simp_all add: first_owner_def)

lemma first_line_append: "first_line z (xs @ ys) = first_line (first_line z xs) ys"
  by (induction z xs rule: first_line.induct) simp_all

text \<open>A run of accesses that returns has the effect \<open>log_all\<close>.\<close>

lemma count_all_log:
  assumes "holds_log w z E" and "foldE (\<lambda>(a, n). count_aligned a c n) xs w = Inr w'"
  shows "holds_log w' (first_line z xs) (log_all c xs E) \<and> same_counter w w'"
  using assms
proof (induction xs arbitrary: w z E)
  case Nil
  then show ?case
    by (simp add: log_all_def line_counts_def same_counter_def)
next
  case (Cons x xs)
  obtain a n where x: "x = (a, n)" by fastforce
  from Cons.prems(2) obtain w1 where w1: "count_aligned a c n w = Inr w1"
    and rest: "foldE (\<lambda>(a, n). count_aligned a c n) xs w1 = Inr w'" by (auto simp: x)
  from w1 obtain off where off: "addr_to_offset a (current_chunk w) = Inr off"
    by (auto simp: count_aligned_def)
  then have line: "line a = Some off" by (rule line_eq_Some [THEN iffD2])
  obtain B where rep: "rep w B E" using Cons.prems(1) by (auto simp: holds_log_def)
  have free: "needs_block c (E off) \<Longrightarrow> free_slot w < ADDR_SLOTS"
    using count_aligned_no_slots [OF rep off, of c n] w1 by auto
  from holds_log_step [OF Cons.prems(1) off, of c n] free w1
  have step: "holds_log w1 (first_owner z off) (E(off := log_add c n (E off)))" and same: "same_counter w w1"
    by auto
  from Cons.IH [OF step rest] same show ?case
    unfolding x log_all_Cons [OF line] first_line_Cons [OF line] by (blast intro: same_counter_trans)
qed

text \<open>It returns if every address has a page and there are blocks for what it leaves.\<close>

lemma count_all_total:
  assumes "holds_log w z E" and "\<forall>(a, n)\<in>set xs. line a \<noteq> None" and "blocks (log_all c xs E) \<le> 4194304"
  shows "\<exists>w'. foldE (\<lambda>(a, n). count_aligned a c n) xs w = Inr w'"
  using assms
proof (induction xs arbitrary: w z E)
  case (Cons x xs)
  obtain a n off where x: "x = (a, n)" and line: "line a = Some off"
    using Cons.prems(2) by (cases x) auto
  let ?E = "E(off := log_add c n (E off))"
  have rest: "blocks (log_all c xs ?E) \<le> 4194304" using Cons.prems(3) by (simp add: x log_all_Cons [OF line])
  then have "blocks ?E \<le> 4194304" using blocks_log_all [of ?E c xs] by simp
  then have "needs_block c (E off) \<Longrightarrow> free_slot w < ADDR_SLOTS"
    using holds_log_blocks [OF Cons.prems(1)] by (simp add: blocks_log_add word_less_nat_alt)
  with holds_log_step [OF Cons.prems(1) line [unfolded line_eq_Some [of a off "current_chunk w"]], of c n]
  obtain w1 where w1: "count_aligned a c n w = Inr w1" "holds_log w1 (first_owner z off) ?E" by blast
  from Cons.IH [OF w1(2) _ rest] Cons.prems(2) w1(1) show ?case by (auto simp: x)
qed simp

subsection \<open>Chunks\<close>

lemma holds_log_current: "holds_log (w\<lparr>current_chunk := c\<rparr>) z E \<longleftrightarrow> holds_log w z E"
  by (simp add: holds_log_def rep_def offset_ok_def limits_ok_def)

lemma fold_count_op:
  assumes "addr_mask w = i * 8" "i < MAX_THREADS" "holds_log w z E"
  shows "foldE (count_op c) data w = foldE (\<lambda>(a, n). count_aligned a c n) (lane_accesses i data) w"
  using assms(1,3)
proof (induction data arbitrary: w z E)
  case (Cons d data)
  let ?xs = "filter (\<lambda>(a, n). lane a = i) (accesses d)"
  have split: "lane_accesses i (d # data) = ?xs @ lane_accesses i data" by (simp add: lane_accesses_def)
  have d: "count_op c d w = foldE (\<lambda>(a, n). count_aligned a c n) ?xs w"
    by (rule count_op_accesses [OF Cons.prems(1) assms(2)])
  show ?case
  proof (cases "count_op c d w")
    case (Inr w1)
    from count_all_log [OF Cons.prems(2) Inr [unfolded d]] Cons.prems(1)
    have "addr_mask w1 = i * 8" "holds_log w1 (first_line z ?xs) (log_all c ?xs E)"
      by (auto simp: same_counter_def)
    from Cons.IH [OF this] Inr show ?thesis by (simp add: split foldE_append flip: d)
  qed (simp add: split foldE_append flip: d)
qed (simp add: lane_accesses_def)

lemma execute_chunk_eq:
  assumes "addr_mask w = i * 8" "i < MAX_THREADS" "holds_log w z E"
  shows "execute_chunk c data w =
    foldE (\<lambda>(a, n). count_aligned a c n) (lane_accesses i data) (w\<lparr>current_chunk := c\<rparr>)"
  unfolding execute_chunk_def
  by (rule fold_count_op) (use assms in \<open>simp_all add: holds_log_current\<close>)

subsection \<open>The lanes of a chunk\<close>

lemma mset_filter_parts:
  assumes "distinct is" "\<forall>x\<in>set xs. f x \<in> set is"
  shows "mset (concat (map (\<lambda>i. filter (\<lambda>x. f x = i) xs) is)) = mset xs"
  using assms(2)
proof (induction xs)
  case Nil
  show ?case by (induction "is") simp_all
next
  case (Cons x xs)
  have "mset (concat (map (\<lambda>i. filter (\<lambda>x. f x = i) (x # xs)) js)) =
      mset (concat (map (\<lambda>i. filter (\<lambda>x. f x = i) xs) js)) + (if f x \<in> set js then {#x#} else {#})"
    if "distinct js" for js
    using that by (induction js) auto
  then show ?case using Cons assms(1) by simp
qed

lemma lanes_partition:
  "mset (concat (map (\<lambda>i. lane_accesses i data) (words 0 8))) = mset (concat (map accesses data))"
proof -
  have "distinct (words 0 8)" by (rule distinct_words) simp
  moreover have "words 0 8 = 0 # words 1 8" by (simp add: words_Cons)
  then have "\<forall>x\<in>set (concat (map accesses data)). (\<lambda>(a, n). lane a) x \<in> set (words 0 8)"
    using lane_bound lanes_words by auto
  ultimately show ?thesis
    using mset_filter_parts [of "words 0 8" "concat (map accesses data)" "\<lambda>(a, n). lane a"]
    by (simp add: lane_accesses_def case_prod_unfold)
qed

subsection \<open>Errors\<close>

lemma foldE_error:
  assumes "foldE f xs s = Inl e"
  shows "\<exists>ys x zs s'. xs = ys @ x # zs \<and> foldE f ys s = Inr s' \<and> f x s' = Inl e"
  using assms
proof (induction xs arbitrary: s)
  case (Cons x xs)
  show ?case
  proof (cases "f x s")
    case (Inl e')
    then show ?thesis using Cons.prems by (intro exI [of _ "[]"]) auto
  next
    case (Inr s1)
    then obtain ys y zs s' where "xs = ys @ y # zs" "foldE f ys s1 = Inr s'" "f y s' = Inl e"
      using Cons.IH [of s1] Cons.prems by auto
    then show ?thesis using Inr by (intro exI [of _ "x # ys"]) simp
  qed
qed simp

lemma count_all_error:
  assumes "holds_log w z E" "foldE (\<lambda>(a, n). count_aligned a c n) xs w = Inl e"
  shows "(\<exists>(a, n)\<in>set xs. line a = None \<and> e = Bad_addr_offset a (current_chunk w)) \<or>
    e = No_free_slots (counter_id w) \<and> 4194304 < blocks (log_all c xs E)"
proof -
  from foldE_error [OF assms(2)] obtain ys a n zs w1 where split: "xs = ys @ (a, n) # zs"
    and before: "foldE (\<lambda>(a, n). count_aligned a c n) ys w = Inr w1" and err: "count_aligned a c n w1 = Inl e"
    by auto
  let ?E = "log_all c ys E"
  from count_all_log [OF assms(1) before] have log: "holds_log w1 (first_line z ys) ?E" and same: "same_counter w w1" by auto
  show ?thesis
  proof (cases "addr_to_offset a (current_chunk w1)")
    case (Inl e')
    then have "e' = Bad_addr_offset a (current_chunk w1)" "line a = None"
      by (auto simp: addr_to_offset_eq line_def split: option.splits)
    moreover have "e = e'" using err Inl by (simp add: count_aligned_def)
    ultimately show ?thesis using same split by (auto simp: same_counter_def)
  next
    case (Inr off)
    obtain B where rep: "rep w1 B ?E" using log by (auto simp: holds_log_def)
    have full: "needs_block c (?E off) \<and> \<not> free_slot w1 < ADDR_SLOTS"
      using holds_log_step [OF log Inr, of c n] err by fastforce
    have line: "line a = Some off" using Inr by (rule line_eq_Some [THEN iffD2])
    have "blocks (?E(off := log_add c n (?E off))) \<le> blocks (log_all c xs E)"
      using blocks_log_all unfolding split log_all_append log_all_Cons [OF line] .
    then have "4194304 < blocks (log_all c xs E)"
      using full holds_log_blocks [OF log] by (simp add: blocks_log_add word_less_nat_alt)
    moreover have "e = No_free_slots (counter_id w1)"
      using count_aligned_no_slots [OF rep Inr] full err by simp
    ultimately show ?thesis using same by (simp add: same_counter_def)
  qed
qed

subsection \<open>Properties\<close>

text \<open>
  C10: Counting a chunk on the eight threads. Each thread runs \<open>count_aligned\<close> on a list of aligned accesses of the
  chunk, in order, and together the eight lists are exactly the accesses of the chunk's operations: every access is
  counted once, by one thread.
\<close>

theorem chunk_counted_once:
  assumes "\<forall>i<MAX_THREADS. addr_mask (ws i) = i * 8 \<and> (\<exists>z E. holds_log (ws i) z E)"
  shows "\<exists>xs. (\<forall>i<MAX_THREADS. execute_chunk c data (ws i) =
      foldE (\<lambda>(a, n). count_aligned a c n) (xs i) ((ws i)\<lparr>current_chunk := c\<rparr>)) \<and>
    mset (concat (map xs (words 0 8))) = mset (concat (map accesses data))"
proof (intro exI conjI allI impI)
  fix i assume i: "i < MAX_THREADS"
  then obtain z E where "addr_mask (ws i) = i * 8" "holds_log (ws i) z E" using assms by blast
  then show "execute_chunk c data (ws i) =
      foldE (\<lambda>(a, n). count_aligned a c n) (lane_accesses i data) ((ws i)\<lparr>current_chunk := c\<rparr>)"
    by (intro execute_chunk_eq [OF _ i])
qed (rule lanes_partition)

theorem chunk_counted_once_witness:
  "\<exists>xs. (\<forall>i<MAX_THREADS. execute_chunk 3 [\<lparr>bus_addr = 0xA000000C, bus_flags = 0x10008\<rparr>] (mem_counter_new (\<lambda>_. 7) 0 i) =
      foldE (\<lambda>(a, n). count_aligned a 3 n) (xs i) ((mem_counter_new (\<lambda>_. 7) 0 i)\<lparr>current_chunk := 3\<rparr>)) \<and>
    mset (concat (map xs (words 0 8))) = mset [(0xA0000008, 2), (0xA0000010, 2)]"
proof -
  have pre: "\<forall>i<MAX_THREADS. addr_mask (mem_counter_new (\<lambda>_. 7) 0 i) = i * 8 \<and>
      (\<exists>z E. holds_log (mem_counter_new (\<lambda>_. 7) 0 i) z E)"
  proof (intro allI impI conjI exI)
    show "addr_mask (mem_counter_new (\<lambda>_. 7) 0 i) = i * 8" for i by (simp add: mem_counter_new_def)
    show "holds_log (mem_counter_new (\<lambda>_. 7) 0 i) None (\<lambda>_. [])" for i by (rule holds_log_new)
  qed
  have "accesses \<lparr>bus_addr = 0xA000000C, bus_flags = 0x10008\<rparr> = [(0xA0000008, 2), (0xA0000010, 2)]"
    by (simp add: accesses_def op_bytes_def crosses_def)
  then show ?thesis
    using chunk_counted_once [OF pre, of 3 "[\<lparr>bus_addr = 0xA000000C, bus_flags = 0x10008\<rparr>]"] by simp
qed

end
