(* ===== verification/Count_Run.thy ===== *)
theory Count_Run
  imports Mem_Count
begin

text \<open>
  A whole run of \<open>MemCounter::execute\<close> over a completed context: what it leaves in the tables, how many blocks it takes,
  and when it fails.
\<close>

unbundle bit_operations_syntax

subsection \<open>A whole run\<close>

text \<open>
  The entries of offset \<open>off\<close> after a run of lane \<open>i\<close> over the chunks \<open>chs\<close>: one per chunk with an access
  to it, in chunk order, with the chunk's total.
\<close>

definition chunk_entry :: "u32 \<Rightarrow> u32 \<Rightarrow> u32 \<times> MemChunk \<Rightarrow> (u32 \<times> u32) list" where
  "chunk_entry i off kd =
    (let ns = line_counts (lane_accesses i (snd kd)) off in if ns = [] then [] else [(fst kd, sum_list ns)])"

definition chunk_log :: "u32 \<Rightarrow> MemChunk list \<Rightarrow> u32 \<Rightarrow> (u32 \<times> u32) list" where
  "chunk_log i chs off = concat (map (chunk_entry i off) (numbered chs))"

lemma chunk_log_ids: "(k, n) \<in> set (chunk_log i chs off) \<Longrightarrow> \<exists>j<length chs. k = of_nat j"
  using numbered_bound by (fastforce simp: chunk_log_def chunk_entry_def Let_def split: if_splits)

lemma chunk_log_snoc:
  assumes "length chs < 8192"
  shows "chunk_log i (chs @ [d]) = log_all (of_nat (length chs)) (lane_accesses i d) (chunk_log i chs)"
proof
  fix off
  let ?E = "chunk_log i chs off" and ?k = "of_nat (length chs) :: u32"
  have "fst (last ?E) \<noteq> ?k" if ne: "?E \<noteq> []"
  proof -
    obtain j where "j < length chs" "fst (last ?E) = of_nat j"
      using chunk_log_ids [of "fst (last ?E)" "snd (last ?E)" i chs off] last_in_set [OF ne] by auto
    then show ?thesis using of_nat_u32_eq_iff [of j "length chs"] assms by simp
  qed
  then show "chunk_log i (chs @ [d]) off = log_all ?k (lane_accesses i d) (chunk_log i chs) off"
    by (auto simp: chunk_log_def numbered_snoc chunk_entry_def log_all_def log_add_def Let_def)
qed

lemma chunk_log_append: "length (chunk_log i chs off) \<le> length (chunk_log i (chs @ ds) off)"
proof (induction ds rule: rev_induct)
  case (snoc d ds)
  have "length (chunk_log i (chs @ ds) off) \<le> length (chunk_log i ((chs @ ds) @ [d]) off)"
    unfolding chunk_log_def numbered_snoc by simp
  with snoc show ?case by simp
qed simp

definition run_accesses :: "u32 \<Rightarrow> MemChunk list \<Rightarrow> (u32 \<times> u32) list" where
  "run_accesses i chs = concat (map (lane_accesses i) chs)"

lemma run_log:
  assumes "addr_mask w = i * 8" "i < MAX_THREADS" "holds_log w None (\<lambda>_. [])" "length chs \<le> 8192"
    and "foldE (\<lambda>(k, d). execute_chunk k d) (numbered chs) w = Inr w'"
  shows "holds_log w' (first_line None (run_accesses i chs)) (chunk_log i chs) \<and> addr_mask w' = i * 8 \<and>
    same_thread w w'"
  using assms(4,5)
proof (induction chs arbitrary: w' rule: rev_induct)
  case Nil
  then show ?case using assms(1,3)
    by (simp add: run_accesses_def chunk_log_def same_thread_def)
next
  case (snoc d chs)
  let ?xs = "lane_accesses i d" and ?k = "of_nat (length chs) :: u32"
  let ?f = "foldE (\<lambda>(a, n). count_aligned a ?k n)"
  from snoc.prems(2) obtain w1 where w1: "foldE (\<lambda>(k, d). execute_chunk k d) (numbered chs) w = Inr w1"
    and step: "execute_chunk ?k d w1 = Inr w'" by (auto simp: numbered_snoc foldE_append)
  let ?z = "first_line None (run_accesses i chs)"
  from snoc.IH [OF _ w1] snoc.prems(1)
  have IH: "holds_log w1 ?z (chunk_log i chs)" and mask: "addr_mask w1 = i * 8" and same: "same_thread w w1"
    by auto
  let ?w1 = "w1\<lparr>current_chunk := ?k\<rparr>"
  have fold: "?f ?xs ?w1 = Inr w'" using step execute_chunk_eq [OF mask assms(2) IH] by simp
  have held: "holds_log ?w1 ?z (chunk_log i chs)" using IH by (simp add: holds_log_current)
  have "holds_log w' (first_line ?z ?xs) (log_all ?k ?xs (chunk_log i chs)) \<and> same_counter ?w1 w'"
    by (rule count_all_log [OF held fold])
  moreover have "first_line ?z ?xs = first_line None (run_accesses i (chs @ [d]))"
    by (simp add: run_accesses_def flip: first_line_append)
  ultimately show ?case
    using snoc.prems(1) mask same by (simp add: chunk_log_snoc same_counter_def same_thread_def)
qed

lemma run_total:
  assumes "addr_mask w = i * 8" "i < MAX_THREADS" "holds_log w None (\<lambda>_. [])" "length chs \<le> 8192"
    and "\<forall>(a, n)\<in>set (run_accesses i chs). line a \<noteq> None" and "blocks (chunk_log i chs) \<le> 4194304"
  shows "\<exists>w'. foldE (\<lambda>(k, d). execute_chunk k d) (numbered chs) w = Inr w'"
  using assms(4-6)
proof (induction chs rule: rev_induct)
  case (snoc d chs)
  let ?k = "of_nat (length chs) :: u32"
  have run: "run_accesses i (chs @ [d]) = run_accesses i chs @ lane_accesses i d"
    by (simp add: run_accesses_def)
  have "blocks (chunk_log i chs) \<le> blocks (chunk_log i (chs @ [d]))" by (intro blocks_mono chunk_log_append)
  with snoc obtain w1 where w1: "foldE (\<lambda>(k, d). execute_chunk k d) (numbered chs) w = Inr w1"
    unfolding run by auto
  from run_log [OF assms(1-3) _ w1] snoc.prems(1)
  have log: "holds_log w1 (first_line None (run_accesses i chs)) (chunk_log i chs)"
    and mask: "addr_mask w1 = i * 8" by auto
  have "\<exists>w'. foldE (\<lambda>(a, n). count_aligned a ?k n) (lane_accesses i d) (w1\<lparr>current_chunk := ?k\<rparr>) = Inr w'"
    by (rule count_all_total [of _ "first_line None (run_accesses i chs)" "chunk_log i chs"])
      (use log snoc.prems in \<open>auto simp: run holds_log_current chunk_log_snoc\<close>)
  then show ?case
    using w1 execute_chunk_eq [OF mask assms(2) log, of ?k d] by (auto simp: numbered_snoc foldE_append)
qed simp

text \<open>What the planners see of a finished counter.\<close>

definition seen :: "u32 option \<Rightarrow> (u32 \<Rightarrow> 'a list) \<Rightarrow> u32 \<Rightarrow> 'a list" where
  "seen z E off = (if z = Some off \<and> length (E off) \<in> {8..14} then drop 7 (E off) else E off)"

lemma two_blocks: "(n + 6) div 7 = 2 \<longleftrightarrow> n \<in> {8..14 :: nat}"
proof
  assume "(n + 6) div 7 = 2"
  then have "n + 6 = 2 * 7 + (n + 6) mod 7" using div_mult_mod_eq [of "n + 6" 7] by simp
  moreover have "(n + 6) mod 7 < 7" by simp
  ultimately have "8 \<le> n" "n \<le> 14" by linarith+
  then show "n \<in> {8..14}" by simp
next
  assume "n \<in> {8..14}"
  then show "(n + 6) div 7 = 2" by (intro div_nat_eqI) simp_all
qed

lemma holds_log_reads:
  assumes "holds_log w z E"
  shows "\<exists>P. reads_as w P (seen z E)"
proof -
  obtain B where rep: "rep w B E" and owner: "\<And>off. B off \<noteq> [] \<and> hd (B off) = 0 \<longleftrightarrow> z = Some off"
    using assms unfolding holds_log_def by blast
  have "visible (B off) (E off) = seen z E off" for off
  proof (cases "E off = []")
    case False
    then have sh: "shape (B off) (E off)" using rep_chain(1) [OF rep] by (simp add: chain_def)
    have "length (B off) = 2 \<longleftrightarrow> length (E off) \<in> {8..14}"
      unfolding shape_facts(5) [OF sh] by (rule two_blocks)
    moreover have "hd (B off) = 0 \<longleftrightarrow> z = Some off"
      using owner [of off] shape_facts(1) [OF sh] by blast
    ultimately have "hidden (B off) = (if z = Some off \<and> length (E off) \<in> {8..14} then 7 else 0)"
      by (simp only: hidden_def conj_commute)
    then show ?thesis by (simp add: visible_def seen_def del: atLeastAtMost_iff)
  qed (simp add: visible_def seen_def)
  then have "(\<lambda>off. visible (B off) (E off)) = seen z E" by (rule ext)
  with rep have "reads_as w (\<lambda>off. positions_of (B off) (E off)) (seen z E)"
    unfolding reads_as_def by (intro exI [of _ B] exI [of _ E]) simp
  then show ?thesis by (intro exI)
qed

text \<open>The counter of a fresh thread after \<open>execute\<close> on a completed context.\<close>

lemma execute_log:
  assumes "context_holds ctx chs" "chunks_completed ctx" "i < MAX_THREADS"
    and "execute ctx (mem_counter_new slots0 chunk0 i) = Some (Inr w')"
  shows "holds_log w' (first_line None (run_accesses i chs)) (chunk_log i chs)"
    and "same_thread (mem_counter_new slots0 chunk0 i) w'"
proof -
  let ?w = "mem_counter_new slots0 chunk0 i"
  have "foldE (\<lambda>(k, d). execute_chunk k d) (numbered chs) ?w = Inr w'"
    using assms(4) context_source.chunk_loop_all [of ctx chs execute_chunk ?w] assms(1,2)
    by (simp add: execute_def)
  then show "holds_log w' (first_line None (run_accesses i chs)) (chunk_log i chs)" "same_thread ?w w'"
    using run_log [OF _ assms(3) holds_log_new, of slots0 chunk0 i chs w'] assms(1)
    by (simp_all add: mem_counter_new_def context_holds_def)
qed

text \<open>A thread that returned has found an offset for every access.\<close>

lemma count_aligned_line: "count_aligned a c n w = Inr w' \<Longrightarrow> line a \<noteq> None"
  using line_eq_Some [of a _ "current_chunk w"]
  by (cases "addr_to_offset a (current_chunk w)") (auto simp: count_aligned_def)

lemma run_mapped:
  assumes "addr_mask w = i * 8" "i < MAX_THREADS" "holds_log w None (\<lambda>_. [])" "length chs \<le> 8192"
    and "foldE (\<lambda>(k, d). execute_chunk k d) (numbered chs) w = Inr w'"
  shows "\<forall>(a, n)\<in>set (run_accesses i chs). line a \<noteq> None"
  using assms(4,5)
proof (induction chs arbitrary: w' rule: rev_induct)
  case (snoc d chs)
  let ?k = "of_nat (length chs) :: u32"
  from snoc.prems(2) obtain w1 where w1: "foldE (\<lambda>(k, d). execute_chunk k d) (numbered chs) w = Inr w1"
    and step: "execute_chunk ?k d w1 = Inr w'" by (auto simp: numbered_snoc foldE_append)
  from run_log [OF assms(1-3) _ w1] snoc.prems(1)
  have log: "holds_log w1 (first_line None (run_accesses i chs)) (chunk_log i chs)" and mask: "addr_mask w1 = i * 8" by auto
  have "\<forall>(a, n)\<in>set xs. line a \<noteq> None"
    if "foldE (\<lambda>(a, n). count_aligned a c n) xs w = Inr w'" for xs :: "(u32 \<times> u32) list" and c w w'
    using that
    by (induction xs arbitrary: w) (fastforce dest: count_aligned_line)+
  then have "\<forall>(a, n)\<in>set (lane_accesses i d). line a \<noteq> None"
    using step unfolding execute_chunk_eq [OF mask assms(2) log] by blast
  then show ?case using snoc.IH [OF _ w1] snoc.prems(1) by (auto simp: run_accesses_def)
qed (simp add: run_accesses_def)

lemma execute_mapped:
  assumes "context_holds ctx chs" "chunks_completed ctx" "i < MAX_THREADS"
    and "execute ctx (mem_counter_new slots0 chunk0 i) = Some (Inr w')"
  shows "\<forall>(a, n)\<in>set (run_accesses i chs). line a \<noteq> None"
proof -
  let ?w = "mem_counter_new slots0 chunk0 i"
  have "foldE (\<lambda>(k, d). execute_chunk k d) (numbered chs) ?w = Inr w'"
    using assms(4) context_source.chunk_loop_all [of ctx chs execute_chunk ?w] assms(1,2)
    by (simp add: execute_def)
  then show ?thesis
    using run_mapped [OF _ assms(3) holds_log_new, of slots0 chunk0 i chs w'] assms(1)
    by (simp add: mem_counter_new_def context_holds_def)
qed

lemma execute_total:
  assumes "context_holds ctx chs" "chunks_completed ctx" "i < MAX_THREADS"
    and "\<forall>(a, n)\<in>set (run_accesses i chs). line a \<noteq> None" and "blocks (chunk_log i chs) \<le> 4194304"
  shows "\<exists>w'. execute ctx (mem_counter_new slots0 chunk0 i) = Some (Inr w')"
proof -
  let ?w = "mem_counter_new slots0 chunk0 i"
  have "\<exists>w'. foldE (\<lambda>(k, d). execute_chunk k d) (numbered chs) ?w = Inr w'"
    using run_total [OF _ assms(3) holds_log_new, of slots0 chunk0 i chs] assms(1,4,5)
    by (auto simp: mem_counter_new_def context_holds_def)
  then show ?thesis
    using context_source.chunk_loop_all [of ctx chs execute_chunk ?w] assms(1,2)
    by (auto simp: execute_def)
qed

lemma chunk_log_sum: "sum_list (map snd (chunk_log i chs off)) = sum_list (line_counts (run_accesses i chs) off)"
proof (induction chs rule: rev_induct)
  case (snoc d chs)
  then show ?case
    by (simp add: chunk_log_def run_accesses_def numbered_snoc chunk_entry_def line_counts_def Let_def)
qed (simp add: chunk_log_def run_accesses_def line_counts_def)

lemma rep_count_table:
  assumes "rep w B E" "off < ADDR_TABLE_SIZE"
  shows "get_count_table w off = Inr (sum_list (map snd (E off)))"
proof -
  have "ac_count (addr_count_table w off) = sum_list (map snd (E off))"
    using assms(1) rep_empty [OF assms(1)] by (cases "E off = []") (auto simp: rep_def offset_ok_def)
  then show ?thesis using assms(2) by (simp add: get_count_table_def table_read_def)
qed

subsection \<open>Errors\<close>

lemma run_error:
  assumes "addr_mask w = i * 8" "i < MAX_THREADS" "holds_log w None (\<lambda>_. [])" "length chs \<le> 8192"
    and "foldE (\<lambda>(k, d). execute_chunk k d) (numbered chs) w = Inl e"
  shows "(\<exists>a c. e = Bad_addr_offset a c \<and> a \<in> fst ` set (run_accesses i chs) \<and> line a = None) \<or>
    e = No_free_slots (counter_id w) \<and> 4194304 < blocks (chunk_log i chs)"
  using assms(4,5)
proof (induction chs rule: rev_induct)
  case (snoc d chs)
  let ?k = "of_nat (length chs) :: u32"
  have run: "run_accesses i (chs @ [d]) = run_accesses i chs @ lane_accesses i d" by (simp add: run_accesses_def)
  show ?case
  proof (cases "foldE (\<lambda>(k, d). execute_chunk k d) (numbered chs) w")
    case (Inl e')
    have "blocks (chunk_log i chs) \<le> blocks (chunk_log i (chs @ [d]))" by (intro blocks_mono chunk_log_append)
    then show ?thesis using snoc.IH snoc.prems Inl by (auto simp: numbered_snoc foldE_append run)
  next
    case (Inr w1)
    from run_log [OF assms(1-3) _ Inr] snoc.prems(1)
    have log: "holds_log w1 (first_line None (run_accesses i chs)) (chunk_log i chs)" and mask: "addr_mask w1 = i * 8"
      and same: "same_thread w w1" by auto
    have "execute_chunk ?k d w1 = Inl e" using snoc.prems(2) Inr by (simp add: numbered_snoc foldE_append)
    then have "foldE (\<lambda>(a, n). count_aligned a ?k n) (lane_accesses i d) (w1\<lparr>current_chunk := ?k\<rparr>) = Inl e"
      using execute_chunk_eq [OF mask assms(2) log] by simp
    from count_all_error [OF _ this] log same_threadD(2) [OF same] snoc.prems(1) show ?thesis
      by (force simp: run chunk_log_snoc holds_log_current)
  qed
qed simp

lemma line_mapped: "line a = None \<longleftrightarrow> \<not> mapped a"
  by (auto simp: line_def mapped_iff addr_to_offset_eq split: option.splits)

subsection \<open>The blocks of a run\<close>

text \<open>The offsets a list of accesses touches, and the blocks lane \<open>i\<close> takes for the chunks.\<close>

definition touched :: "(u32 \<times> u32) list \<Rightarrow> u32 list" where
  "touched xs = remdups (concat (map (\<lambda>(a, n). case line a of None \<Rightarrow> [] | Some off \<Rightarrow> [off]) xs))"

definition blocks_needed :: "u32 \<Rightarrow> MemChunk list \<Rightarrow> nat" where
  "blocks_needed i chs = sum_list (map (\<lambda>off. (length (chunk_log i chs off) + 6) div 7) (touched (run_accesses i chs)))"

lemma chunk_log_untouched:
  assumes "off \<notin> set (touched (run_accesses i chs))"
  shows "chunk_log i chs off = []"
proof -
  have "line_counts (lane_accesses i d) off = []" if "d \<in> set chs" for d
    using assms that by (force simp: touched_def run_accesses_def line_counts_def filter_empty_conv)
  then show ?thesis
    using numbered_bound by (fastforce simp: chunk_log_def chunk_entry_def Let_def)
qed

lemma blocks_needed_eq: "blocks_needed i chs = blocks (chunk_log i chs)"
proof -
  have "blocks_needed i chs = (\<Sum>off\<in>set (touched (run_accesses i chs)). (length (chunk_log i chs off) + 6) div 7)"
    unfolding blocks_needed_def by (simp add: touched_def sum_list_distinct_conv_sum_set)
  also have "\<dots> = blocks (chunk_log i chs)"
    unfolding blocks_def by (intro sum.mono_neutral_left) (use chunk_log_untouched in auto)
  finally show ?thesis .
qed

subsection \<open>The entries a planner misses\<close>

lemma first_line_Some: "first_line (Some z) xs = Some z"
  by (induction xs) auto

lemma walk_collects:
  assumes "length ps = length vs"
  shows "foldS (\<lambda>(p, c, n) s. Some (Inr (s @ [(c, n)], False))) (zip ps vs) s = Some (Inr (s @ vs, False))"
  using assms by (induction ps vs arbitrary: s rule: list_induct2) auto

subsection \<open>Properties\<close>

text \<open>
  C9: The result of a thread's run over a completed context. The planners see, at every offset, one entry per chunk that
  accessed it, in chunk order, with the chunk's total (\<open>chunk_log\<close>), except that the first offset the thread ever
  counted loses its first seven entries when it has eight to fourteen; the count table holds the full total; and the
  thread has used exactly the blocks the entries take, seven to a block.
\<close>

theorem execute_result:
  assumes "context_holds ctx chs" "chunks_completed ctx" "i < MAX_THREADS"
    and "execute ctx (mem_counter_new slots0 chunk0 i) = Some (Inr w')"
  shows "(\<exists>P. reads_as w' P (seen (first_line None (run_accesses i chs)) (chunk_log i chs))) \<and>
    (\<forall>off<ADDR_TABLE_SIZE. get_count_table w' off = Inr (sum_list (line_counts (run_accesses i chs) off))) \<and>
    unat (get_used_slots w') = blocks_needed i chs"
proof (intro conjI)
  note log = execute_log(1) [OF assms]
  show "\<exists>P. reads_as w' P (seen (first_line None (run_accesses i chs)) (chunk_log i chs))"
    by (rule holds_log_reads [OF log])
  obtain B where rep: "rep w' B (chunk_log i chs)" using log by (auto simp: holds_log_def)
  show "\<forall>off<ADDR_TABLE_SIZE. get_count_table w' off = Inr (sum_list (line_counts (run_accesses i chs) off))"
    using rep_count_table [OF rep] by (simp add: chunk_log_sum)
  show "unat (get_used_slots w') = blocks_needed i chs"
    using holds_log_blocks [OF log] by (simp add: get_used_slots_def blocks_needed_eq)
qed

text \<open>A completed context of eight chunks with the same access.\<close>

definition ctx8 :: MemContext where
  "ctx8 = \<lparr>chunks = (\<lambda>_. [\<lparr>bus_addr = 0xA0000000, bus_flags = 8\<rparr>]), chunks_count = 8, chunks_completed = True\<rparr>"

lemma ctx8_holds: "context_holds ctx8 (replicate 8 [\<lparr>bus_addr = 0xA0000000, bus_flags = 8\<rparr>])" "chunks_completed ctx8"
  by (simp_all add: context_holds_def ctx8_def)

lemma ctx8_accesses: "run_accesses 0 (replicate n [\<lparr>bus_addr = 0xA0000000, bus_flags = 8\<rparr>]) = replicate n (0xA0000000, 1)"
proof -
  have "lane_accesses 0 [\<lparr>bus_addr = 0xA0000000, bus_flags = 8\<rparr>] = [(0xA0000000, 1)]"
    by (simp add: lane_accesses_def accesses_def op_bytes_def lane_def)
  then show ?thesis by (induction n) (simp_all add: run_accesses_def)
qed

lemma ctx8_line: "line 0xA0000000 = Some 0x400000"
  by (simp add: line_def addr_to_offset_eq window_page_def)

lemma ctx8_log: "chunk_log 0 (replicate n [\<lparr>bus_addr = 0xA0000000, bus_flags = 8\<rparr>]) 0x400000 = map (\<lambda>k. (of_nat k, 1)) [0..<n]"
proof (induction n)
  case (Suc n)
  have "lane_accesses 0 [\<lparr>bus_addr = 0xA0000000, bus_flags = 8\<rparr>] = [(0xA0000000, 1)]"
    by (simp add: lane_accesses_def accesses_def op_bytes_def lane_def)
  moreover have "replicate (Suc n) x = replicate n x @ [x]" for x :: MemChunk by (simp add: replicate_append_same)
  ultimately show ?case
    using Suc ctx8_line by (simp add: chunk_log_def numbered_snoc chunk_entry_def line_counts_def Let_def del: replicate.simps)
qed (simp add: chunk_log_def)

lemma ctx8_blocks: "blocks_needed 0 (replicate 8 [\<lparr>bus_addr = 0xA0000000, bus_flags = 8\<rparr>]) = 2"
proof -
  have "touched (replicate n (0xA0000000, 1)) = (if n = 0 then [] else [0x400000])" for n
    by (induction n) (auto simp: touched_def ctx8_line)
  then show ?thesis by (simp add: blocks_needed_def ctx8_accesses ctx8_log)
qed

lemma ctx8_returns: "\<exists>w'. execute ctx8 (mem_counter_new (\<lambda>_. 7) 0 0) = Some (Inr w')"
  by (rule execute_total [OF ctx8_holds]) (simp_all add: ctx8_accesses ctx8_line ctx8_blocks flip: blocks_needed_eq)

theorem execute_result_witness:
  "\<exists>w'. execute ctx8 (mem_counter_new (\<lambda>_. 7) 0 0) = Some (Inr w') \<and> get_count_table w' 0x400000 = Inr 8 \<and>
    unat (get_used_slots w') = 2"
proof -
  obtain w' where run: "execute ctx8 (mem_counter_new (\<lambda>_. 7) 0 0) = Some (Inr w')" using ctx8_returns by blast
  have "line_counts (replicate 8 (0xA0000000, 1)) 0x400000 = replicate 8 1"
    by (simp add: line_counts_def ctx8_line)
  then show ?thesis
    using execute_result [OF ctx8_holds _ run] run by (simp add: ctx8_accesses ctx8_blocks sum_list_replicate)
qed

text \<open>
  C18: Exactly when a run of a thread over a completed context returns: it throws nothing and does not spin, if and only
  if the addresses it accesses are in the windows and the entries it makes fit in its blocks.
\<close>

theorem execute_returns:
  assumes "context_holds ctx chs" "chunks_completed ctx" "i < MAX_THREADS"
  shows "(\<exists>w'. execute ctx (mem_counter_new slots0 chunk0 i) = Some (Inr w')) \<longleftrightarrow>
    (\<forall>(a, n)\<in>set (run_accesses i chs). mapped a) \<and> blocks_needed i chs \<le> unat ADDR_SLOTS"
proof
  assume "\<exists>w'. execute ctx (mem_counter_new slots0 chunk0 i) = Some (Inr w')"
  then obtain w' where run: "execute ctx (mem_counter_new slots0 chunk0 i) = Some (Inr w')" by blast
  note log = execute_log(1) [OF assms run]
  then have "free_slot w' \<le> ADDR_SLOTS" by (auto simp: holds_log_def rep_def)
  then show "(\<forall>(a, n)\<in>set (run_accesses i chs). mapped a) \<and> blocks_needed i chs \<le> unat ADDR_SLOTS"
    using execute_mapped [OF assms run] holds_log_blocks [OF log] unfolding line_mapped blocks_needed_eq word_le_nat_alt
    by simp
next
  assume "(\<forall>(a, n)\<in>set (run_accesses i chs). mapped a) \<and> blocks_needed i chs \<le> unat ADDR_SLOTS"
  then show "\<exists>w'. execute ctx (mem_counter_new slots0 chunk0 i) = Some (Inr w')"
    by (intro execute_total [OF assms]) (auto simp only: line_mapped blocks_needed_eq config_values unat_numeral, simp)
qed

theorem execute_returns_witness: "\<exists>w'. execute ctx8 (mem_counter_new (\<lambda>_. 0) 9 0) = Some (Inr w')"
  by (rule execute_returns [OF ctx8_holds, THEN iffD2]) (simp_all add: ctx8_accesses ctx8_blocks mapped_def)

text \<open>
  C19: A run of a thread over a completed context fails only in the two ways the code throws: an accessed address
  outside the windows, or no free block left, which happens only when its entries take more blocks than there are.
\<close>

theorem execute_errors:
  assumes "context_holds ctx chs" "chunks_completed ctx" "i < MAX_THREADS"
    and "execute ctx (mem_counter_new slots0 chunk0 i) = Some (Inl e)"
  shows "(\<exists>a c. e = Bad_addr_offset a c \<and> a \<in> fst ` set (run_accesses i chs) \<and> \<not> mapped a) \<or>
    e = No_free_slots i \<and> unat ADDR_SLOTS < blocks_needed i chs"
proof -
  let ?w = "mem_counter_new slots0 chunk0 i"
  have "foldE (\<lambda>(k, d). execute_chunk k d) (numbered chs) ?w = Inl e"
    using assms(4) context_source.chunk_loop_all [of ctx chs execute_chunk ?w] assms(1,2) by (simp add: execute_def)
  from run_error [OF _ assms(3) holds_log_new _ this] assms(1) show ?thesis
    unfolding line_mapped by (auto simp: mem_counter_new_def context_holds_def blocks_needed_eq)
qed

theorem execute_errors_witness:
  "execute \<lparr>chunks = (\<lambda>_. [\<lparr>bus_addr = 0, bus_flags = 8\<rparr>]), chunks_count = 1, chunks_completed = True\<rparr>
      (mem_counter_new (\<lambda>_. 7) 0 0) = Some (Inl (Bad_addr_offset 0 0)) \<and> \<not> mapped 0"
proof -
  let ?ctx = "\<lparr>chunks = (\<lambda>_. [\<lparr>bus_addr = 0, bus_flags = 8\<rparr>]), chunks_count = 1, chunks_completed = True\<rparr>"
  have ctx: "context_holds ?ctx [[\<lparr>bus_addr = 0, bus_flags = 8\<rparr>]]" "chunks_completed ?ctx"
    by (simp_all add: context_holds_def)
  have run: "execute ?ctx (mem_counter_new (\<lambda>_. 7) 0 0) = Some (Inl (Bad_addr_offset 0 0))"
    using context_source.chunk_loop_all [of ?ctx "[[\<lparr>bus_addr = 0, bus_flags = 8\<rparr>]]" execute_chunk] ctx
    by (simp add: execute_def numbered_def execute_chunk_def count_op_def op_bytes_def mem_counter_new_def
        count_aligned_def addr_to_offset_eq window_page_def result_simps)
  with execute_errors [OF ctx _ run] show ?thesis by auto
qed

text \<open>
  C22: The planners can miss entries. Whenever the first address a thread counts (\<open>off\<close> is its offset) ends up in eight to
  fourteen chunks, the count table has the total of all its entries, but the walk every planner makes from the address table
  visits them only from the eighth on: \<open>get_initial_pos\<close> takes the back link of the second block, which is block 0 and hence
  0, for the end of the chain.
\<close>

theorem first_address_loses_entries:
  assumes "context_holds ctx chs" "chunks_completed ctx" "i < MAX_THREADS"
    and "execute ctx (mem_counter_new slots0 chunk0 i) = Some (Inr w)"
    and "run_accesses i chs = (a, n) # rest" "line a = Some off"
    and "length (chunk_log i chs off) \<in> {8..14}"
  shows "\<exists>pos cpos. get_count_table w off = Inr (sum_list (map snd (chunk_log i chs off))) \<and>
    get_addr_table w off = Inr pos \<and> get_initial_pos w pos = Inr cpos \<and>
    walk True (get_next_pos w) (read_entry (get_pos_value w) (\<lambda>p c n s. Some (Inr (s @ [(c, n)], False)))) pos cpos []
      = Some (Inr (drop 7 (chunk_log i chs off), False))"
proof -
  have z: "first_line None (run_accesses i chs) = Some off"
    using assms(6) by (simp add: assms(5) first_line_Some)
  have held: "holds_log w (Some off) (chunk_log i chs)" using execute_log(1) [OF assms(1-4)] by (simp only: z)
  then obtain P where r: "reads_as w P (seen (Some off) (chunk_log i chs))" using holds_log_reads by blast
  have V: "seen (Some off) (chunk_log i chs) off = drop 7 (chunk_log i chs off)"
    using assms(7) by (simp add: seen_def)
  have ne: "seen (Some off) (chunk_log i chs) off \<noteq> []" unfolding V using assms(7) by simp
  have "length (P off) = length (drop 7 (chunk_log i chs off))" using counter_reader.positions [OF r, of off] V by simp
  note all = walk_collects [OF this]
  obtain B where rep: "rep w B (chunk_log i chs)" using held by (auto simp: holds_log_def)
  have "off < ADDR_TABLE_SIZE"
    using assms(6) addr_to_offset_bound by (auto simp: line_def split: sum.splits simp del: config_values)
  then have "get_count_table w off = Inr (sum_list (map snd (chunk_log i chs off)))" by (rule rep_count_table [OF rep])
  then show ?thesis
    using counter_reader.table_last [OF r ne]
      counter_reader.walk_all [OF r ne, of True "\<lambda>p c n s. Some (Inr (s @ [(c, n)], False))" "[]"] all
    by (auto simp: V run_entries_def)
qed

theorem first_address_loses_entries_witness:
  "\<exists>w pos cpos. execute ctx8 (mem_counter_new (\<lambda>_. 7) 0 0) = Some (Inr w) \<and> get_count_table w 0x400000 = Inr 8 \<and>
    get_addr_table w 0x400000 = Inr pos \<and> get_initial_pos w pos = Inr cpos \<and>
    walk True (get_next_pos w) (read_entry (get_pos_value w) (\<lambda>p c n s. Some (Inr (s @ [(c, n)], False)))) pos cpos []
      = Some (Inr ([(7, 1)], False))"
proof -
  let ?chs = "replicate 8 [\<lparr>bus_addr = 0xA0000000, bus_flags = 8\<rparr>]"
  obtain w where run: "execute ctx8 (mem_counter_new (\<lambda>_. 7) 0 0) = Some (Inr w)" using ctx8_returns by blast
  have acc: "run_accesses 0 ?chs = (0xA0000000, 1) # replicate 7 (0xA0000000, 1)"
    unfolding ctx8_accesses by (simp add: numeral_eq_Suc)
  have log: "chunk_log 0 ?chs 0x400000 = map (\<lambda>k. (of_nat k, 1)) [0..<8]" by (rule ctx8_log)
  have "length (chunk_log 0 ?chs 0x400000) \<in> {8..14}" by (simp add: log)
  from first_address_loses_entries [OF ctx8_holds _ run acc ctx8_line this] run show ?thesis
    by (simp add: log upt_rec)
qed

end
