(* ===== verification/Mem_Align.thy ===== *)
theory Mem_Align
  imports Mem_Context
begin

text \<open>
  \<open>MemAlignCounter\<close> of \<open>mem_align_counter.hpp\<close>: it packs the rows of the unaligned operations into segments
  of \<open>rows\<close> rows and records one check point per segment and chunk. The specification is the list of unaligned
  operations with their chunks; the lemmas show that the check points partition it, in order, and that no segment
  holds more than \<open>rows\<close> rows.
\<close>

unbundle bit_operations_syntax

subsection \<open>State and operations\<close>

text \<open>
  \<open>int32_t segment_id\<close> starts at -1 and is only incremented and cast to \<open>uint32_t\<close>; the model keeps its bit
  pattern.
\<close>

record MemAlignCheckPoint =
  cp_segment_id :: u32
  cp_chunk_id :: u32
  cp_skip :: u32
  cp_count :: u32
  cp_rows :: u32
  cp_offset :: u32

record MemAlignCounter =
  align_checkpoints :: "MemAlignCheckPoint list"
  align_count :: u32
  align_segment_id :: u32
  available_rows :: u32
  align_skip :: u32
  align_rows :: u32

definition align_new :: "u32 \<Rightarrow> MemAlignCounter" where
  "align_new rows =
    \<lparr>align_checkpoints = [], align_count = 0, align_segment_id = -1, available_rows = 0, align_skip = 0,
     align_rows = rows\<rparr>"

definition open_chunk :: "u32 \<Rightarrow> u32 \<Rightarrow> MemAlignCounter \<Rightarrow> MemAlignCounter" where
  "open_chunk chunk_id ops m =
    (let count = if ops \<noteq> 0 then 1 else 0 in
     m\<lparr>align_checkpoints := align_checkpoints m @
        [\<lparr>cp_segment_id = align_segment_id m, cp_chunk_id = chunk_id, cp_skip = 0, cp_count = count,
          cp_rows = ops, cp_offset = align_rows m - available_rows m\<rparr>]\<rparr>)"

definition open_align_segment :: "u32 \<Rightarrow> u32 \<Rightarrow> MemAlignCounter \<Rightarrow> MemAlignCounter" where
  "open_align_segment chunk_id ops m =
    (let count = if ops \<noteq> 0 then 1 else 0; segment = align_segment_id m + 1 in
     m\<lparr>align_segment_id := segment,
       align_checkpoints := align_checkpoints m @
        [\<lparr>cp_segment_id = segment, cp_chunk_id = chunk_id, cp_skip = align_skip m, cp_count = count,
          cp_rows = ops, cp_offset = 0\<rparr>],
       available_rows := align_rows m\<rparr>)"

text \<open>\<open>checkpoints.back()\<close> of an empty vector is undefined, hence \<open>Out_of_bounds\<close>.\<close>

definition add_mem_align_op :: "u32 \<Rightarrow> u32 \<Rightarrow> MemAlignCounter \<Rightarrow> MemAlignCounter res" where
  "add_mem_align_op chunk_id ops m =
    bindE
      (if available_rows m < ops then Inr (open_align_segment chunk_id ops m)
       else if align_checkpoints m = [] then Inl Out_of_bounds
       else
         let lcp = last (align_checkpoints m) in
         if cp_chunk_id lcp \<noteq> chunk_id then Inr (open_chunk chunk_id ops m)
         else Inr (m\<lparr>align_checkpoints := butlast (align_checkpoints m) @
           [lcp\<lparr>cp_count := cp_count lcp + 1, cp_rows := cp_rows lcp + ops\<rparr>]\<rparr>))
      (\<lambda>m. Inr (m\<lparr>available_rows := available_rows m - ops\<rparr>))"

definition align_op :: "u32 \<Rightarrow> MemCountersBusData \<Rightarrow> MemAlignCounter \<Rightarrow> MemAlignCounter res" where
  "align_op chunk_id d m =
    (let bytes = (ucast (bus_flags d AND 0xFF) :: u8); a = bus_addr d in
     if \<not> (bytes = 1 \<or> bytes = 2 \<or> bytes = 4 \<or> bytes = 8) then Inl Assertion_failed
     else if bytes \<noteq> 8 \<or> a AND 7 \<noteq> 0 then
       let addr_count = (if ucast bytes + (a AND 7) > 8 then 2 else 1);
           ops_by_addr = (if bus_flags d AND 0x10000 \<noteq> 0 then 2 else 1);
           ops = addr_count * ops_by_addr + 1 in
       bindE (add_mem_align_op chunk_id ops m) (\<lambda>m. Inr (m\<lparr>align_skip := align_skip m + 1\<rparr>))
     else Inr m)"

definition align_execute_chunk :: "u32 \<Rightarrow> MemChunk \<Rightarrow> MemAlignCounter \<Rightarrow> MemAlignCounter res" where
  "align_execute_chunk chunk_id data m = foldE (align_op chunk_id) data (m\<lparr>align_skip := 0\<rparr>)"

definition align_execute :: "MemContext \<Rightarrow> MemAlignCounter \<Rightarrow> MemAlignCounter run" where
  "align_execute ctx m = chunk_loop (get_chunk ctx) align_execute_chunk 0 m"

definition get_instances_count :: "MemAlignCounter \<Rightarrow> u32" where
  "get_instances_count m = of_nat (length (align_checkpoints m))"

subsection \<open>The rows of an operation\<close>

definition valid_bytes :: "MemCountersBusData \<Rightarrow> bool" where
  "valid_bytes d \<longleftrightarrow> bus_flags d AND 0xFF \<in> {1, 2, 4, 8}"

definition op_rows :: "MemCountersBusData \<Rightarrow> nat option" where
  "op_rows d =
    (let bytes = unat (bus_flags d AND 0xFF); shift = unat (bus_addr d AND 7) in
     if bytes = 8 \<and> shift = 0 then None
     else Some ((if bytes + shift > 8 then 2 else 1) * (if bus_flags d AND 0x10000 \<noteq> 0 then 2 else 1) + 1))"

text \<open>The unaligned operations of a chunk: the chunk id, the index among them, the rows.\<close>

type_synonym item = "u32 \<times> nat \<times> nat"

fun chunk_items :: "u32 \<Rightarrow> nat \<Rightarrow> MemChunk \<Rightarrow> item list" where
  "chunk_items c k [] = []"
| "chunk_items c k (d # ds) =
    (case op_rows d of None \<Rightarrow> chunk_items c k ds | Some r \<Rightarrow> (c, k, r) # chunk_items c (Suc k) ds)"

definition items :: "MemChunk list \<Rightarrow> item list" where
  "items chs = concat (map (\<lambda>(c, d). chunk_items c 0 d) (numbered chs))"

lemma valid_bytes_iff:
  "valid_bytes d \<longleftrightarrow> (let b = (ucast (bus_flags d AND 0xFF) :: u8) in b = 1 \<or> b = 2 \<or> b = 4 \<or> b = 8)"
  and byte_value: "unat (ucast (bus_flags d AND 0xFF) :: u8) = unat (bus_flags d AND 0xFF)"
proof -
  have "(0xFF :: u32) = mask 8" by (simp add: mask_eq_exp_minus_1)
  then have lt: "unat (bus_flags d AND 0xFF) < 256" by (simp only: unat_and_mask_u32) simp
  then show byte: "unat (ucast (bus_flags d AND 0xFF) :: u8) = unat (bus_flags d AND 0xFF)"
    by (simp add: unsigned_ucast_eq take_bit_eq_mod)
  show "valid_bytes d \<longleftrightarrow> (let b = (ucast (bus_flags d AND 0xFF) :: u8) in b = 1 \<or> b = 2 \<or> b = 4 \<or> b = 8)"
    unfolding valid_bytes_def Let_def word_unat_eq_iff byte insert_iff empty_iff by simp
qed

lemma op_rows_bounds: "op_rows d = Some r \<Longrightarrow> 2 \<le> r \<and> r \<le> 5"
  by (auto simp: op_rows_def Let_def split: if_splits)

lemma align_op_rows:
  assumes "valid_bytes d"
  shows "align_op c d m =
    (case op_rows d of None \<Rightarrow> Inr m
     | Some r \<Rightarrow> bindE (add_mem_align_op c (of_nat r) m) (\<lambda>m. Inr (m\<lparr>align_skip := align_skip m + 1\<rparr>)))"
proof -
  let ?b = "ucast (bus_flags d AND 0xFF) :: u8"
  have b8: "?b = 8 \<longleftrightarrow> unat (bus_flags d AND 0xFF) = 8"
    by (simp add: word_unat_eq_iff byte_value)
  have shift: "unat (bus_addr d AND 7) < 8" by (simp add: unat_and_7)
  have ub: "unat (ucast ?b :: u32) = unat (bus_flags d AND 0xFF)"
    unfolding unat_ucast_u8 by (rule byte_value)
  have "unat (bus_flags d AND 0xFF) < 256"
    using unsigned_less [of ?b, where ?'a = nat] unfolding byte_value by simp
  then have "unat (ucast ?b + (bus_addr d AND 7)) = unat (bus_flags d AND 0xFF) + unat (bus_addr d AND 7)"
    using shift by (subst unat_plus_u32) (simp_all add: ub)
  then have cross: "ucast ?b + (bus_addr d AND 7) > 8 \<longleftrightarrow>
      unat (bus_flags d AND 0xFF) + unat (bus_addr d AND 7) > 8"
    by (simp add: word_less_nat_alt)
  have "bus_addr d AND 7 = 0 \<longleftrightarrow> unat (bus_addr d AND 7) = 0" by (simp add: unat_eq_0)
  with assms b8 cross show ?thesis
    unfolding valid_bytes_iff by (auto simp: align_op_def op_rows_def Let_def)
qed

lemma align_op_invalid: "\<not> valid_bytes d \<Longrightarrow> align_op c d m = Inl Assertion_failed"
  by (simp add: align_op_def valid_bytes_iff Let_def)

subsection \<open>Divisions of the operations into segments\<close>

text \<open>
  A division is a list of segments, a segment a list of runs, a run a list of operations of one chunk with
  consecutive indices. \<open>checkpoints_of\<close> is the check points a division stands for.
\<close>

definition rows_of :: "item list \<Rightarrow> nat" where
  "rows_of xs = sum_list (map (\<lambda>(c, k, r). r) xs)"

definition checkpoint_of :: "nat \<Rightarrow> nat \<Rightarrow> item list \<Rightarrow> MemAlignCheckPoint" where
  "checkpoint_of s off run =
    \<lparr>cp_segment_id = of_nat s, cp_chunk_id = fst (hd run), cp_skip = of_nat (fst (snd (hd run))),
     cp_count = of_nat (length run), cp_rows = of_nat (rows_of run), cp_offset = of_nat off\<rparr>"

fun segment_checkpoints :: "nat \<Rightarrow> nat \<Rightarrow> item list list \<Rightarrow> MemAlignCheckPoint list" where
  "segment_checkpoints s off [] = []"
| "segment_checkpoints s off (run # runs) =
    checkpoint_of s off run # segment_checkpoints s (off + rows_of run) runs"

definition checkpoints_of :: "item list list list \<Rightarrow> MemAlignCheckPoint list" where
  "checkpoints_of G = concat (map (\<lambda>(s, runs). segment_checkpoints s 0 runs) (enumerate 0 G))"

definition is_run :: "item list \<Rightarrow> bool" where
  "is_run run \<longleftrightarrow> run \<noteq> [] \<and>
    (\<forall>j<length run. fst (run ! j) = fst (hd run) \<and> fst (snd (run ! j)) = fst (snd (hd run)) + j)"

definition division :: "nat \<Rightarrow> item list list list \<Rightarrow> bool" where
  "division R G \<longleftrightarrow> (\<forall>runs\<in>set G. runs \<noteq> [] \<and> (\<forall>run\<in>set runs. is_run run) \<and> rows_of (concat runs) \<le> R) \<and>
    (\<forall>s. Suc s < length G \<longrightarrow> rows_of (concat (G ! s)) + rows_of [hd (concat (G ! Suc s))] > R)"

lemma rows_of_simps [simp]:
  "rows_of [] = 0" "rows_of ((c, k, r) # xs) = r + rows_of xs" "rows_of (xs @ ys) = rows_of xs + rows_of ys"
  by (simp_all add: rows_of_def)

lemma segment_checkpoints_append:
  "segment_checkpoints s off (runs @ runs') =
    segment_checkpoints s off runs @ segment_checkpoints s (off + rows_of (concat runs)) runs'"
  by (induction runs arbitrary: off) (simp_all add: add.assoc)

lemma checkpoints_of_snoc: "checkpoints_of (G @ [runs]) = checkpoints_of G @ segment_checkpoints (length G) 0 runs"
  by (simp add: checkpoints_of_def enumerate_append_eq)

lemma is_run_single [simp]: "is_run [x]"
  by (simp add: is_run_def)

lemma is_run_snoc:
  assumes "is_run run" "last run = (c, k, r')"
  shows "is_run (run @ [(c, Suc k, r)])"
proof -
  have run: "run \<noteq> []" using assms(1) by (simp add: is_run_def)
  then have "fst (last run) = fst (hd run) \<and> fst (snd (last run)) = fst (snd (hd run)) + (length run - 1)"
    using assms(1) by (simp add: is_run_def last_conv_nth)
  then have "c = fst (hd run)" "Suc k = fst (snd (hd run)) + length run"
    using assms(2) run by (cases run; simp)+
  then show ?thesis
    using assms(1) run by (auto simp: is_run_def nth_append less_Suc_eq)
qed

lemma division_extend_last:
  assumes "division R (G @ [runs])" "runs \<noteq> []" "hd (concat runs') = hd (concat runs)" "runs' \<noteq> []"
    "\<forall>run\<in>set runs'. is_run run" "rows_of (concat runs') \<le> R"
  shows "division R (G @ [runs'])"
  unfolding division_def
proof (intro conjI allI impI)
  show "\<forall>runs\<in>set (G @ [runs']). runs \<noteq> [] \<and> (\<forall>run\<in>set runs. is_run run) \<and> rows_of (concat runs) \<le> R"
    using assms by (auto simp: division_def)
  fix s assume "Suc s < length (G @ [runs'])"
  then have "R < rows_of (concat ((G @ [runs]) ! s)) + rows_of [hd (concat ((G @ [runs]) ! Suc s))]" "s < length G"
    using assms(1) by (simp_all add: division_def)
  then show "R < rows_of (concat ((G @ [runs']) ! s)) + rows_of [hd (concat ((G @ [runs']) ! Suc s))]"
    using assms(3) by (cases "Suc s = length G") (simp_all add: nth_append)
qed

lemma division_new_segment:
  assumes "division R G" "G \<noteq> [] \<Longrightarrow> rows_of (concat (last G)) + rows_of [x] > R" "rows_of [x] \<le> R"
  shows "division R (G @ [[[x]]])"
  unfolding division_def
proof (intro conjI allI impI)
  show "\<forall>runs\<in>set (G @ [[[x]]]). runs \<noteq> [] \<and> (\<forall>run\<in>set runs. is_run run) \<and> rows_of (concat runs) \<le> R"
    using assms by (auto simp: division_def)
  fix s assume s: "Suc s < length (G @ [[[x]]])"
  show "R < rows_of (concat ((G @ [[[x]]]) ! s)) + rows_of [hd (concat ((G @ [[[x]]]) ! Suc s))]"
  proof (cases "Suc s = length G")
    case True
    then have "G \<noteq> []" by auto
    then have "last G = G ! s" by (simp add: last_conv_nth flip: True)
    note \<open>G \<noteq> []\<close> this
    then show ?thesis using True assms(2) by (simp add: nth_append)
  next
    case False
    then show ?thesis using s assms(1) by (simp add: nth_append division_def)
  qed
qed

subsection \<open>The invariant\<close>

text \<open>
  After the operations \<open>xs\<close>, with \<open>k\<close> of them in the current chunk \<open>c\<close>: the check points are those of a
  division of \<open>xs\<close>, and the free rows are those its last segment leaves.
\<close>

definition packs :: "nat \<Rightarrow> MemAlignCounter \<Rightarrow> item list list list \<Rightarrow> bool" where
  "packs R m G \<longleftrightarrow> division R G \<and> align_checkpoints m = checkpoints_of G \<and> align_rows m = of_nat R \<and>
    align_segment_id m = of_nat (length G) - 1 \<and>
    available_rows m = of_nat (if G = [] then 0 else R - rows_of (concat (last G)))"

definition in_chunk :: "u32 \<Rightarrow> nat \<Rightarrow> MemAlignCounter \<Rightarrow> item list \<Rightarrow> bool" where
  "in_chunk c k m xs \<longleftrightarrow> align_skip m = of_nat k \<and>
    (if k = 0 then xs = [] \<or> fst (last xs) \<noteq> c else xs \<noteq> [] \<and> fst (last xs) = c \<and> Suc (fst (snd (last xs))) = k)"

lemma packs_new: "packs R (align_new (of_nat R)) []"
  by (simp add: packs_def align_new_def division_def checkpoints_of_def)

text \<open>Opening a segment for an operation that does not fit.\<close>

lemma add_op_segment:
  assumes "packs R m G" "R < 4294967296" "2 \<le> r" "r \<le> R" "align_skip m = of_nat k"
    and "available_rows m < of_nat r"
  shows "\<exists>m'. add_mem_align_op c (of_nat r) m = Inr m' \<and> align_skip m' = align_skip m \<and>
    packs R m' (G @ [[[(c, k, r)]]])"
proof -
  let ?m' = "(open_align_segment c (of_nat r) m)\<lparr>available_rows := align_rows m - of_nat r\<rparr>"
  have r0: "(of_nat r :: u32) \<noteq> 0" using assms(2-4) of_nat_u32_eq_0_iff [of r] by simp
  have "rows_of (concat (last G)) + r > R" if "G \<noteq> []"
  proof -
    have "available_rows m = of_nat (R - rows_of (concat (last G)))"
      using assms(1) that by (simp add: packs_def)
    then have "R - rows_of (concat (last G)) < r"
      using assms(2-4,6) of_nat_u32_less_iff [of "R - rows_of (concat (last G))" r] by simp
    then show ?thesis by linarith
  qed
  then have "division R (G @ [[[(c, k, r)]]])"
    using assms(1,4) by (intro division_new_segment) (auto simp: packs_def)
  then have "packs R ?m' (G @ [[[(c, k, r)]]])"
    using assms(1,3-5) r0
    by (simp add: packs_def open_align_segment_def Let_def checkpoints_of_snoc checkpoint_of_def of_nat_diff)
  moreover have "add_mem_align_op c (of_nat r) m = Inr ?m'"
    using assms(6) by (simp add: add_mem_align_op_def open_align_segment_def Let_def)
  ultimately show ?thesis by (auto simp: open_align_segment_def Let_def)
qed

text \<open>The two cases of an operation that fits in the last segment.\<close>

lemma packs_room:
  assumes "packs R m G" "R < 4294967296" "2 \<le> r" "r \<le> R" "\<not> available_rows m < of_nat r"
  obtains G0 runs run where "G = G0 @ [runs @ [run]]" "rows_of (concat (runs @ [run])) + r \<le> R" "is_run run"
    "align_checkpoints m \<noteq> []"
    "last (align_checkpoints m) = checkpoint_of (length G0) (rows_of (concat runs)) run"
    "butlast (align_checkpoints m) = checkpoints_of G0 @ segment_checkpoints (length G0) 0 runs"
proof -
  have r0: "(0 :: u32) < of_nat r" using assms(2-4) by (simp add: word_less_nat_alt)
  then have "G \<noteq> []" using assms(1,5) by (auto simp: packs_def)
  then obtain G0 rs where G: "G = G0 @ [rs]" by (metis append_butlast_last_id)
  then have "rs \<noteq> []" using assms(1) by (auto simp: packs_def division_def)
  then obtain runs run where rs: "rs = runs @ [run]" by (metis append_butlast_last_id)
  have le: "rows_of (concat rs) \<le> R" and "is_run run"
    using assms(1) by (auto simp: packs_def division_def G rs)
  have "available_rows m = of_nat (R - rows_of (concat rs))" using assms(1) by (simp add: packs_def G)
  then have "\<not> R - rows_of (concat rs) < r"
    using assms(2-5) of_nat_u32_less_iff [of "R - rows_of (concat rs)" r] by simp
  then have room: "rows_of (concat (runs @ [run])) + r \<le> R" using le by (simp add: rs)
  have cps: "align_checkpoints m = (checkpoints_of G0 @ segment_checkpoints (length G0) 0 runs) @
      [checkpoint_of (length G0) (rows_of (concat runs)) run]"
    using assms(1) by (simp add: packs_def G rs checkpoints_of_snoc segment_checkpoints_append)
  have backs: "align_checkpoints m \<noteq> []"
    "last (align_checkpoints m) = checkpoint_of (length G0) (rows_of (concat runs)) run"
    "butlast (align_checkpoints m) = checkpoints_of G0 @ segment_checkpoints (length G0) 0 runs"
    unfolding cps by (simp_all only: last_snoc butlast_snoc) simp
  show ?thesis by (rule that [OF G [unfolded rs] room \<open>is_run run\<close> backs])
qed

lemma add_op_fits:
  assumes "packs R m G" "R < 4294967296" "2 \<le> r" "r \<le> R" "\<not> available_rows m < of_nat r"
    and "in_chunk c k m (concat (concat G))"
  shows "\<exists>m' G'. add_mem_align_op c (of_nat r) m = Inr m' \<and> align_skip m' = align_skip m \<and>
    packs R m' G' \<and> concat (concat G') = concat (concat G) @ [(c, k, r)]"
proof -
  obtain G0 runs run where G: "G = G0 @ [runs @ [run]]" and room: "rows_of (concat (runs @ [run])) + r \<le> R"
    and run: "is_run run" and cps: "align_checkpoints m \<noteq> []"
    "last (align_checkpoints m) = checkpoint_of (length G0) (rows_of (concat runs)) run"
    "butlast (align_checkpoints m) = checkpoints_of G0 @ segment_checkpoints (length G0) 0 runs"
    using packs_room [OF assms(1-5)] by metis
  have avail: "available_rows m - of_nat r = of_nat (R - (rows_of (concat (runs @ [run])) + r))"
    using assms(1) room by (simp add: packs_def G of_nat_diff algebra_simps)
  have r0: "(of_nat r :: u32) \<noteq> 0" using assms(2-4) of_nat_u32_eq_0_iff [of r] by simp
  have lastG: "last (concat (concat G)) = last run" "concat (concat G) \<noteq> []" "run \<noteq> []"
    using run by (auto simp: G is_run_def)
  have chunk: "fst (last run) = fst (hd run)" using run lastG(3) by (simp add: is_run_def last_conv_nth)
  have div: "division R (G0 @ [rs'])"
    if "hd (concat rs') = hd (concat (runs @ [run]))" "rs' \<noteq> []" "\<forall>run\<in>set rs'. is_run run"
      "rows_of (concat rs') \<le> R" for rs'
    by (rule division_extend_last [of _ _ "runs @ [run]"]) (use assms(1) that in \<open>simp_all add: packs_def G\<close>)
  have runs: "\<forall>run\<in>set runs. is_run run" using assms(1) by (auto simp: packs_def division_def G)
  show ?thesis
  proof (cases "fst (last run) = c")
    case False
    let ?rs = "runs @ [run, [(c, k, r)]]"
    have k: "k = 0" using assms(6) lastG False by (auto simp: in_chunk_def split: if_splits)
    define m' where "m' = (open_chunk c (of_nat r) m)\<lparr>available_rows := available_rows m - of_nat r\<rparr>"
    have "add_mem_align_op c (of_nat r) m = Inr m'"
      using assms(5) cps False chunk
      by (simp add: add_mem_align_op_def m'_def open_chunk_def Let_def checkpoint_of_def)
    moreover have "division R (G0 @ [?rs])"
      by (rule div) (use room run runs lastG(3) in \<open>simp_all add: hd_append\<close>)
    then have "packs R m' (G0 @ [?rs])"
      using assms(1) r0 avail room
      by (simp add: packs_def m'_def open_chunk_def Let_def G checkpoints_of_snoc segment_checkpoints_append
          checkpoint_of_def k of_nat_diff algebra_simps)
    ultimately show ?thesis by (auto simp: G m'_def open_chunk_def Let_def)
  next
    case True
    let ?rs = "runs @ [run @ [(c, k, r)]]"
    have "last run = (c, k - 1, snd (snd (last run)))" "0 < k"
      using assms(6) lastG True by (auto simp: in_chunk_def prod_eq_iff split: if_splits)
    then have run': "is_run (run @ [(c, k, r)])" using is_run_snoc [OF run, of c "k - 1"] by simp
    define cp where "cp = last (align_checkpoints m)"
    define m' where "m' = m\<lparr>align_checkpoints := butlast (align_checkpoints m) @
        [cp\<lparr>cp_count := cp_count cp + 1, cp_rows := cp_rows cp + of_nat r\<rparr>],
      available_rows := available_rows m - of_nat r\<rparr>"
    have "add_mem_align_op c (of_nat r) m = Inr m'"
      using assms(5) cps True chunk
      by (simp add: add_mem_align_op_def m'_def cp_def Let_def checkpoint_of_def)
    moreover have "division R (G0 @ [?rs])"
      by (rule div) (use room run' runs lastG(3) in \<open>simp_all add: hd_append\<close>)
    then have "packs R m' (G0 @ [?rs])"
      using assms(1) avail cps(2,3) lastG(3)
      by (simp add: packs_def m'_def cp_def G checkpoints_of_snoc segment_checkpoints_append
          checkpoint_of_def algebra_simps)
    ultimately show ?thesis by (auto simp: G m'_def)
  qed
qed

text \<open>One operation, one chunk, all chunks.\<close>

lemma add_op_packs:
  assumes "packs R m G" "R < 4294967296" "2 \<le> r" "r \<le> R" "in_chunk c k m (concat (concat G))"
  shows "\<exists>m' G'. add_mem_align_op c (of_nat r) m = Inr m' \<and> align_skip m' = align_skip m \<and>
    packs R m' G' \<and> concat (concat G') = concat (concat G) @ [(c, k, r)]"
proof (cases "available_rows m < of_nat r")
  case True
  have "align_skip m = of_nat k" using assms(5) by (simp add: in_chunk_def)
  from add_op_segment [OF assms(1-4) this True, of c] obtain m'
    where "add_mem_align_op c (of_nat r) m = Inr m'" "align_skip m' = align_skip m"
      "packs R m' (G @ [[[(c, k, r)]]])" by blast
  then show ?thesis by (intro exI [of _ m'] exI [of _ "G @ [[[(c, k, r)]]]"]) simp
qed (rule add_op_fits [OF assms(1-4) _ assms(5)])

lemma packs_skip: "packs R m G \<Longrightarrow> packs R (m\<lparr>align_skip := s\<rparr>) G"
  by (simp add: packs_def)

lemma align_op_packs:
  assumes "packs R m G" "R < 4294967296" "5 \<le> R" "in_chunk c k m (concat (concat G))" "valid_bytes d"
  shows "\<exists>m' G'. align_op c d m = Inr m' \<and> packs R m' G' \<and>
    concat (concat G') = concat (concat G) @ chunk_items c k [d] \<and>
    in_chunk c (k + length (chunk_items c k [d])) m' (concat (concat G'))"
proof (cases "op_rows d")
  case None
  then show ?thesis using assms by (intro exI [of _ m] exI [of _ G]) (simp add: align_op_rows)
next
  case (Some r)
  have r: "2 \<le> r" "r \<le> R" using op_rows_bounds [OF Some] assms(3) by simp_all
  from add_op_packs [OF assms(1,2) r assms(4)] obtain m' G'
    where add: "add_mem_align_op c (of_nat r) m = Inr m'" "align_skip m' = align_skip m"
      and packs: "packs R m' G'" and items: "concat (concat G') = concat (concat G) @ [(c, k, r)]" by blast
  have "align_skip m = of_nat k" using assms(4) by (simp add: in_chunk_def)
  then have "in_chunk c (Suc k) (m'\<lparr>align_skip := align_skip m' + 1\<rparr>) (concat (concat G'))"
    using add(2) by (simp add: in_chunk_def items)
  then show ?thesis
    using add packs items Some assms(5)
    by (intro exI [of _ "m'\<lparr>align_skip := align_skip m' + 1\<rparr>"] exI [of _ G'])
      (simp add: align_op_rows packs_skip result_simps)
qed

lemma chunk_items_Cons: "chunk_items c k (d # ds) =
    chunk_items c k [d] @ chunk_items c (k + length (chunk_items c k [d])) ds"
  by (simp split: option.split)

lemma align_ops_packs:
  assumes "packs R m G" "R < 4294967296" "5 \<le> R" "in_chunk c k m (concat (concat G))" "\<forall>d\<in>set ds. valid_bytes d"
  shows "\<exists>m' G'. foldE (align_op c) ds m = Inr m' \<and> packs R m' G' \<and>
    concat (concat G') = concat (concat G) @ chunk_items c k ds"
  using assms(1,4,5)
proof (induction ds arbitrary: m G k)
  case (Cons d ds)
  have "valid_bytes d" using Cons.prems(3) by simp
  from align_op_packs [OF Cons.prems(1) assms(2,3) Cons.prems(2) this] obtain m1 G1
    where 1: "align_op c d m = Inr m1" "packs R m1 G1"
      "concat (concat G1) = concat (concat G) @ chunk_items c k [d]"
      "in_chunk c (k + length (chunk_items c k [d])) m1 (concat (concat G1))" by blast
  have "\<forall>d\<in>set ds. valid_bytes d" using Cons.prems(3) by simp
  from Cons.IH [OF 1(2,4) this] 1(1,3) show ?case
    unfolding chunk_items_Cons [of c k d ds] by (simp add: result_simps)
qed auto

lemma chunk_items_fst: "x \<in> set (chunk_items c k ds) \<Longrightarrow> fst x = c"
  by (induction ds arbitrary: k) (auto split: option.splits)

lemma items_snoc: "items (chs @ [d]) = items chs @ chunk_items (of_nat (length chs)) 0 d"
  by (simp add: items_def numbered_snoc)

lemma items_ids: "x \<in> set (items chs) \<Longrightarrow> \<exists>j<length chs. fst x = of_nat j"
proof -
  assume "x \<in> set (items chs)"
  then obtain k d where "(k, d) \<in> set (numbered chs)" "x \<in> set (chunk_items k 0 d)"
    by (auto simp: items_def)
  then show ?thesis using numbered_bound [of k d chs] chunk_items_fst [of x k 0 d] by blast
qed

lemma align_chunks_packs:
  assumes "packs R m []" "R < 4294967296" "5 \<le> R" "\<forall>ds\<in>set chs. \<forall>d\<in>set ds. valid_bytes d" "length chs \<le> 8192"
  shows "\<exists>m' G. foldE (\<lambda>(k, d). align_execute_chunk k d) (numbered chs) m = Inr m' \<and> packs R m' G \<and>
    concat (concat G) = items chs"
  using assms(4,5)
proof (induction chs rule: rev_induct)
  case Nil
  show ?case using assms(1) by (intro exI [of _ m] exI [of _ "[]"]) (simp add: items_def)
next
  case (snoc ds chs)
  then obtain m1 G1 where 1: "foldE (\<lambda>(k, d). align_execute_chunk k d) (numbered chs) m = Inr m1"
    "packs R m1 G1" "concat (concat G1) = items chs" by auto
  let ?c = "of_nat (length chs) :: u32"
  have "fst (last (items chs)) \<noteq> ?c" if ne: "items chs \<noteq> []"
  proof -
    obtain j where "j < length chs" "fst (last (items chs)) = of_nat j"
      using items_ids [OF last_in_set [OF ne]] by blast
    then show ?thesis using of_nat_u32_eq_iff [of j "length chs"] snoc.prems(2) by simp
  qed
  then have "in_chunk ?c 0 (m1\<lparr>align_skip := 0\<rparr>) (concat (concat G1))"
    using 1(3) by (auto simp: in_chunk_def)
  from align_ops_packs [OF packs_skip [OF 1(2)] assms(2,3) this, of ds] snoc.prems(1) obtain m' G'
    where "align_execute_chunk ?c ds m1 = Inr m'" "packs R m' G'"
      "concat (concat G') = concat (concat G1) @ chunk_items ?c 0 ds"
    by (auto simp: align_execute_chunk_def)
  then show ?case
    using 1(1,3) by (intro exI [of _ m'] exI [of _ G']) (simp add: numbered_snoc foldE_append items_snoc)
qed

text \<open>The whole run on a completed context.\<close>

lemma align_execute_packs:
  assumes "context_holds ctx chs" "chunks_completed ctx" "5 \<le> R" "R < 4294967296"
    and "\<forall>ds\<in>set chs. \<forall>d\<in>set ds. valid_bytes d"
  shows "\<exists>m G. align_execute ctx (align_new (of_nat R)) = Some (Inr m) \<and> packs R m G \<and>
    concat (concat G) = items chs"
  using align_chunks_packs [OF packs_new assms(4,3,5)] assms(1)
    context_source.chunk_loop_all [of ctx chs align_execute_chunk "align_new (of_nat R)"] assms(1,2)
  by (auto simp: align_execute_def context_holds_def)

text \<open>An operation of another width stops the run.\<close>

lemma align_execute_invalid:
  assumes "context_holds ctx chs" "chunks_completed ctx" "foldE (\<lambda>(k, d). align_execute_chunk k d) (numbered chs) m = Inl e"
  shows "align_execute ctx m = Some (Inl e)"
  using context_source.chunk_loop_all [of ctx chs align_execute_chunk m] assms by (simp add: align_execute_def)

subsection \<open>Properties\<close>

text \<open>
  C12: The run of the alignment counter over a completed context of operations of valid width returns, and its check
  points are those of a division of the unaligned operations, in order, into segments: no segment has more than
  \<open>rows\<close> rows, a segment ends only when the next operation does not fit, and each check point stands for consecutive
  operations of one chunk, with the number to skip, the operations, their rows and the offset in the segment.
\<close>

theorem align_divides_operations:
  assumes "context_holds ctx chs" "chunks_completed ctx" "5 \<le> R" "R < 4294967296"
    and "\<forall>ds\<in>set chs. \<forall>d\<in>set ds. valid_bytes d"
  shows "\<exists>m G. align_execute ctx (align_new (of_nat R)) = Some (Inr m) \<and> division R G \<and>
    concat (concat G) = items chs \<and> align_checkpoints m = checkpoints_of G"
  using align_execute_packs [OF assms] by (auto simp: packs_def)

text \<open>Two crossing writes of chunk 0: three plus five rows need two segments of five.\<close>

definition align_ctx :: MemContext where
  "align_ctx = \<lparr>chunks = (\<lambda>_. [\<lparr>bus_addr = 0xA0000001, bus_flags = 0x10004\<rparr>, \<lparr>bus_addr = 0xA0000007, bus_flags = 0x10004\<rparr>]),
    chunks_count = 1, chunks_completed = True\<rparr>"

theorem align_divides_operations_witness:
  "\<exists>m G. align_execute align_ctx (align_new 5) = Some (Inr m) \<and> division 5 G \<and>
    concat (concat G) = [(0, 0, 3), (0, 1, 5)] \<and> align_checkpoints m = checkpoints_of G"
proof -
  let ?ds = "[\<lparr>bus_addr = 0xA0000001, bus_flags = 0x10004\<rparr>, \<lparr>bus_addr = 0xA0000007, bus_flags = 0x10004\<rparr>]"
  have ctx: "context_holds align_ctx [?ds]" "chunks_completed align_ctx"
    by (simp_all add: context_holds_def align_ctx_def)
  have "items [?ds] = [(0, 0, 3), (0, 1, 5)]"
    by (simp add: items_def numbered_def op_rows_def Let_def)
  moreover have "\<forall>ds\<in>set [?ds]. \<forall>d\<in>set ds. valid_bytes d" by (simp add: valid_bytes_def)
  ultimately show ?thesis using align_divides_operations [OF ctx, of 5] by simp
qed

lemma numbered_split: "\<exists>zs. numbered (xs @ x # ys) = numbered xs @ (of_nat (length xs), x) # zs"
proof (induction ys rule: rev_induct)
  case Nil
  then show ?case by (auto simp: numbered_snoc)
next
  case (snoc y ys)
  then obtain zs where "numbered (xs @ x # ys) = numbered xs @ (of_nat (length xs), x) # zs" ..
  with numbered_snoc [of "xs @ x # ys" y] show ?case by auto
qed

text \<open>
  The assertion on the width of an operation. A completed context that contains an operation whose width is not 1,
  2, 4 or 8 stops the alignment counter with a failed assertion, wherever the operation is.
\<close>

theorem align_asserts_width:
  assumes "context_holds ctx chs" "chunks_completed ctx" "5 \<le> R" "R < 4294967296"
    and "\<exists>ds\<in>set chs. \<exists>d\<in>set ds. \<not> valid_bytes d"
  shows "align_execute ctx (align_new (of_nat R)) = Some (Inl Assertion_failed)"
proof -
  let ?bad = "\<lambda>ds. \<exists>d\<in>set ds. \<not> valid_bytes d"
  from assms(5) obtain c1 ds c2 where chs: "chs = c1 @ ds # c2" "?bad ds" "\<forall>ds\<in>set c1. \<not> ?bad ds"
    using split_list_first_prop [of chs ?bad] by blast
  then obtain d1 d d2 where ds: "ds = d1 @ d # d2" "\<not> valid_bytes d" "\<forall>d\<in>set d1. valid_bytes d"
    using split_list_first_prop [of ds "\<lambda>d. \<not> valid_bytes d"] by blast
  let ?c = "of_nat (length c1) :: u32" and ?m = "align_new (of_nat R)"
  have len: "length chs \<le> 8192" using assms(1) by (simp add: context_holds_def)
  have "\<forall>ds\<in>set (c1 @ [d1]). \<forall>d\<in>set ds. valid_bytes d" using chs(3) ds(3) by auto
  from align_chunks_packs [OF packs_new assms(4,3) this] len chs(1)
  obtain m' where "foldE (\<lambda>(k, d). align_execute_chunk k d) (numbered (c1 @ [d1])) ?m = Inr m'" by auto
  then obtain m1 where m1: "foldE (\<lambda>(k, d). align_execute_chunk k d) (numbered c1) ?m = Inr m1"
    "align_execute_chunk ?c d1 m1 = Inr m'" by (auto simp: numbered_snoc foldE_append)
  then have chunk: "align_execute_chunk ?c ds m1 = Inl Assertion_failed"
    by (simp add: align_execute_chunk_def ds(1) foldE_append align_op_invalid [OF ds(2)])
  obtain zs where "numbered chs = numbered c1 @ (?c, ds) # zs" using numbered_split [of c1 ds c2] chs(1) by auto
  then have "foldE (\<lambda>(k, d). align_execute_chunk k d) (numbered chs) ?m = Inl Assertion_failed"
    by (simp add: foldE_append m1(1) chunk)
  then show ?thesis by (rule align_execute_invalid [OF assms(1,2)])
qed

theorem align_asserts_width_witness:
  "align_execute \<lparr>chunks = (\<lambda>_. [\<lparr>bus_addr = 0xA0000000, bus_flags = 3\<rparr>]), chunks_count = 1, chunks_completed = True\<rparr>
    (align_new 4194304) = Some (Inl Assertion_failed)"
  using align_asserts_width [of "\<lparr>chunks = (\<lambda>_. [\<lparr>bus_addr = 0xA0000000, bus_flags = 3\<rparr>]), chunks_count = 1,
      chunks_completed = True\<rparr>" "[[\<lparr>bus_addr = 0xA0000000, bus_flags = 3\<rparr>]]" 4194304]
  by (simp add: context_holds_def valid_bytes_def)

end
