(* ===== verification/Context_Protocol.thy ===== *)
theory Context_Protocol
  imports Mem_Context
begin

text \<open>
  The protocol between the thread that publishes chunks (\<open>MemContext::add_chunk\<close>, \<open>set_completed\<close>) and the
  counter threads that read them (\<open>MemContext::get_chunk\<close> in the loop of \<open>execute\<close>): one step per atomic access,
  sequentially consistent, any number of readers. Every reader has always received a prefix of the published chunks,
  in order. It need not have received all of them when it stops: \<open>get_chunk\<close> loads the count before the completion
  flag, and \<open>stops_early\<close> is the run in which the last chunk is published in between.
\<close>

subsection \<open>The steps\<close>

text \<open>
  A reader is at the load of \<open>chunks_count\<close> for a chunk (\<open>Fetch k\<close>), at the load of \<open>chunks_completed\<close> after
  the chunk was not there (\<open>Check k\<close>), or has left the loop.
\<close>

datatype reader = Fetch u32 | Check u32 | Left

record protocol_state =
  ctx :: MemContext
  storing :: bool
  readers :: "nat \<Rightarrow> reader"
  received :: "nat \<Rightarrow> MemChunk list"

definition protocol_start :: "(u32 \<Rightarrow> MemChunk) \<Rightarrow> protocol_state" where
  "protocol_start chunks0 =
    \<lparr>ctx = context_new chunks0, storing = False, readers = (\<lambda>_. Fetch 0), received = (\<lambda>_. [])\<rparr>"

inductive protocol_step :: "protocol_state \<Rightarrow> protocol_state \<Rightarrow> bool" where
  store_chunk: "\<not> storing s \<Longrightarrow> \<not> chunks_completed (ctx s) \<Longrightarrow> chunks_count (ctx s) < MAX_CHUNKS \<Longrightarrow>
    protocol_step s (s\<lparr>ctx := (ctx s)\<lparr>chunks := (chunks (ctx s))(chunks_count (ctx s) := d)\<rparr>, storing := True\<rparr>)"
| publish_chunk: "storing s \<Longrightarrow>
    protocol_step s (s\<lparr>ctx := (ctx s)\<lparr>chunks_count := chunks_count (ctx s) + 1\<rparr>, storing := False\<rparr>)"
| complete: "\<not> storing s \<Longrightarrow> protocol_step s (s\<lparr>ctx := context_set_completed (ctx s)\<rparr>)"
| fetch_chunk: "readers s t = Fetch k \<Longrightarrow> k < chunks_count (ctx s) \<Longrightarrow>
    protocol_step s (s\<lparr>readers := (readers s)(t := Fetch (k + 1)),
      received := (received s)(t := received s t @ [chunks (ctx s) k])\<rparr>)"
| fetch_none: "readers s t = Fetch k \<Longrightarrow> k \<ge> chunks_count (ctx s) \<Longrightarrow>
    protocol_step s (s\<lparr>readers := (readers s)(t := Check k)\<rparr>)"
| check_completed: "readers s t = Check k \<Longrightarrow> chunks_completed (ctx s) \<Longrightarrow>
    protocol_step s (s\<lparr>readers := (readers s)(t := Left)\<rparr>)"
| check_again: "readers s t = Check k \<Longrightarrow> \<not> chunks_completed (ctx s) \<Longrightarrow>
    protocol_step s (s\<lparr>readers := (readers s)(t := Fetch k)\<rparr>)"

inductive_cases protocol_stepE: "protocol_step s s'"

subsection \<open>Readers receive prefixes\<close>

definition published :: "protocol_state \<Rightarrow> MemChunk list" where
  "published s = map (chunks (ctx s)) (words 0 (unat (chunks_count (ctx s))))"

fun reader_at :: "reader \<Rightarrow> u32 \<Rightarrow> bool" where
  "reader_at (Fetch k) j \<longleftrightarrow> j = k"
| "reader_at (Check k) j \<longleftrightarrow> j = k"
| "reader_at Left j \<longleftrightarrow> True"

definition protocol_inv :: "protocol_state \<Rightarrow> bool" where
  "protocol_inv s \<longleftrightarrow> chunks_count (ctx s) \<le> MAX_CHUNKS \<and>
    (storing s \<longrightarrow> chunks_count (ctx s) < MAX_CHUNKS) \<and>
    (\<forall>t. \<exists>k. reader_at (readers s t) k \<and> k \<le> chunks_count (ctx s) \<and>
      received s t = map (chunks (ctx s)) (words 0 (unat k)))"

lemma words_snoc: "words 0 (Suc n) = words 0 n @ [of_nat n]"
  by (simp add: words_def)

lemma published_stored: "map (f(c := d)) (words 0 (unat k)) = map f (words 0 (unat k))" if "k \<le> c"
proof -
  have "(of_nat i :: u32) \<noteq> c" if "i < unat k" for i
    using that \<open>k \<le> c\<close> unat_u32_bound [of k] by (auto simp: word_le_nat_alt)
  then show ?thesis by (auto simp: words_def)
qed

lemma protocol_inv_start: "protocol_inv (protocol_start chunks0)"
  by (simp add: protocol_inv_def protocol_start_def context_new_def)

lemma reader_inv:
  assumes "protocol_inv s" "readers s t = Fetch k \<or> readers s t = Check k"
  shows "k \<le> chunks_count (ctx s)" "received s t = map (chunks (ctx s)) (words 0 (unat k))"
proof -
  obtain j where "reader_at (readers s t) j" "j \<le> chunks_count (ctx s)"
    "received s t = map (chunks (ctx s)) (words 0 (unat j))"
    using assms(1) unfolding protocol_inv_def by blast
  moreover from this(1) assms(2) have "j = k" by auto
  ultimately show "k \<le> chunks_count (ctx s)" "received s t = map (chunks (ctx s)) (words 0 (unat k))" by simp_all
qed

lemma unat_next: "c < MAX_CHUNKS \<Longrightarrow> unat (c + 1) = Suc (unat c)"
  by (subst unat_plus_u32) (simp_all add: word_less_nat_alt)

lemma protocol_inv_step:
  assumes inv: "protocol_inv s" and "protocol_step s s'"
  shows "protocol_inv s'"
  using assms(2)
proof (cases rule: protocol_step.cases)
  case (store_chunk d)
  have "\<exists>k. reader_at (readers s t) k \<and> k \<le> chunks_count (ctx s) \<and> received s t =
      map ((chunks (ctx s))(chunks_count (ctx s) := d)) (words 0 (unat k))" for t
  proof -
    obtain k where k: "reader_at (readers s t) k" "k \<le> chunks_count (ctx s)"
      "received s t = map (chunks (ctx s)) (words 0 (unat k))"
      using inv unfolding protocol_inv_def by blast
    then show ?thesis by (intro exI [of _ k]) (simp only: published_stored simp_thms)
  qed
  then show ?thesis using inv store_chunk by (simp add: protocol_inv_def)
next
  case publish_chunk
  then have c: "chunks_count (ctx s) < MAX_CHUNKS" using inv by (simp add: protocol_inv_def)
  then have le: "chunks_count (ctx s) + 1 \<le> MAX_CHUNKS" "k \<le> chunks_count (ctx s) \<Longrightarrow> k \<le> chunks_count (ctx s) + 1" for k
    using unat_next [OF c] by (simp_all add: word_le_nat_alt word_less_nat_alt)
  have "\<forall>t. \<exists>k. reader_at (readers s t) k \<and> k \<le> chunks_count (ctx s) + 1 \<and>
      received s t = map (chunks (ctx s)) (words 0 (unat k))"
    using inv le(2) unfolding protocol_inv_def by blast
  then show ?thesis using le(1) publish_chunk by (simp add: protocol_inv_def)
next
  case (fetch_chunk t k)
  then have "k < MAX_CHUNKS" using inv by (auto simp: protocol_inv_def)
  from unat_next [OF this] fetch_chunk(3)
  have "k + 1 \<le> chunks_count (ctx s)" "received s t = map (chunks (ctx s)) (words 0 (unat k)) \<Longrightarrow>
      received s t @ [chunks (ctx s) k] = map (chunks (ctx s)) (words 0 (unat (k + 1)))"
    by (simp_all add: words_snoc word_le_nat_alt word_less_nat_alt)
  moreover have "received s t = map (chunks (ctx s)) (words 0 (unat k))"
    using reader_inv [OF inv] fetch_chunk(2) by blast
  ultimately show ?thesis using inv fetch_chunk(1) by (simp add: protocol_inv_def)
next
  case complete
  then show ?thesis using inv by (simp add: protocol_inv_def context_set_completed_def)
next
  case (fetch_none t k)
  then show ?thesis using inv reader_inv [OF inv, of t k] by (simp add: protocol_inv_def)
next
  case (check_completed t k)
  then show ?thesis using inv by (auto simp: protocol_inv_def)
next
  case (check_again t k)
  then show ?thesis using inv reader_inv [OF inv, of t k] by (simp add: protocol_inv_def)
qed

interpretation context_protocol: protocol_invariant protocol_step protocol_start protocol_inv
  by unfold_locales (fact protocol_inv_start protocol_inv_step)+

lemma received_prefix:
  assumes "protocol_inv s"
  shows "\<exists>n\<le>length (published s). received s t = take n (published s)"
proof -
  from assms obtain k where "k \<le> chunks_count (ctx s)" and r: "received s t = map (chunks (ctx s)) (words 0 (unat k))"
    by (auto simp: protocol_inv_def)
  then have "unat k \<le> unat (chunks_count (ctx s))" by (simp add: word_le_nat_alt)
  then show ?thesis
    unfolding r published_def by (intro exI [of _ "unat k"]) (simp add: words_def take_map)
qed

subsection \<open>Properties\<close>

text \<open>
  Under any interleaving of the publishing thread and of any number of readers, every reader has received a prefix
  of the published chunks, in order and with their published content.
\<close>

theorem readers_receive_prefixes:
  assumes "reachable protocol_step (protocol_start chunks0) s"
  shows "\<forall>t. \<exists>n\<le>length (published s). received s t = take n (published s)"
  using received_prefix [OF context_protocol.reachable_inv [OF assms]] by blast

text \<open>The states of the two runs below: one chunk \<open>d\<close> published and completed, with the readers at \<open>rs\<close>.\<close>

definition one_chunk :: "(u32 \<Rightarrow> MemChunk) \<Rightarrow> MemChunk \<Rightarrow> (nat \<Rightarrow> reader) \<Rightarrow> (nat \<Rightarrow> MemChunk list) \<Rightarrow> protocol_state" where
  "one_chunk chunks0 d rs rcv =
    \<lparr>ctx = \<lparr>chunks = chunks0(0 := d), chunks_count = 1, chunks_completed = True\<rparr>, storing = False, readers = rs,
     received = rcv\<rparr>"

definition no_chunk :: "(u32 \<Rightarrow> MemChunk) \<Rightarrow> (nat \<Rightarrow> reader) \<Rightarrow> protocol_state" where
  "no_chunk chunks0 rs = \<lparr>ctx = context_new chunks0, storing = False, readers = rs, received = (\<lambda>_. [])\<rparr>"

lemma reach_one_chunk:
  assumes "reachable protocol_step s0 (no_chunk chunks0 rs)"
  shows "reachable protocol_step s0 (one_chunk chunks0 d rs (\<lambda>_. []))"
proof -
  have w: "\<not> storing (no_chunk chunks0 rs)" "\<not> chunks_completed (ctx (no_chunk chunks0 rs))"
    "chunks_count (ctx (no_chunk chunks0 rs)) < MAX_CHUNKS"
    by (simp_all add: no_chunk_def context_new_def)
  from reachable_step [OF assms, OF store_chunk [OF w, of d]]
  have 1: "reachable protocol_step s0 ((no_chunk chunks0 rs)\<lparr>ctx := (context_new chunks0)\<lparr>chunks := chunks0(0 := d)\<rparr>,
      storing := True\<rparr>)" (is "reachable _ _ ?s1")
    by (simp add: no_chunk_def context_new_def)
  have "storing ?s1" by simp
  from reachable_step [OF 1, OF publish_chunk [OF this]]
  have 2: "reachable protocol_step s0 ((no_chunk chunks0 rs)\<lparr>ctx := (context_new chunks0)\<lparr>chunks := chunks0(0 := d),
      chunks_count := 1\<rparr>\<rparr>)" (is "reachable _ _ ?s2")
    by (simp add: no_chunk_def context_new_def)
  have "\<not> storing ?s2" by (simp add: no_chunk_def)
  from reachable_step [OF 2, OF complete [OF this]] show ?thesis
    by (simp add: no_chunk_def context_new_def context_set_completed_def one_chunk_def)
qed

lemma start_no_chunk: "protocol_start chunks0 = no_chunk chunks0 (\<lambda>_. Fetch 0)"
  by (simp add: protocol_start_def no_chunk_def)

theorem readers_receive_prefixes_witness:
  "\<exists>s. reachable protocol_step (protocol_start (\<lambda>_. [])) s \<and> received s 2 = [[\<lparr>bus_addr = 1, bus_flags = 8\<rparr>]] \<and>
    (\<forall>t. \<exists>n\<le>length (published s). received s t = take n (published s))"
proof -
  let ?d = "[\<lparr>bus_addr = 1, bus_flags = 8\<rparr>]"
  have r: "reachable protocol_step (protocol_start (\<lambda>_. [])) (one_chunk (\<lambda>_. []) ?d (\<lambda>_. Fetch 0) (\<lambda>_. []))"
    by (rule reach_one_chunk) (use reachable_start in \<open>simp add: start_no_chunk\<close>)
  have "readers (one_chunk (\<lambda>_. []) ?d (\<lambda>_. Fetch 0) (\<lambda>_. [])) 2 = Fetch 0"
    "0 < chunks_count (ctx (one_chunk (\<lambda>_. []) ?d (\<lambda>_. Fetch 0) (\<lambda>_. [])))"
    by (simp_all add: one_chunk_def)
  from reachable_step [OF r, OF fetch_chunk [OF this]] obtain s
    where s: "reachable protocol_step (protocol_start (\<lambda>_. [])) s" "received s 2 = [?d]"
    by (auto simp: one_chunk_def)
  from readers_receive_prefixes [OF s(1)] s show ?thesis by blast
qed

text \<open>
  A reader can miss chunks. \<open>get_chunk\<close> loads the number of chunks, then the completion flag; when the last chunk
  and the completion are published in between, the reader leaves its loop without the chunk.
\<close>

theorem reader_misses_chunk:
  "\<exists>s. reachable protocol_step (protocol_start chunks0) s \<and> readers s t = Left \<and> received s t = [] \<and>
    published s = [d] \<and> chunks_completed (ctx s)"
proof -
  have "reachable protocol_step (protocol_start chunks0) (no_chunk chunks0 (\<lambda>_. Fetch 0))"
    unfolding start_no_chunk by (rule reachable_start)
  from reachable_step [OF this, OF fetch_none [of _ t 0]]
  have "reachable protocol_step (protocol_start chunks0) (no_chunk chunks0 ((\<lambda>_. Fetch 0)(t := Check 0)))"
    by (simp add: no_chunk_def context_new_def)
  from reachable_step [OF reach_one_chunk [OF this, of d], OF check_completed [of _ t 0]]
  have "reachable protocol_step (protocol_start chunks0)
      (one_chunk chunks0 d (((\<lambda>_. Fetch 0)(t := Check 0))(t := Left)) (\<lambda>_. []))"
    by (simp add: one_chunk_def)
  then show ?thesis
    by (intro exI conjI) (assumption, simp_all add: one_chunk_def published_def words_def)
qed

end
