(* ===== verification/Planner_Stream.thy ===== *)
theory Planner_Stream
  imports Chain_Walk
begin

text \<open>
  What the planners share: the vector of counters, the range of offsets of a page over all counters, and the order
  in which they visit the tables. The specification is the stream of entries (\<open>stream\<close>): pages in order, offsets
  of a page in order, the eight counters of an offset in order, the entries of a chain in order. The lemmas show that
  loops bounded by the recorded offsets visit every entry of their pages.
\<close>

subsection \<open>Operations\<close>

definition worker :: "MemCounter list \<Rightarrow> u32 \<Rightarrow> MemCounter res" where
  "worker ws i = (if unat i < length ws then Inr (ws ! unat i) else Inl Out_of_bounds)"

definition limits_read :: "MemCounter \<Rightarrow> u32 \<Rightarrow> (u32 \<times> u32) res" where
  "limits_read w page =
    (if page < MAX_PAGES then Inr (first_offset w page, last_offset w page) else Inl Out_of_bounds)"

definition worker_limits :: "MemCounter list \<Rightarrow> u32 \<Rightarrow> u32 \<Rightarrow> (u32 \<times> u32) res" where
  "worker_limits ws page i = bindE (worker ws i) (\<lambda>w. limits_read w page)"

definition get_offset_limits :: "MemCounter list \<Rightarrow> u32 \<Rightarrow> (u32 \<times> u32) res" where
  "get_offset_limits ws page =
    bindE (worker_limits ws page 0)
      (foldE (\<lambda>i (first, last). bindE (worker_limits ws page i) (\<lambda>(f, l). Inr (min first f, max last l)))
        (words 1 8))"

definition get_max_offset :: "MemCounter list \<Rightarrow> u32 \<Rightarrow> u32 res" where
  "get_max_offset ws page =
    bindE (worker_limits ws page 0) (\<lambda>(_, last).
      foldE (\<lambda>i last. bindE (worker_limits ws page i) (\<lambda>(_, l). Inr (max last l))) (words 1 8) last)"

text \<open>The pages a planner covers: the one of \<open>from_addr\<close> and the one of its last byte.\<close>

definition planner_pages :: "u32 \<Rightarrow> u32 \<Rightarrow> (u32 \<times> u32) res" where
  "planner_pages a mb_size =
    bindE (addr_to_page a) (\<lambda>from_page.
    bindE (addr_to_page (a + (mb_size * 1024 * 1024) - 1)) (\<lambda>to_page.
    bindE (page_to_addr (ucast from_page)) (\<lambda>base.
    if base \<noteq> a then Inl (Planner_not_aligned a from_page) else Inr (from_page, to_page))))"

subsection \<open>The stream of entries\<close>

record stream_entry =
  e_thread :: u32
  e_offset :: u32
  e_pos :: u32
  e_chunk :: u32
  e_count :: u32

text \<open>
  \<open>P i off\<close> and \<open>V i off\<close> are the positions and the entries of offset \<open>off\<close> in counter \<open>i\<close>, as
  \<open>reads_as\<close> describes them.
\<close>

type_synonym 'a per_cell = "u32 \<Rightarrow> u32 \<Rightarrow> 'a list"

definition workers_read :: "MemCounter list \<Rightarrow> u32 per_cell \<Rightarrow> (u32 \<times> u32) per_cell \<Rightarrow> bool" where
  "workers_read ws P V \<longleftrightarrow> length ws = 8 \<and> (\<forall>i<8. reads_as (ws ! unat i) (P i) (V i))"

fun cell_entries :: "u32 per_cell \<Rightarrow> (u32 \<times> u32) per_cell \<Rightarrow> u32 \<times> u32 \<Rightarrow> stream_entry list" where
  "cell_entries P V (off, i) =
    map (\<lambda>(p, c, n). \<lparr>e_thread = i, e_offset = off, e_pos = p, e_chunk = c, e_count = n\<rparr>) (zip (P i off) (V i off))"

definition row_cells :: "u32 \<Rightarrow> (u32 \<times> u32) list" where
  "row_cells off = map (Pair off) (words 0 8)"

definition page_cells :: "nat \<Rightarrow> (u32 \<times> u32) list" where
  "page_cells p = concat (map row_cells (words (p * 1048576) (Suc p * 1048576)))"

definition cells :: "nat \<Rightarrow> nat \<Rightarrow> (u32 \<times> u32) list" where
  "cells from_page to_page = concat (map page_cells [from_page..<to_page])"

definition stream :: "u32 per_cell \<Rightarrow> (u32 \<times> u32) per_cell \<Rightarrow> nat \<Rightarrow> nat \<Rightarrow> stream_entry list" where
  "stream P V from_page to_page = concat (map (cell_entries P V) (cells from_page to_page))"

abbreviation busy :: "(u32 \<times> u32) per_cell \<Rightarrow> u32 \<times> u32 \<Rightarrow> bool" where
  "busy V \<equiv> \<lambda>(off, i). V i off \<noteq> []"

lemma workers_readD:
  assumes "workers_read ws P V" "i < 8"
  shows "worker ws i = Inr (ws ! unat i)" and "reads_as (ws ! unat i) (P i) (V i)"
  using assms by (simp_all add: workers_read_def worker_def word_less_nat_alt)

lemma cell_entries_Nil_iff:
  assumes "workers_read ws P V" "i < 8"
  shows "cell_entries P V (off, i) = [] \<longleftrightarrow> V i off = []"
proof -
  have "length (P i off) = length (V i off)"
    using counter_reader.positions [OF workers_readD(2) [OF assms], of off] by blast
  then have "zip (P i off) (V i off) = [] \<longleftrightarrow> V i off = []"
    by (metis length_0_conv length_zip min.idem)
  then show ?thesis by simp
qed

lemma concat_map_filter: "(\<And>x. x \<in> set xs \<Longrightarrow> \<not> Q x \<Longrightarrow> f x = []) \<Longrightarrow> concat (map f (filter Q xs)) = concat (map f xs)"
  by (induction xs) auto

subsection \<open>The range of a page\<close>

lemma offset_to_page_words:
  "offset_to_page off = of_nat (unat off div 1048576)"
  by (rule word_eq_of_nat) (simp add: offset_to_page_def unat_drop_bit_u32)

lemma page_of_offset: "p < 20 \<Longrightarrow> offset_to_page off = of_nat p \<longleftrightarrow> p * 1048576 \<le> unat off \<and> unat off < Suc p * 1048576"
proof -
  assume "p < 20"
  have "unat off div 1048576 < 4294967296" using unat_u32_bound [of off] by (simp add: less_mult_imp_div_less)
  then have "offset_to_page off = of_nat p \<longleftrightarrow> unat off div 1048576 = p"
    using \<open>p < 20\<close> of_nat_u32_eq_iff [of "unat off div 1048576" p] by (simp add: offset_to_page_words)
  also have "\<dots> \<longleftrightarrow> p * 1048576 \<le> unat off \<and> unat off < Suc p * 1048576"
    by (auto simp: div_nat_eqI dividend_less_div_times)
  finally show ?thesis .
qed

lemma reads_as_limits:
  assumes "reads_as w P V"
  shows "limits_ok w (used V)"
proof -
  obtain B E where rep: "rep w B E" and V: "V = (\<lambda>off. visible (B off) (E off))"
    using assms by (auto simp: reads_as_def)
  have "visible (B off) (E off) = [] \<longleftrightarrow> E off = []" for off
    using rep_chain [OF rep, of off] visible_nonempty [of "B off" "E off"]
    by (auto simp: chain_def visible_def)
  then show ?thesis using rep by (simp add: V rep_def)
qed

text \<open>
  What the recorded limits of the counters \<open>I\<close> are for a page: nothing to visit, or a range of the page that
  holds its used offsets.
\<close>

definition covers :: "(u32 \<times> u32) per_cell \<Rightarrow> u32 set \<Rightarrow> nat \<Rightarrow> u32 \<Rightarrow> u32 \<Rightarrow> bool" where
  "covers V I p lo hi \<longleftrightarrow>
    (\<forall>i\<in>I. \<forall>off. V i off \<noteq> [] \<and> offset_to_page off = of_nat p \<longrightarrow> lo \<le> off \<and> off \<le> hi) \<and>
    (lo = 0xFFFFFFFF \<and> hi = 0 \<or> lo \<le> hi \<and> offset_to_page lo = of_nat p \<and> offset_to_page hi = of_nat p)"

lemma covers_one:
  assumes "limits_ok w (used (V i))"
  shows "covers V {i} p (first_offset w (of_nat p)) (last_offset w (of_nat p))"
proof (cases "\<exists>off. V i off \<noteq> [] \<and> offset_to_page off = of_nat p")
  case True
  let ?lo = "first_offset w (of_nat p)" and ?hi = "last_offset w (of_nat p)"
  have "V i ?lo \<noteq> []" "offset_to_page ?lo = of_nat p" "offset_to_page ?hi = of_nat p"
    using assms True by (auto simp: limits_ok_def split: if_splits)
  moreover have range: "?lo \<le> off \<and> off \<le> ?hi" if "V i off \<noteq> []" "offset_to_page off = of_nat p" for off
    using assms that by (auto simp: limits_ok_def)
  ultimately show ?thesis by (auto simp: covers_def)
next
  case False
  then show ?thesis using assms by (auto simp: limits_ok_def covers_def)
qed

lemma covers_join:
  assumes "covers V I p lo hi" "covers V J p lo' hi'"
  shows "covers V (I \<union> J) p (min lo lo') (max hi hi')"
proof -
  have top: "x \<le> 0xFFFFFFFF" for x :: u32
    by (simp add: word_le_nat_alt) (use unat_u32_bound [of x] in linarith)
  have "(min lo lo' = 0xFFFFFFFF \<and> max hi hi' = 0) \<or> (min lo lo' \<le> max hi hi' \<and>
      offset_to_page (min lo lo') = of_nat p \<and> offset_to_page (max hi hi') = of_nat p)"
    using assms top [of lo] top [of lo'] unfolding covers_def by (auto simp: min_def max_def)
  then show ?thesis
    using assms unfolding covers_def by (auto simp: min_le_iff_disj le_max_iff_disj)
qed

lemma workers_limits:
  assumes "workers_read ws P V" "i < 8" "p < 20"
  obtains lo hi where "worker_limits ws (of_nat p) i = Inr (lo, hi)" "covers V {i} p lo hi"
proof
  let ?w = "ws ! unat i"
  show "worker_limits ws (of_nat p) i = Inr (first_offset ?w (of_nat p), last_offset ?w (of_nat p))"
    using workers_readD(1) [OF assms(1,2)] assms(3)
    by (simp add: worker_limits_def limits_read_def word_less_nat_alt)
  show "covers V {i} p (first_offset ?w (of_nat p)) (last_offset ?w (of_nat p))"
    by (rule covers_one) (rule reads_as_limits [OF workers_readD(2) [OF assms(1,2)]])
qed

lemma fold_limits:
  assumes "workers_read ws P V" "p < 20" "\<forall>i\<in>set is. i < 8" "covers V I p lo hi"
  shows "\<exists>lo' hi'.
    foldE (\<lambda>i (first, last). bindE (worker_limits ws (of_nat p) i) (\<lambda>(f, l). Inr (min first f, max last l)))
      is (lo, hi) = Inr (lo', hi') \<and>
    foldE (\<lambda>i last. bindE (worker_limits ws (of_nat p) i) (\<lambda>(_, l). Inr (max last l))) is hi = Inr hi' \<and>
    covers V (I \<union> set is) p lo' hi'"
  using assms(3,4)
proof (induction "is" arbitrary: I lo hi)
  case (Cons i "is")
  obtain f l where fl: "worker_limits ws (of_nat p) i = Inr (f, l)" "covers V {i} p f l"
    using workers_limits [OF assms(1) _ assms(2), of i] Cons.prems(1) by auto
  have "covers V (insert i I) p (min lo f) (max hi l)"
    using covers_join [OF Cons.prems(2) fl(2)] by simp
  from Cons.IH [OF _ this] Cons.prems(1) fl(1) show ?case by simp
qed simp

lemma offset_limits:
  assumes "workers_read ws P V" "p < 20"
  shows "\<exists>lo hi. get_offset_limits ws (of_nat p) = Inr (lo, hi) \<and> get_max_offset ws (of_nat p) = Inr hi \<and>
    covers V {i. i < 8} p lo hi"
proof -
  obtain lo hi where 0: "worker_limits ws (of_nat p) 0 = Inr (lo, hi)" "covers V {0} p lo hi"
    using workers_limits [OF assms(1) _ assms(2), of 0] by auto
  have "\<forall>i\<in>set (words 1 8). i < 8" using lanes_words by auto
  from fold_limits [OF assms this 0(2)] show ?thesis
    by (simp add: get_offset_limits_def get_max_offset_def 0(1) lanes_words)
qed

subsection \<open>The visited cells\<close>

text \<open>The cells of a page a loop over its range visits are those of the page that hold entries, and empty ones.\<close>

definition range_cells :: "u32 \<Rightarrow> u32 \<Rightarrow> (u32 \<times> u32) list" where
  "range_cells lo hi = concat (map row_cells (words (unat lo) (Suc (unat hi))))"

lemma in_row_cells: "(off', i) \<in> set (row_cells off) \<longleftrightarrow> off' = off \<and> i < 8"
  unfolding row_cells_def using lanes_words by (auto simp: words_Cons [of 0 8])

lemma in_page_cells:
  assumes "p < 20"
  shows "(off, i) \<in> set (page_cells p) \<longleftrightarrow> offset_to_page off = of_nat p \<and> i < 8"
proof -
  have "off \<in> set (words (p * 1048576) (Suc p * 1048576)) \<longleftrightarrow> offset_to_page off = of_nat p"
    unfolding page_of_offset [OF assms] in_words
    using assms by (auto intro!: exI [of _ "unat off"])
  then show ?thesis by (auto simp: page_cells_def in_row_cells)
qed

lemma covers_cells:
  assumes "covers V {i. i < 8} p lo hi" "p < 20"
  shows "filter (busy V) (range_cells lo hi) = filter (busy V) (page_cells p)"
    and "(off, i) \<in> set (range_cells lo hi) \<Longrightarrow> off < ADDR_TABLE_SIZE \<and> i < 8"
    and "unat hi < 4294967295"
proof -
  have "lo = 0xFFFFFFFF \<and> hi = 0 \<and> (\<forall>c\<in>set (page_cells p). \<not> busy V c) \<or>
      lo \<le> hi \<and> p * 1048576 \<le> unat lo \<and> unat hi < Suc p * 1048576 \<and>
      (\<forall>(off, i)\<in>set (page_cells p). busy V (off, i) \<longrightarrow> unat lo \<le> unat off \<and> unat off \<le> unat hi)"
    (is "?none \<or> ?some")
    using assms(1) in_page_cells [OF assms(2)] page_of_offset [OF assms(2), of lo]
      page_of_offset [OF assms(2), of hi]
    by (fastforce simp: covers_def word_le_nat_alt)
  then have "filter (busy V) (range_cells lo hi) = filter (busy V) (page_cells p) \<and>
    ((off, i) \<in> set (range_cells lo hi) \<longrightarrow> off < ADDR_TABLE_SIZE \<and> i < 8) \<and> unat hi < 4294967295"
  proof
    assume none: ?none
    then have "range_cells lo hi = []" by (simp add: range_cells_def)
    moreover have "filter (busy V) (page_cells p) = []" using none by (simp add: filter_empty_conv)
    ultimately show ?thesis using none by simp
  next
    assume some: ?some
    let ?a = "p * 1048576" and ?b = "Suc p * 1048576"
    have le: "?a \<le> unat lo" "unat lo \<le> Suc (unat hi)" "Suc (unat hi) \<le> ?b" "?b \<le> 20971520"
      using some assms(2) by (auto simp: word_le_nat_alt)
    have page: "page_cells p = concat (map row_cells (words ?a (unat lo))) @ range_cells lo hi @
        concat (map row_cells (words (Suc (unat hi)) ?b))"
      unfolding page_cells_def range_cells_def
      using words_append [of ?a "unat lo" ?b] words_append [of "unat lo" "Suc (unat hi)" ?b] le by simp
    have out: "\<not> busy V c" if c: "c \<in> set (concat (map row_cells (words ?a (unat lo)))) \<union>
        set (concat (map row_cells (words (Suc (unat hi)) ?b)))" for c
    proof -
      obtain off i where ci: "c = (off, i)" by fastforce
      have "unat off < unat lo \<or> unat hi < unat off"
        using c le by (auto simp: ci in_row_cells in_words)
      moreover have "c \<in> set (page_cells p)" using c unfolding page by auto
      ultimately show ?thesis using some unfolding ci by fastforce
    qed
    then have "filter (busy V) (range_cells lo hi) = filter (busy V) (page_cells p)"
      unfolding page filter_append by (simp add: filter_empty_conv)
    moreover have "(off, i) \<in> set (range_cells lo hi) \<longrightarrow> off < ADDR_TABLE_SIZE \<and> i < 8"
      using le by (auto simp: range_cells_def in_row_cells in_words word_less_nat_alt)
    ultimately show ?thesis using le by simp
  qed
  then show "filter (busy V) (range_cells lo hi) = filter (busy V) (page_cells p)"
    "(off, i) \<in> set (range_cells lo hi) \<Longrightarrow> off < ADDR_TABLE_SIZE \<and> i < 8" "unat hi < 4294967295"
    by simp_all
qed

subsection \<open>The planners' loops as folds over cells\<close>

lemma lane_loop:
  assumes "i < 8"
  shows "for_while (\<lambda>i. i < MAX_THREADS) body i s = foldS body (words (unat i) 8) s"
proof -
  have "(of_nat k :: u32) < MAX_THREADS" if "k < 8" for k
    using that by (simp add: word_less_nat_alt)
  moreover have "max (unat i) 8 = 8" using assms by (simp add: word_less_nat_alt)
  ultimately have "for_while (\<lambda>i. i < MAX_THREADS) body (of_nat (unat i)) s = foldS body (words (unat i) 8) s"
    by (intro for_while_words) simp_all
  then show ?thesis by simp
qed

lemma offset_loop:
  assumes "unat hi < 4294967295"
  shows "for_while (\<lambda>off. off \<le> hi) body lo s = foldS body (words (unat lo) (Suc (unat hi))) s"
proof -
  have "(of_nat k :: u32) \<le> hi" if "k < Suc (unat hi)" for k
    using that assms by (simp add: word_le_nat_alt)
  moreover have "\<not> of_nat (max (unat lo) (Suc (unat hi))) \<le> hi"
    using assms unat_u32_bound [of lo] by (auto simp: word_le_nat_alt max_def)
  ultimately have "for_while (\<lambda>off. off \<le> hi) body (of_nat (unat lo)) s =
      foldS body (words (unat lo) (Suc (unat hi))) s"
    using assms by (intro for_while_words) simp_all
  then show ?thesis by simp
qed

lemma page_loop: "for_while (\<lambda>p. p < to) body from s = foldS body (words (unat from) (unat to)) s"
proof -
  have "(of_nat k :: u32) < to" if "k < unat to" for k
    using that unat_u32_bound [of to] by (simp add: word_less_nat_alt)
  moreover have "\<not> of_nat (max (unat from) (unat to)) < to"
    using unat_u32_bound [of to] unat_u32_bound [of "from"] by (auto simp: word_less_nat_alt max_def)
  ultimately have "for_while (\<lambda>p. p < to) body (of_nat (unat from)) s =
      foldS body (words (unat from) (unat to)) s"
    using unat_u32_bound [of to] by (intro for_while_words) simp_all
  then show ?thesis by simp
qed

text \<open>The two inner loops of a planner, over a range of offsets.\<close>

lemma range_loop:
  assumes "unat hi < 4294967295"
  shows "for_while (\<lambda>off. off \<le> hi) (\<lambda>off. for_while (\<lambda>i. i < MAX_THREADS) (body off) 0) lo s =
    foldS (\<lambda>(off, i). body off i) (range_cells lo hi) s"
proof -
  have "for_while (\<lambda>i. i < MAX_THREADS) (body off) 0 = foldS (\<lambda>(off, i). body off i) (row_cells off)" for off
    using lane_loop [of 0 "body off"] by (intro ext) (simp add: row_cells_def foldS_map del: config_values)
  then show ?thesis
    by (simp add: offset_loop [OF assms] range_cells_def foldS_concat del: config_values)
qed

text \<open>The address of a cell.\<close>

fun cell_addr :: "u32 \<times> u32 \<Rightarrow> u32" where
  "cell_addr (off, i) = (case offset_to_addr off i of Inl e \<Rightarrow> 0 | Inr a \<Rightarrow> a)"

lemma cell_addr_eq:
  assumes "off < ADDR_TABLE_SIZE" "i < 8"
  shows "offset_to_addr off i = Inr (cell_addr (off, i))"
  using codec.to_of_offset [OF assms(1), of i 0] assms(2) by auto

lemma cell_addr_next:
  assumes "off < ADDR_TABLE_SIZE"
  shows "cell_addr (off, i + 1) = cell_addr (off, i) + 8"
proof -
  obtain base where "page_to_addr (ucast (drop_bit ADDR_PAGE_BITS off)) = Inr base"
    using cell_addr_eq [OF assms, of 0]
    by (cases "page_to_addr (ucast (drop_bit ADDR_PAGE_BITS off))") (simp_all add: offset_to_addr_def)
  then show ?thesis by (simp add: offset_to_addr_def Let_def distrib_right add.assoc)
qed

declare cell_addr.simps [simp del]

subsection \<open>All the cells of a planner\<close>

lemma in_cells: "n \<le> 20 \<Longrightarrow> (off, i) \<in> set (cells m n) \<Longrightarrow> off < ADDR_TABLE_SIZE \<and> i < 8"
proof -
  assume "n \<le> 20" "(off, i) \<in> set (cells m n)"
  then obtain p where "p < n" and p: "(off, i) \<in> set (page_cells p)" by (auto simp: cells_def)
  then have "p < 20" using \<open>n \<le> 20\<close> by simp
  then have "unat off < Suc p * 1048576" "i < 8" using page_of_offset in_page_cells p by blast+
  moreover have "Suc p * 1048576 \<le> 20971520" using \<open>p < 20\<close> by simp
  ultimately show ?thesis by (simp add: word_less_nat_alt)
qed

lemma stream_busy:
  assumes "workers_read ws P V" "n \<le> 20"
  shows "stream P V m n = concat (map (cell_entries P V) (filter (busy V) (cells m n)))"
  unfolding stream_def
  using in_cells [OF assms(2)] cell_entries_Nil_iff [OF assms(1)]
  by (intro concat_map_filter [symmetric]) (auto simp del: cell_entries.simps)

text \<open>The loop over the pages, given what its body does to one page.\<close>

lemma pages_loop:
  assumes "\<And>p s. m \<le> p \<Longrightarrow> p < n \<Longrightarrow> body (of_nat p) s = foldS f (filter (busy V) (page_cells p)) s"
  shows "foldS body (words m n) s = foldS f (filter (busy V) (cells m n)) s"
proof -
  have "foldS body (words m n) s = foldS (\<lambda>p. foldS f (filter (busy V) (page_cells p))) [m..<n] s"
    unfolding words_def foldS_map by (rule foldS_cong) (simp add: assms)
  then show ?thesis by (simp add: foldS_concat cells_def filter_concat comp_def)
qed

lemma cell_entries_page:
  assumes "workers_read ws P V" "covers V {i. i < 8} p lo hi" "p < 20"
  shows "concat (map (cell_entries P V) (range_cells lo hi)) = concat (map (cell_entries P V) (page_cells p))"
proof -
  note cov = covers_cells [OF assms(2,3)]
  have "concat (map (cell_entries P V) cs) = concat (map (cell_entries P V) (filter (busy V) cs))"
    if "\<forall>(off, i)\<in>set cs. i < 8" for cs
    by (rule concat_map_filter [symmetric])
      (use that cell_entries_Nil_iff [OF assms(1)] in \<open>auto simp del: cell_entries.simps\<close>)
  from this [of "range_cells lo hi"] this [of "page_cells p"] show ?thesis
    using cov(2) in_page_cells [OF assms(3)] unfolding cov(1) by fastforce
qed

end
