(* ===== verification/Mem_Segment.thy ===== *)
theory Mem_Segment
  imports Mem_Config
begin

text \<open>
  \<open>MemCheckPoint\<close>, \<open>MemSegment\<close> and \<open>MemSegments\<close> (\<open>mem_check_point.hpp\<close>, \<open>mem_segment.hpp\<close>,
  \<open>mem_segments.hpp\<close>) as they are built with \<open>MEM_CHECK_POINT_MAP\<close>: a segment keeps one check point per chunk
  and folds every further group of rows of that chunk into it. The specification of a segment is the list of the
  groups of rows it was given; \<open>segment_spec\<close> says what the check points of such a list are, and the lemmas that
  the incremental updates compute it.
\<close>

subsection \<open>Check points\<close>

record MemCheckPoint =
  from_addr :: u32
  from_skip :: u32
  to_addr :: u32
  to_count :: u32
  ck_count :: u32
  from_count :: u32
  debug_row :: u32

definition check_point_new :: "u32 \<Rightarrow> u32 \<Rightarrow> u32 \<Rightarrow> u32 \<Rightarrow> MemCheckPoint" where
  "check_point_new a skip count row =
    \<lparr>from_addr = a, from_skip = skip, to_addr = a, to_count = count, ck_count = count, from_count = count,
     debug_row = row\<rparr>"

definition add_rows :: "u32 \<Rightarrow> u32 \<Rightarrow> MemCheckPoint \<Rightarrow> MemCheckPoint" where
  "add_rows a count p =
    (let p = p\<lparr>ck_count := ck_count p + count\<rparr>;
         p = (if a = from_addr p then p\<lparr>from_count := from_count p + count\<rparr> else p) in
     if a = to_addr p then p\<lparr>to_count := to_count p + count\<rparr>
     else p\<lparr>to_addr := a, to_count := count\<rparr>)"

subsection \<open>Segments\<close>

record MemSegment =
  seg_chunks :: "u32 \<rightharpoonup> MemCheckPoint"
  tot_count :: u32
  is_last_segment :: bool

definition segment_new :: MemSegment where
  "segment_new = \<lparr>seg_chunks = Map.empty, tot_count = 0, is_last_segment = False\<rparr>"

text \<open>\<open>try_emplace\<close> builds a check point only for a chunk that has none; \<open>tot_count\<close> grows in between.\<close>

definition add_or_update :: "u32 \<Rightarrow> u32 \<Rightarrow> u32 \<Rightarrow> u32 \<Rightarrow> MemSegment \<Rightarrow> MemSegment" where
  "add_or_update chunk_id a skip count s =
    (let existing = seg_chunks s chunk_id; fresh = check_point_new a skip count (tot_count s);
         s = s\<lparr>tot_count := tot_count s + count\<rparr> in
     case existing of
       None \<Rightarrow> s\<lparr>seg_chunks := (seg_chunks s)(chunk_id \<mapsto> fresh)\<rparr>
     | Some p \<Rightarrow> s\<lparr>seg_chunks := (seg_chunks s)(chunk_id \<mapsto> add_rows a count p)\<rparr>)"

definition segment_push :: "u32 \<Rightarrow> u32 \<Rightarrow> u32 \<Rightarrow> u32 \<Rightarrow> MemSegment \<Rightarrow> MemSegment" where
  "segment_push chunk_id a skip count s =
    (let s' = (case seg_chunks s chunk_id of
         None \<Rightarrow> s\<lparr>seg_chunks := (seg_chunks s)(chunk_id \<mapsto> check_point_new a skip count (tot_count s))\<rparr>
       | Some p \<Rightarrow> s) in
     s'\<lparr>tot_count := tot_count s' + count\<rparr>)"

text \<open>The constructor with a first group of rows adds its count twice.\<close>

definition segment_start :: "u32 \<Rightarrow> u32 \<Rightarrow> u32 \<Rightarrow> u32 \<Rightarrow> MemSegment" where
  "segment_start chunk_id a skip count =
    (let s = add_or_update chunk_id a skip count segment_new in s\<lparr>tot_count := tot_count s + count\<rparr>)"

definition segment_size :: "MemSegment \<Rightarrow> u32" where
  "segment_size s = of_nat (card (dom (seg_chunks s)))"

subsection \<open>The collection of segments\<close>

text \<open>The map holds pointers; \<open>None\<close> is the null pointer.\<close>

type_synonym MemSegments = "u32 \<rightharpoonup> MemSegment option"

definition segments_set :: "u32 \<Rightarrow> MemSegment option \<Rightarrow> MemSegments \<Rightarrow> MemSegments" where
  "segments_set segment_id v ss = ss(segment_id \<mapsto> v)"

subsection \<open>What a segment records\<close>

text \<open>A group of rows: the chunk, the address, the rows of the chunk to skip there, the number of rows.\<close>

record rows_group =
  g_chunk :: u32
  g_addr :: u32
  g_skip :: u32
  g_count :: u32

definition add_group :: "rows_group \<Rightarrow> MemSegment \<Rightarrow> MemSegment" where
  "add_group g = add_or_update (g_chunk g) (g_addr g) (g_skip g) (g_count g)"

definition count_sum :: "rows_group list \<Rightarrow> u32" where
  "count_sum gs = sum_list (map g_count gs)"

text \<open>
  The check point of a non-empty list of groups of one chunk: the address and the skip of the first, the address of
  the last, the rows in total, at the first address, and in the last stretch of one address.
\<close>

definition summary :: "u32 \<Rightarrow> rows_group list \<Rightarrow> MemCheckPoint" where
  "summary row gs =
    \<lparr>from_addr = g_addr (hd gs), from_skip = g_skip (hd gs), to_addr = g_addr (last gs),
     to_count = count_sum (takeWhile (\<lambda>g. g_addr g = g_addr (last gs)) (rev gs)), ck_count = count_sum gs,
     from_count = count_sum (filter (\<lambda>g. g_addr g = g_addr (hd gs)) gs), debug_row = row\<rparr>"

definition of_chunk :: "u32 \<Rightarrow> rows_group list \<Rightarrow> rows_group list" where
  "of_chunk c gs = filter (\<lambda>g. g_chunk g = c) gs"

definition rows_before :: "u32 \<Rightarrow> rows_group list \<Rightarrow> u32" where
  "rows_before c gs = count_sum (takeWhile (\<lambda>g. g_chunk g \<noteq> c) gs)"

text \<open>\<open>extra\<close> is what the constructor counted twice; it shifts the debug rows of the later chunks.\<close>

definition segment_spec :: "u32 \<Rightarrow> rows_group list \<Rightarrow> MemSegment" where
  "segment_spec extra gs =
    \<lparr>seg_chunks = (\<lambda>c. if of_chunk c gs = [] then None
       else Some (summary (rows_before c gs + (if g_chunk (hd gs) = c then 0 else extra)) (of_chunk c gs))),
     tot_count = count_sum gs + extra, is_last_segment = False\<rparr>"

lemma count_sum_simps [simp]:
  "count_sum [] = 0" "count_sum (g # gs) = g_count g + count_sum gs" "count_sum (gs @ hs) = count_sum gs + count_sum hs"
  by (simp_all add: count_sum_def)

lemma of_chunk_simps [simp]:
  "of_chunk c [] = []" "of_chunk c (gs @ hs) = of_chunk c gs @ of_chunk c hs"
  "of_chunk c [g] = (if g_chunk g = c then [g] else [])"
  by (simp_all add: of_chunk_def)

lemma of_chunk_Nil_iff: "of_chunk c gs = [] \<longleftrightarrow> (\<forall>g\<in>set gs. g_chunk g \<noteq> c)"
  by (simp add: of_chunk_def filter_empty_conv)

lemma rows_before_snoc:
  "rows_before c (gs @ [g]) = (if of_chunk c gs = [] then count_sum gs + (if g_chunk g = c then 0 else g_count g)
     else rows_before c gs)"
  by (auto simp: rows_before_def of_chunk_Nil_iff takeWhile_append)

lemma rows_before_single [simp]: "rows_before c [g] = (if g_chunk g = c then 0 else g_count g)"
  by (simp add: rows_before_def)

lemma of_chunk_hd: "gs \<noteq> [] \<Longrightarrow> of_chunk (g_chunk (hd gs)) gs \<noteq> []"
  by (auto simp: of_chunk_Nil_iff)

lemma summary_new: "summary row [g] = check_point_new (g_addr g) (g_skip g) (g_count g) row"
  by (simp add: summary_def check_point_new_def)

lemma summary_snoc:
  assumes "gs \<noteq> []"
  shows "summary row (gs @ [g]) = add_rows (g_addr g) (g_count g) (summary row gs)"
proof -
  have "takeWhile (\<lambda>h. g_addr h = g_addr g) (rev gs) = []" if "g_addr (last gs) \<noteq> g_addr g"
    using assms that by (cases gs rule: rev_cases) simp_all
  then show ?thesis
    using assms by (auto simp: summary_def add_rows_def Let_def add.commute)
qed

lemma segment_spec_snoc:
  assumes "gs \<noteq> [] \<or> extra = 0"
  shows "add_group g (segment_spec extra gs) = segment_spec extra (gs @ [g])"
proof -
  have "(seg_chunks (segment_spec extra gs))(g_chunk g \<mapsto>
      (case seg_chunks (segment_spec extra gs) (g_chunk g) of
         None \<Rightarrow> check_point_new (g_addr g) (g_skip g) (g_count g) (count_sum gs + extra)
       | Some p \<Rightarrow> add_rows (g_addr g) (g_count g) p)) = seg_chunks (segment_spec extra (gs @ [g]))" (is "?l = ?r")
  proof
    fix c
    show "?l c = ?r c"
      using assms by (cases "gs = []"; cases "of_chunk c gs = []"; cases "g_chunk g = c")
        (use of_chunk_hd [of gs] in \<open>auto simp: segment_spec_def rows_before_snoc summary_new summary_snoc\<close>)
  qed
  then show ?thesis
    by (simp add: add_group_def add_or_update_def Let_def segment_spec_def add.commute add.left_commute
        split: option.splits if_splits)
qed

text \<open>The segment after any sequence of groups, from the empty segment and from the counting constructor.\<close>

lemma segment_new_spec: "segment_new = segment_spec 0 []"
  by (simp add: segment_new_def segment_spec_def)

lemma segment_start_spec:
  "segment_start (g_chunk g) (g_addr g) (g_skip g) (g_count g) = segment_spec (g_count g) [g]"
  by (simp add: segment_start_def add_or_update_def segment_new_def segment_spec_def summary_new rows_before_def
      of_chunk_def Let_def fun_eq_iff)

lemma fold_add_group:
  assumes "gs \<noteq> [] \<or> extra = 0"
  shows "fold add_group hs (segment_spec extra gs) = segment_spec extra (gs @ hs)"
  using assms
proof (induction hs arbitrary: gs)
  case (Cons h hs)
  then show ?case using Cons.IH [of "gs @ [h]"] by (simp add: segment_spec_snoc)
qed simp

text \<open>The check points of a segment account for all its rows.\<close>

lemma ck_count_segment:
  "seg_chunks (segment_spec extra gs) c = Some p \<Longrightarrow> ck_count p = count_sum (of_chunk c gs)"
  by (auto simp: segment_spec_def summary_def split: if_splits)

subsection \<open>Properties\<close>

text \<open>
  C20: A segment accumulates its groups of rows. After any sequence of \<open>add_or_update\<close> calls the check point of
  each chunk is the summary of that chunk's groups (\<open>segment_spec\<close>), and its count is the sum of their counts; the
  constructor with a first group leaves the same check points, but \<open>tot_count\<close>, and with it the debug row of every
  later chunk, is larger by the first group's count.
\<close>

theorem segment_accumulates:
  "fold add_group gs segment_new = segment_spec 0 gs \<and>
   fold add_group gs (segment_start (g_chunk g) (g_addr g) (g_skip g) (g_count g)) = segment_spec (g_count g) (g # gs) \<and>
   (\<forall>c. map_option ck_count (seg_chunks (fold add_group gs segment_new) c) =
      (if of_chunk c gs = [] then None else Some (count_sum (of_chunk c gs))))"
proof (intro conjI)
  show eq: "fold add_group gs segment_new = segment_spec 0 gs"
    using fold_add_group [of "[]" 0 gs] by (simp add: segment_new_spec)
  show "fold add_group gs (segment_start (g_chunk g) (g_addr g) (g_skip g) (g_count g)) = segment_spec (g_count g) (g # gs)"
    using fold_add_group [of "[g]" "g_count g" gs] by (simp add: segment_start_spec)
  show "\<forall>c. map_option ck_count (seg_chunks (fold add_group gs segment_new) c) =
      (if of_chunk c gs = [] then None else Some (count_sum (of_chunk c gs)))"
    unfolding eq by (simp add: segment_spec_def summary_def)
qed

end
