(* ===== verification/Mem_Locators.thy ===== *)
theory Mem_Locators
  imports Mem_Config
begin

text \<open>
  \<open>MemLocator\<close> and \<open>MemLocators\<close> (\<open>mem_locator.hpp\<close>, \<open>mem_locators.hpp\<close>): the queue of segment starts that
  one planner fills and the others empty. The operations as one thread runs them alone; \<open>Locator_Protocol\<close> has the
  steps of the threads that share a queue.
\<close>

subsection \<open>State and operations\<close>

record MemLocator =
  loc_offset :: u32
  loc_cpos :: u32
  loc_skip :: u32
  loc_thread :: u32

text \<open>The positions are \<open>size_t\<close>; the array access bounds them, so they are natural numbers here.\<close>

record MemLocators =
  write_pos :: nat
  read_pos :: nat
  loc_completed :: bool
  loc_table :: "nat \<Rightarrow> MemLocator"

definition locators_new :: "(nat \<Rightarrow> MemLocator) \<Rightarrow> MemLocators" where
  "locators_new table0 = \<lparr>write_pos = 0, read_pos = 0, loc_completed = False, loc_table = table0\<rparr>"

definition push_locator :: "u32 \<Rightarrow> u32 \<Rightarrow> u32 \<Rightarrow> u32 \<Rightarrow> MemLocators \<Rightarrow> MemLocators res" where
  "push_locator thread_index offset cpos skip q =
    (let pos = write_pos q in
     if pos < MAX_LOCATORS then
       Inr (q\<lparr>loc_table := (loc_table q)(pos :=
           \<lparr>loc_offset = offset, loc_cpos = cpos, loc_skip = skip, loc_thread = thread_index\<rparr>),
         write_pos := pos + 1\<rparr>)
     else Inl Out_of_bounds)"

text \<open>Alone, the compare-and-exchange succeeds; the segment id is the position cast to \<open>uint32_t\<close>.\<close>

definition get_locator :: "MemLocators \<Rightarrow> (u32 \<times> MemLocator) option \<times> MemLocators" where
  "get_locator q =
    (let current_read = read_pos q in
     if current_read = write_pos q then (None, q)
     else (Some (of_nat current_read, loc_table q current_read), q\<lparr>read_pos := current_read + 1\<rparr>))"

definition locators_set_completed :: "MemLocators \<Rightarrow> MemLocators" where
  "locators_set_completed q = q\<lparr>loc_completed := True\<rparr>"

definition is_completed :: "MemLocators \<Rightarrow> bool" where
  "is_completed q \<longleftrightarrow> loc_completed q"

definition locators_size :: "MemLocators \<Rightarrow> nat" where
  "locators_size q = write_pos q"

text \<open>The locators pushed so far.\<close>

definition pushed :: "MemLocators \<Rightarrow> MemLocator list" where
  "pushed q = map (loc_table q) [0..<write_pos q]"

lemma length_pushed [simp]: "length (pushed q) = write_pos q"
  by (simp add: pushed_def)

lemma pushed_new [simp]: "pushed (locators_new t) = []"
  by (simp add: pushed_def locators_new_def)

lemma push_locator_pushed:
  assumes "length (pushed q) < 2048"
  shows "\<exists>q'. push_locator i off cpos skip q = Inr q' \<and>
    pushed q' = pushed q @ [\<lparr>loc_offset = off, loc_cpos = cpos, loc_skip = skip, loc_thread = i\<rparr>] \<and>
    read_pos q' = read_pos q \<and> loc_completed q' = loc_completed q"
  using assms by (auto simp: push_locator_def pushed_def Let_def)

lemma push_locator_full: "length (pushed q) \<ge> 2048 \<Longrightarrow> push_locator i off cpos skip q = Inl Out_of_bounds"
  by (simp add: push_locator_def Let_def)

subsection \<open>Properties\<close>

text \<open>
  The locator queue is a queue: while it has room a pushed locator is added at the end, a full one refuses it, and
  \<open>get_locator\<close> takes the oldest one not yet taken, with its position as the segment id, or nothing when there is none.
\<close>

theorem locators_fifo:
  "(case push_locator i off cpos skip q of
      Inr q' \<Rightarrow> length (pushed q) < MAX_LOCATORS \<and> read_pos q' = read_pos q \<and>
        pushed q' = pushed q @ [\<lparr>loc_offset = off, loc_cpos = cpos, loc_skip = skip, loc_thread = i\<rparr>]
    | Inl e \<Rightarrow> MAX_LOCATORS \<le> length (pushed q) \<and> e = Out_of_bounds) \<and>
   (if read_pos q = length (pushed q) then get_locator q = (None, q)
    else get_locator q = (Some (of_nat (read_pos q), loc_table q (read_pos q)), q\<lparr>read_pos := read_pos q + 1\<rparr>))"
  by (simp add: push_locator_def get_locator_def pushed_def Let_def)

definition loc1 :: MemLocator where
  "loc1 = \<lparr>loc_offset = 1, loc_cpos = 2, loc_skip = 0, loc_thread = 0\<rparr>"

end
