(* ===== verification/Mem_Planner.thy ===== *)
theory Mem_Planner
  imports Planner_Stream Mem_Segment Mem_Locators
begin

text \<open>
  \<open>MemPlanner\<close> of \<open>mem_planner.hpp\<close>, the planner of the RAM: one instance walks the tables of all counters and
  pushes a locator wherever a segment of \<open>rows\<close> rows starts (\<open>generate_locators\<close>), the others take locators and
  build the segment that starts there (\<open>execute_from_locator\<close>). The clock, the \<open>printf\<close>s and the members only
  \<open>MEM_PLANNER_STATS\<close> and the other configuration use are left out.
\<close>

subsection \<open>State\<close>

record MemPlanner =
  pl_id :: u32
  pl_rows :: u32
  pl_from_page :: u32
  pl_to_page :: u32
  pl_rows_available :: u32
  pl_reference_addr_chunk :: u32
  pl_reference_addr :: u32
  pl_reference_skip :: u32
  pl_current_chunk :: u32
  locators_done :: u32
  current_segment :: "MemSegment option"

definition mem_planner_new :: "u32 \<Rightarrow> u32 \<Rightarrow> u32 \<Rightarrow> u32 \<Rightarrow> MemPlanner res" where
  "mem_planner_new ident rows a mb_size =
    bindE (planner_pages a mb_size) (\<lambda>(from_page, to_page).
    Inr \<lparr>pl_id = ident, pl_rows = rows, pl_from_page = from_page, pl_to_page = to_page, pl_rows_available = rows,
      pl_reference_addr_chunk = NO_CHUNK_ID, pl_reference_addr = 0, pl_reference_skip = 0,
      pl_current_chunk = NO_CHUNK_ID, locators_done = 0, current_segment = None\<rparr>)"

subsection \<open>Generating the locators\<close>

record gen_state =
  g_rows_available :: u32
  g_first :: bool
  g_locators :: MemLocators

text \<open>The loop that splits one entry: \<open>count\<close> is what is left of its \<open>initial_count\<close> rows.\<close>

partial_function (option) split_entry ::
  "u32 \<Rightarrow> u32 \<Rightarrow> u32 \<Rightarrow> u32 \<Rightarrow> u32 \<Rightarrow> u32 \<Rightarrow> gen_state \<Rightarrow> gen_state run" where
  "split_entry rows thread_index offset cpos initial_count count st =
    (if count > 0 then
       if g_rows_available st > count then
         Some (Inr (st\<lparr>g_rows_available := g_rows_available st - count\<rparr>))
       else
         (let count' = count - g_rows_available st; skip = initial_count - count' in
          case push_locator thread_index offset cpos skip (g_locators st) of
            Inl e \<Rightarrow> Some (Inl e)
          | Inr q \<Rightarrow> split_entry rows thread_index offset cpos initial_count count'
              (st\<lparr>g_locators := q, g_rows_available := rows\<rparr>))
     else Some (Inr st))"

definition generate_entry ::
  "u32 \<Rightarrow> u32 \<Rightarrow> u32 \<Rightarrow> u32 \<Rightarrow> u32 \<Rightarrow> u32 \<Rightarrow> gen_state \<Rightarrow> (gen_state \<times> bool) run" where
  "generate_entry rows thread_index offset cpos chunk_id count st =
    bindR (split_entry rows thread_index offset cpos count count st) (\<lambda>st. Some (Inr (st, False)))"

definition generate_cell ::
  "MemCounter list \<Rightarrow> u32 \<Rightarrow> u32 \<Rightarrow> u32 \<Rightarrow> gen_state \<Rightarrow> (gen_state \<times> bool) run" where
  "generate_cell ws rows offset thread_index st =
    bindR (Some (worker ws thread_index)) (\<lambda>w.
    bindR (Some (get_addr_table w offset)) (\<lambda>pos.
    if pos = 0 then Some (Inr (st, False))
    else
      bindR (if g_first st then Some (Inr st)
        else bindR (Some (push_locator thread_index offset pos 0 (g_locators st)))
          (\<lambda>q. Some (Inr (st\<lparr>g_first := True, g_locators := q\<rparr>)))) (\<lambda>st.
      bindR (Some (get_initial_pos w pos)) (\<lambda>cpos.
      walk False (get_next_pos w) (read_entry (get_pos_value w) (generate_entry rows thread_index offset))
        pos cpos st))))"

definition generate_page :: "MemCounter list \<Rightarrow> u32 \<Rightarrow> u32 \<Rightarrow> gen_state \<Rightarrow> (gen_state \<times> bool) run" where
  "generate_page ws rows page st =
    bindR (Some (get_offset_limits ws page)) (\<lambda>(offset, max_offset).
    for_while (\<lambda>off. off \<le> max_offset)
      (\<lambda>off. for_while (\<lambda>i. i < MAX_THREADS) (generate_cell ws rows off) 0) offset st)"

definition generate_locators :: "MemCounter list \<Rightarrow> MemLocators \<Rightarrow> MemPlanner \<Rightarrow> (MemLocators \<times> MemPlanner) run" where
  "generate_locators ws locators pl =
    bindR (for_while (\<lambda>page. page < pl_to_page pl) (generate_page ws (pl_rows pl)) (pl_from_page pl)
        \<lparr>g_rows_available = pl_rows pl, g_first = False, g_locators = locators\<rparr>) (\<lambda>(st, _).
    Some (Inr (locators_set_completed (g_locators st), pl\<lparr>pl_rows_available := g_rows_available st\<rparr>)))"

subsection \<open>Building a segment\<close>

text \<open>\<open>add_chunk\<close>, with the \<open>current_segment_add\<close> of its last two branches.\<close>

definition planner_add_chunk :: "u32 \<Rightarrow> u32 \<Rightarrow> u32 \<Rightarrow> u32 \<Rightarrow> MemPlanner \<Rightarrow> bool \<times> MemPlanner" where
  "planner_add_chunk chunk_id a count skip pl =
    (case current_segment pl of
       None \<Rightarrow>
         (let consumed = min count (pl_rows pl); available = pl_rows pl - consumed in
          (available \<noteq> 0, pl\<lparr>current_segment := Some (segment_start chunk_id a skip consumed),
             pl_rows_available := available\<rparr>))
     | Some s \<Rightarrow>
         if pl_rows_available pl \<le> count then
           (False, pl\<lparr>current_segment := Some (add_or_update chunk_id a 0 (pl_rows_available pl) s),
              pl_rows_available := 0\<rparr>)
         else
           (True, pl\<lparr>current_segment := Some (add_or_update chunk_id a 0 count s),
              pl_rows_available := pl_rows_available pl - count\<rparr>))"

record exec_state =
  x_planner :: MemPlanner
  x_skip :: u32
  x_first_pos :: bool

definition exec_entry :: "u32 \<Rightarrow> u32 \<Rightarrow> u32 \<Rightarrow> u32 \<Rightarrow> exec_state \<Rightarrow> (exec_state \<times> bool) run" where
  "exec_entry a cpos chunk_id count st =
    (let (more, pl) = planner_add_chunk chunk_id a (count - x_skip st) (x_skip st) (x_planner st) in
     if more then Some (Inr (st\<lparr>x_planner := pl, x_skip := 0\<rparr>, False))
     else Some (Inr (st\<lparr>x_planner := pl\<rparr>, True)))"

definition exec_cell ::
  "MemCounter list \<Rightarrow> u32 \<Rightarrow> u32 \<Rightarrow> u32 \<Rightarrow> u32 \<Rightarrow> u32 \<Rightarrow> exec_state \<Rightarrow> (exec_state \<times> bool) run" where
  "exec_cell ws segment_id cpos0 offset a thread_index st =
    bindR (Some (worker ws thread_index)) (\<lambda>w.
    bindR (Some (get_addr_table w offset)) (\<lambda>pos.
    if pos = 0 then Some (Inr (st\<lparr>x_first_pos := False\<rparr>, False))
    else
      bindR (if segment_id = 0 \<or> \<not> x_first_pos st
        then bindR (Some (get_initial_pos w pos)) (\<lambda>cpos. Some (Inr (cpos, st\<lparr>x_skip := 0\<rparr>)))
        else Some (Inr (cpos0, st))) (\<lambda>(cpos, st).
      bindR (walk True (get_next_pos w) (read_entry (get_pos_value w) (exec_entry a)) pos cpos st) (\<lambda>(st, stop).
      if stop then Some (Inr (st, True)) else Some (Inr (st\<lparr>x_first_pos := False\<rparr>, False))))))"

text \<open>The loop over the counters of one offset steps the address; the outer loops restart at counter 0.\<close>

definition exec_offset ::
  "MemCounter list \<Rightarrow> u32 \<Rightarrow> u32 \<Rightarrow> u32 \<Rightarrow> exec_state \<times> u32 \<Rightarrow> ((exec_state \<times> u32) \<times> bool) run" where
  "exec_offset ws segment_id cpos0 offset = (\<lambda>(st, thread_index).
    bindR (Some (offset_to_addr offset thread_index)) (\<lambda>a.
    bindR (for_while (\<lambda>i. i < MAX_THREADS) (\<lambda>i (st, a).
        bindR (exec_cell ws segment_id cpos0 offset a i st) (\<lambda>(st, stop). Some (Inr ((st, a + 8), stop))))
      thread_index (st, a)) (\<lambda>((st, _), stop).
    Some (Inr ((st, 0), stop)))))"

definition exec_page ::
  "MemCounter list \<Rightarrow> u32 \<Rightarrow> u32 \<Rightarrow> u32 \<Rightarrow> exec_state \<times> u32 \<times> u32 \<times> u32 \<Rightarrow>
    ((exec_state \<times> u32 \<times> u32 \<times> u32) \<times> bool) run" where
  "exec_page ws segment_id cpos0 page = (\<lambda>(st, thread_index, offset, max_offset).
    bindR (for_while (\<lambda>off. off \<le> max_offset) (exec_offset ws segment_id cpos0) offset (st, thread_index))
      (\<lambda>((st, _), stop).
    if stop then Some (Inr ((st, 0, offset, max_offset), True))
    else bindR (Some (get_offset_limits ws (page + 1))) (\<lambda>(offset, max_offset).
      Some (Inr ((st, 0, offset, max_offset), False)))))"

definition execute_from_locator :: "MemCounter list \<Rightarrow> u32 \<Rightarrow> MemLocator \<Rightarrow> MemPlanner \<Rightarrow> MemPlanner run" where
  "execute_from_locator ws segment_id loc pl =
    (let page = offset_to_page (loc_offset loc);
         st = \<lparr>x_planner = pl\<lparr>locators_done := locators_done pl + 1\<rparr>, x_skip = loc_skip loc, x_first_pos = True\<rparr> in
     bindR (Some (get_max_offset ws page)) (\<lambda>max_offset.
     bindR (for_while (\<lambda>page. page < pl_to_page pl) (exec_page ws segment_id (loc_cpos loc)) page
         (st, loc_thread loc, loc_offset loc, max_offset)) (\<lambda>((st, _), _).
     Some (Inr (x_planner st)))))"

subsection \<open>Taking locators\<close>

text \<open>
  \<open>get_next_locator\<close> on a queue nobody else changes: it polls until there is a locator or the queue is complete.
  The \<open>while (true)\<close> of \<open>execute_from_locators\<close> is the second loop.
\<close>

partial_function (option) poll_locator ::
  "bool \<Rightarrow> MemLocators \<Rightarrow> ((u32 \<times> MemLocator) option \<times> MemLocators) run" where
  "poll_locator completed q =
    (if completed \<and> is_completed q then Some (Inr (None, q))
     else case get_locator q of
       (Some l, q') \<Rightarrow> Some (Inr (Some l, q'))
     | (None, q') \<Rightarrow> poll_locator True q')"

definition get_next_locator :: "MemLocators \<Rightarrow> ((u32 \<times> MemLocator) option \<times> MemLocators) run" where
  "get_next_locator q =
    (case get_locator q of
       (Some l, q') \<Rightarrow> Some (Inr (Some l, q'))
     | (None, q') \<Rightarrow> poll_locator False q')"

partial_function (option) execute_from_locators ::
  "MemCounter list \<Rightarrow> MemLocators \<Rightarrow> MemSegments \<Rightarrow> MemPlanner \<Rightarrow> (MemLocators \<times> MemSegments \<times> MemPlanner) run" where
  "execute_from_locators ws q segments pl =
    (case get_next_locator q of
       None \<Rightarrow> None
     | Some (Inl e) \<Rightarrow> Some (Inl e)
     | Some (Inr (None, q')) \<Rightarrow> Some (Inr (q', segments, pl))
     | Some (Inr (Some (segment_id, loc), q')) \<Rightarrow>
         (case execute_from_locator ws segment_id loc pl of
            None \<Rightarrow> None
          | Some (Inl e) \<Rightarrow> Some (Inl e)
          | Some (Inr pl') \<Rightarrow>
              execute_from_locators ws q' (segments_set segment_id (current_segment pl') segments)
                (pl'\<lparr>current_segment := None\<rparr>)))"

end
