(* ===== verification/Stream_Rows.thy ===== *)
theory Stream_Rows
  imports Planner_Stream Mem_Segment
begin

text \<open>
  The rows behind the stream of entries, and the groups of rows the planners give to their segments: what both planners
  have to distribute. A row is a chunk, an address, and the number of the row among those of the chunk at the address.
\<close>

subsection \<open>Entries, groups and rows\<close>

definition rows_total :: "stream_entry list \<Rightarrow> nat" where
  "rows_total es = sum_list (map (\<lambda>e. unat (e_count e)) es)"

lemma rows_total_simps [simp]:
  "rows_total [] = 0" "rows_total (e # es) = unat (e_count e) + rows_total es"
  "rows_total (es @ fs) = rows_total es + rows_total fs"
  by (simp_all add: rows_total_def)

definition group_of :: "stream_entry \<Rightarrow> rows_group" where
  "group_of e = \<lparr>g_chunk = e_chunk e, g_addr = cell_addr (e_offset e, e_thread e), g_skip = 0, g_count = e_count e\<rparr>"

text \<open>The rows of a group: chunk, address, and which of the rows of that chunk at that address.\<close>

definition group_rows :: "rows_group \<Rightarrow> (u32 \<times> u32 \<times> nat) list" where
  "group_rows g = map (\<lambda>i. (g_chunk g, g_addr g, i)) [unat (g_skip g)..<unat (g_skip g) + unat (g_count g)]"

definition groups_rows :: "rows_group list \<Rightarrow> (u32 \<times> u32 \<times> nat) list" where
  "groups_rows gs = concat (map group_rows gs)"

lemma groups_rows_append: "groups_rows (gs @ hs) = groups_rows gs @ groups_rows hs"
  by (simp add: groups_rows_def)

lemma length_groups_rows: "length (groups_rows (map group_of es)) = rows_total es"
  by (induction es) (simp_all add: groups_rows_def group_rows_def group_of_def)

subsection \<open>Slices\<close>

definition row_slice :: "nat \<Rightarrow> nat \<Rightarrow> 'a list \<Rightarrow> 'a list" where
  "row_slice R k xs = take R (drop (k * R) xs)"

lemma concat_slices_take: "concat (map (\<lambda>k. row_slice R k xs) [0..<m]) = take (m * R) xs"
proof (induction m)
  case (Suc m)
  have "take (Suc m * R) xs = take (m * R) xs @ take R (drop (m * R) xs)"
    using take_add [of "m * R" R xs] by (simp add: add.commute)
  then show ?case using Suc by (simp add: row_slice_def)
qed simp

lemma concat_slices: "0 < R \<Longrightarrow> concat (map (\<lambda>k. row_slice R k xs) [0..<Suc (length xs div R)]) = xs"
proof -
  assume "0 < R"
  then have "length xs \<le> Suc (length xs div R) * R" by (simp add: dividend_less_div_times less_imp_le)
  then show ?thesis by (simp only: concat_slices_take take_all)
qed

lemma length_slice: "k < length xs div R \<Longrightarrow> length (row_slice R k xs) = R"
proof -
  assume "k < length xs div R"
  then have "Suc k * R \<le> length xs div R * R" by (intro mult_le_mono1) simp
  also have "\<dots> \<le> length xs" by simp
  finally show ?thesis by (simp add: row_slice_def)
qed

text \<open>The rows of a stream of entries.\<close>

definition stream_rows :: "stream_entry list \<Rightarrow> (u32 \<times> u32 \<times> nat) list" where
  "stream_rows es = groups_rows (map group_of es)"

lemma length_stream_rows [simp]: "length (stream_rows es) = rows_total es"
  by (simp add: stream_rows_def length_groups_rows)

subsection \<open>The cells are distinct\<close>

lemma cells_rows: "m \<le> n \<Longrightarrow> cells m n = concat (map row_cells (words (m * 1048576) (n * 1048576)))"
proof (induction n)
  case (Suc n)
  show ?case
  proof (cases "m = Suc n")
    case False
    then have "m \<le> n" using Suc.prems by simp
    then show ?thesis
      using Suc.IH words_append [of "m * 1048576" "n * 1048576" "Suc n * 1048576"]
      by (simp add: cells_def page_cells_def)
  qed (simp add: cells_def)
qed (simp add: cells_def)

lemma distinct_rows: "distinct offs \<Longrightarrow> distinct (concat (map row_cells offs))"
proof (induction offs)
  case (Cons off offs)
  have "distinct (row_cells off)" by (simp add: row_cells_def distinct_map distinct_words inj_on_def)
  moreover have "set (row_cells off) \<inter> set (concat (map row_cells offs)) = {}"
    using Cons.prems by (auto simp: in_row_cells)
  ultimately show ?case using Cons by simp
qed simp

lemma distinct_cells: "n \<le> 20 \<Longrightarrow> distinct (cells m n)"
proof (cases "m \<le> n")
  case True
  assume "n \<le> 20"
  then have "n * 1048576 \<le> 4294967296" by simp
  then show ?thesis unfolding cells_rows [OF True] by (intro distinct_rows distinct_words)
qed (simp add: cells_def)

subsection \<open>A counter with one entry\<close>

abbreviation one_entry :: "u32 \<Rightarrow> u32 \<Rightarrow> u32 \<Rightarrow> (u32 \<times> u32) per_cell" where
  "one_entry off c k \<equiv> (\<lambda>i o'. if i = 0 \<and> o' = off then [(c, k)] else [])"

lemma one_entry_workers:
  assumes "addr_to_offset a 0 = Inr off"
  obtains ws P where "workers_read ws P (one_entry off c k)" "get_count_table (ws ! 0) off = Inr k"
proof -
  let ?new = "mem_counter_new (\<lambda>_. 0) 0"
  have "addr_to_offset a (current_chunk (?new 0)) = Inr off" using assms by (simp add: mem_counter_new_def)
  then obtain w B where w: "rep w B ((\<lambda>_. [])(off := [(c, k)]))" and B: "\<And>o'. o' \<noteq> off \<Longrightarrow> B o' = []"
    using count_aligned_rep [OF rep_new [of "\<lambda>_. 0" 0 0], of a off c k]
    by (force simp: log_add_def mem_counter_new_def)
  let ?E = "(\<lambda>_. [])(off := [(c, k)])"
  let ?P = "\<lambda>i. if i = 0 then (\<lambda>o'. positions_of (B o') (?E o')) else (\<lambda>_. [])"
  have chain: "shape (B off) (?E off)" using rep_chain(1) [OF w, of off] by (simp add: chain_def)
  then have "visible (B o') (?E o') = one_entry off c k 0 o'" for o'
    using hidden_less [OF chain] B by (cases "o' = off") (simp_all add: visible_def)
  then have 0: "reads_as w (?P 0) (one_entry off c k 0)"
    unfolding reads_as_def using w by (intro exI [of _ B] exI [of _ ?E]) (simp add: fun_eq_iff)
  have new: "reads_as (?new i) (\<lambda>_. []) (\<lambda>_. [])" for i
    unfolding reads_as_def
    by (intro exI [of _ "\<lambda>_. []"]) (simp add: rep_new positions_of_def visible_def fun_eq_iff)
  let ?ws = "w # map ?new (words 1 8)"
  have "reads_as (?ws ! unat i) (?P i) (one_entry off c k i)" if "i < 8" for i
  proof (cases "i = 0")
    case False
    then have "unat i \<noteq> 0" by (simp add: unat_eq_0)
    then obtain j where j: "unat i = Suc j" by (cases "unat i") auto
    have "j < 7" using that j by (simp add: word_less_nat_alt)
    then have "?ws ! unat i = ?new (of_nat (Suc j))" by (simp add: j words_def)
    then show ?thesis using False new [of "of_nat (Suc j)"] by simp
  qed (use 0 in simp)
  then have "workers_read ?ws ?P (one_entry off c k)" by (simp add: workers_read_def words_def)
  moreover have "off < ADDR_TABLE_SIZE" using codec.offset_bound [OF assms] by simp
  then have "get_count_table (?ws ! 0) off = Inr k"
    using w by (auto simp: rep_def offset_ok_def get_count_table_def table_read_def)
  ultimately show ?thesis by (rule that)
qed

lemma filter_eq_single: "distinct xs \<Longrightarrow> filter (\<lambda>x. x = c) xs = (if c \<in> set xs then [c] else [])"
  by (induction xs) auto

lemma stream_one_entry:
  assumes "workers_read ws P (one_entry off c k)" "n \<le> 20"
  shows "\<exists>p. stream P (one_entry off c k) m n = (if \<exists>p\<in>{m..<n}. offset_to_page off = of_nat p
    then [\<lparr>e_thread = 0, e_offset = off, e_pos = p, e_chunk = c, e_count = k\<rparr>] else [])"
proof -
  let ?V = "one_entry off c k"
  have "busy ?V = (\<lambda>x. x = (off, 0))" by auto
  moreover have "(off, 0) \<in> set (cells m n) \<longleftrightarrow> (\<exists>p\<in>{m..<n}. offset_to_page off = of_nat p)"
    using in_page_cells assms(2) by (auto simp: cells_def)
  moreover have "length (P 0 off) = 1"
    using counter_reader.positions [OF workers_readD(2) [OF assms(1), of 0], of off] by simp
  then obtain p where "P 0 off = [p]" by (auto simp: length_Suc_conv)
  ultimately show ?thesis
    unfolding stream_busy [OF assms] using filter_eq_single [OF distinct_cells [OF assms(2)], of "(off, 0)" m]
    by (intro exI [of _ p]) simp
qed

end
