(* ===== verification/Ram_Plan.thy ===== *)
theory Ram_Plan
  imports Mem_Planner Stream_Rows
begin

text \<open>
  Correctness of the RAM plan: \<open>generate_locators\<close> cuts the stream of entries every \<open>rows\<close> rows, and
  \<open>execute_from_locator\<close> on the \<open>k\<close>-th locator builds the segment of the rows \<open>k * rows\<close> to
  \<open>(k + 1) * rows\<close> of the stream. Rows are counted in natural numbers here; the words of the code never wrap.
\<close>

subsection \<open>Cutting the stream\<close>

text \<open>
  The cuts inside an entry of \<open>n\<close> rows after \<open>T\<close> rows: the numbers of its rows, above \<open>m\<close>, at which the total
  reaches a multiple of \<open>R\<close>.
\<close>

definition cuts :: "nat \<Rightarrow> nat \<Rightarrow> nat \<Rightarrow> nat \<Rightarrow> nat list" where
  "cuts R T m n = filter (\<lambda>s. (T + s) mod R = 0) [Suc m..<Suc n]"

definition locator_at :: "stream_entry \<Rightarrow> nat \<Rightarrow> MemLocator" where
  "locator_at e s =
    \<lparr>loc_offset = e_offset e, loc_cpos = e_pos e, loc_skip = of_nat s, loc_thread = e_thread e\<rparr>"

fun stream_cuts :: "nat \<Rightarrow> nat \<Rightarrow> stream_entry list \<Rightarrow> (stream_entry \<times> nat) list" where
  "stream_cuts R T [] = []"
| "stream_cuts R T (e # es) =
    map (Pair e) (cuts R T 0 (unat (e_count e))) @ stream_cuts R (T + unat (e_count e)) es"

lemma next_cut_none:
  assumes "0 < d" "d < R - X mod R"
  shows "(X + d) mod R \<noteq> (0 :: nat)"
proof -
  have "(X + d) mod R = (X mod R + d) mod R" by (simp add: mod_add_left_eq)
  also have "\<dots> = X mod R + d" using assms by simp
  finally show ?thesis using assms by simp
qed

lemma next_cut:
  assumes "0 < R"
  shows "(X + (R - X mod R)) mod R = (0 :: nat)"
proof -
  have "X mod R < R" using assms by simp
  have "(X + (R - X mod R)) mod R = (X mod R + (R - X mod R)) mod R" by (simp add: mod_add_left_eq)
  then show ?thesis using \<open>X mod R < R\<close> by simp
qed

lemma cuts_step:
  fixes T m R :: nat
  assumes "0 < R"
  defines "r \<equiv> R - (T + m) mod R"
  shows "cuts R T m n = (if m + r \<le> n then (m + r) # cuts R T (m + r) n else [])"
proof -
  have none: "(T + s) mod R \<noteq> 0" if "m < s" "s < m + r" for s
    using next_cut_none [of "s - m" R "T + m"] that unfolding r_def by simp
  have r: "0 < r" using assms by (simp add: r_def)
  have hit: "(T + (m + r)) mod R = 0"
    using next_cut [OF assms(1), of "T + m"] unfolding r_def by (simp only: add.assoc)
  show ?thesis
  proof (cases "m + r \<le> n")
    case True
    have "[Suc m..<Suc n] = [Suc m..<m + r] @ [m + r..<Suc n]"
      using upt_add_eq_append [of "Suc m" "m + r" "Suc n - (m + r)"] r True by simp
    also have "[m + r..<Suc n] = (m + r) # [Suc (m + r)..<Suc n]" using True by (simp add: upt_conv_Cons)
    finally have "cuts R T m n = filter (\<lambda>s. (T + s) mod R = 0) [Suc m..<m + r] @ (m + r) # cuts R T (m + r) n"
      using hit by (simp only: cuts_def filter_append filter.simps simp_thms if_True)
    moreover have "filter (\<lambda>s. (T + s) mod R = 0) [Suc m..<m + r] = []"
      using none by (auto simp: filter_empty_conv)
    ultimately show ?thesis using True by simp
  next
    case False
    then show ?thesis using none by (auto simp: cuts_def filter_empty_conv)
  qed
qed

lemma length_cuts: "0 < R \<Longrightarrow> length (cuts R T 0 n) = (T + n) div R - T div R"
proof (induction n)
  case (Suc n)
  have "cuts R T 0 (Suc n) = cuts R T 0 n @ (if (T + Suc n) mod R = 0 then [Suc n] else [])"
    by (simp add: cuts_def)
  moreover have "(T + Suc n) div R = (T + n) div R + (if (T + Suc n) mod R = 0 then 1 else 0)"
    using div_Suc [of "T + n" R] by auto
  moreover have "T div R \<le> (T + n) div R" by (rule div_le_mono) simp
  ultimately show ?case using Suc by (simp del: mod_Suc)
qed (simp add: cuts_def)

lemma length_stream_cuts:
  "0 < R \<Longrightarrow> length (stream_cuts R T es) = (T + rows_total es) div R - T div R"
proof (induction es arbitrary: T)
  case (Cons e es)
  have "T div R \<le> (T + unat (e_count e)) div R" "(T + unat (e_count e)) div R \<le> (T + rows_total (e # es)) div R"
    by (rule div_le_mono, simp)+
  then show ?case using Cons by (simp add: length_cuts add.assoc)
qed simp

lemma in_cuts: "s \<in> set (cuts R T m n) \<Longrightarrow> m < s \<and> s \<le> n"
  by (simp add: cuts_def less_Suc_eq_le Suc_le_eq del: upt_Suc)

text \<open>The \<open>k\<close>-th cut is where the rows before it add up to a multiple of \<open>R\<close>.\<close>

lemma nth_cuts:
  assumes "0 < R" "k < length (cuts R T 0 n)"
  shows "T + cuts R T 0 n ! k = (T div R + Suc k) * R"
  using assms(2)
proof (induction n)
  case (Suc n)
  let ?hit = "(T + Suc n) mod R = 0"
  have snoc: "cuts R T 0 (Suc n) = cuts R T 0 n @ (if ?hit then [Suc n] else [])"
    by (simp add: cuts_def)
  show ?case
  proof (cases "k < length (cuts R T 0 n)")
    case True
    then show ?thesis using Suc.IH by (simp add: snoc nth_append del: mod_Suc)
  next
    case False
    then have hit: ?hit and k: "k = length (cuts R T 0 n)"
      using Suc.prems by (auto simp: snoc less_Suc_eq split: if_splits)
    have "(T + Suc n) div R = (T + n) div R + 1" using div_Suc [of "T + n" R] hit by auto
    moreover have "T div R \<le> (T + n) div R" by (rule div_le_mono) simp
    ultimately have "(T + Suc n) div R = T div R + Suc k"
      unfolding k length_cuts [OF assms(1)] by simp
    moreover have "T + Suc n = (T + Suc n) div R * R" using hit by (metis mod_0_imp_dvd dvd_div_mult_self)
    ultimately show ?thesis using hit by (simp add: snoc k nth_append del: mod_Suc)
  qed
qed (simp add: cuts_def)

lemma nth_stream_cuts:
  assumes "0 < R" "k < length (stream_cuts R T es)"
  shows "\<exists>es1 e es2 s. es = es1 @ e # es2 \<and> stream_cuts R T es ! k = (e, s) \<and> 0 < s \<and> s \<le> unat (e_count e) \<and>
    T + rows_total es1 + s = (T div R + Suc k) * R"
  using assms(2)
proof (induction es arbitrary: T k)
  case (Cons e es)
  let ?n = "unat (e_count e)" and ?cs = "cuts R T 0 (unat (e_count e))"
  show ?case
  proof (cases "k < length ?cs")
    case True
    then have "?cs ! k \<in> set ?cs" by (rule nth_mem)
    from in_cuts [OF this] have "0 < ?cs ! k" "?cs ! k \<le> ?n" by simp_all
    then show ?thesis
      using nth_cuts [OF assms(1) True] True
      by (intro exI [of _ "[]"] exI [of _ e] exI [of _ es] exI [of _ "?cs ! k"]) (simp add: nth_append)
  next
    case False
    define j where "j = k - length ?cs"
    have j: "j < length (stream_cuts R (T + ?n) es)" using Cons.prems False by (simp add: j_def)
    from Cons.IH [OF j] obtain es1 e' es2 s where IH: "es = es1 @ e' # es2"
      "stream_cuts R (T + ?n) es ! j = (e', s)" "0 < s" "s \<le> unat (e_count e')"
      "T + ?n + rows_total es1 + s = ((T + ?n) div R + Suc j) * R" by blast
    have "T div R \<le> (T + ?n) div R" by (rule div_le_mono) simp
    then have "(T + ?n) div R + Suc j = T div R + Suc k"
      using False length_cuts [OF assms(1), of T ?n] by (simp add: j_def)
    then show ?thesis
      using IH False
      by (intro exI [of _ "e # es1"] exI [of _ e'] exI [of _ es2] exI [of _ s])
        (simp add: nth_append j_def add.assoc)
  qed
qed simp

subsection \<open>Generating the locators\<close>

text \<open>A queue that has grown by some locators, and is otherwise the same.\<close>

definition grown :: "MemLocators \<Rightarrow> MemLocators \<Rightarrow> MemLocator list \<Rightarrow> bool" where
  "grown q q' ls \<longleftrightarrow> pushed q' = pushed q @ ls \<and> read_pos q' = read_pos q \<and> loc_completed q' = loc_completed q"

lemma grown_Nil [simp]: "grown q q []"
  by (simp add: grown_def)

lemma grown_trans: "grown q q1 ls \<Longrightarrow> grown q1 q2 ms \<Longrightarrow> grown q q2 (ls @ ms)"
  by (simp add: grown_def)

lemma grown_push:
  "length (pushed q) < 2048 \<Longrightarrow> \<exists>q'. push_locator i off cpos skip q = Inr q' \<and>
    grown q q' [\<lparr>loc_offset = off, loc_cpos = cpos, loc_skip = skip, loc_thread = i\<rparr>]"
  using push_locator_pushed [of q] by (fastforce simp: grown_def)

lemma split_entry_cuts:
  assumes "0 < R" "R < 4294967296" "n < 4294967296" "c \<le> n"
    and "g_rows_available st = of_nat (R - (T + (n - c)) mod R)"
    and "length (pushed (g_locators st)) + length (cuts R T (n - c) n) \<le> 2048"
  shows "\<exists>st'. split_entry (of_nat R) i off cpos (of_nat n) (of_nat c) st = Some (Inr st') \<and>
    g_rows_available st' = of_nat (R - (T + n) mod R) \<and> g_first st' = g_first st \<and>
    grown (g_locators st) (g_locators st')
      (map (\<lambda>s. \<lparr>loc_offset = off, loc_cpos = cpos, loc_skip = of_nat s, loc_thread = i\<rparr>) (cuts R T (n - c) n))"
  using assms(4-6)
proof (induction c arbitrary: st rule: less_induct)
  case (less c)
  let ?m = "n - c"
  define r where "r = R - (T + ?m) mod R"
  have r: "0 < r" "r \<le> R" "g_rows_available st = of_nat r"
    using assms(1) less.prems(2) by (simp_all add: r_def)
  have step: "cuts R T ?m n = (if ?m + r \<le> n then (?m + r) # cuts R T (?m + r) n else [])"
    unfolding r_def by (rule cuts_step [OF assms(1)])
  have c0: "(of_nat c :: u32) > 0 \<longleftrightarrow> c > 0"
    using of_nat_u32_less_iff [of 0 c] less.prems(1) assms(3) by simp
  have rc: "g_rows_available st > of_nat c \<longleftrightarrow> r > c"
    using of_nat_u32_less_iff [of c r] less.prems(1) assms(2,3) r by simp
  show ?case
  proof (cases "c = 0")
    case True
    then show ?thesis
      using less.prems(2) by (subst split_entry.simps) (simp add: cuts_def)
  next
    case False
    show ?thesis
    proof (cases "r > c")
      case True
      have "(T + n) mod R = (T + ?m) mod R + c"
      proof -
        have "(T + n) mod R = ((T + ?m) mod R + c) mod R"
          using less.prems(1) by (simp add: mod_add_left_eq)
        also have "\<dots> = (T + ?m) mod R + c" using True by (simp add: r_def)
        finally show ?thesis .
      qed
      then have "r - c = R - (T + n) mod R" by (simp add: r_def)
      moreover have "g_rows_available st - of_nat c = of_nat (r - c)" using True r(3) by (simp add: of_nat_diff)
      moreover have "\<not> ?m + r \<le> n" using True less.prems(1) by linarith
      then have "cuts R T ?m n = []" unfolding step by (rule if_not_P)
      ultimately show ?thesis
        using True False rc c0 by (subst split_entry.simps) simp
    next
      case le: False
      have cuts: "cuts R T ?m n = (?m + r) # cuts R T (n - (c - r)) n"
        using step le less.prems(1) by (simp add: Nat.diff_diff_right)
      have skip: "of_nat n - of_nat (c - r) = (of_nat (?m + r) :: u32)"
        "of_nat c - g_rows_available st = (of_nat (c - r) :: u32)"
        using le less.prems(1) r(3) by (simp_all add: of_nat_diff algebra_simps)
      obtain q where q: "push_locator i off cpos (of_nat (?m + r)) (g_locators st) = Inr q"
        "grown (g_locators st) q
          [\<lparr>loc_offset = off, loc_cpos = cpos, loc_skip = of_nat (?m + r), loc_thread = i\<rparr>]"
        using grown_push [of "g_locators st" i off cpos "of_nat (?m + r)"] less.prems(3)
        unfolding cuts by (auto simp del: of_nat_add)
      let ?st = "st\<lparr>g_locators := q, g_rows_available := of_nat R\<rparr>"
      have hit: "(T + (n - (c - r))) mod R = 0"
      proof -
        have "T + (n - (c - r)) = (T + ?m) + r" using le less.prems(1) by simp
        then show ?thesis unfolding r_def by (simp only: next_cut [OF assms(1)])
      qed
      have "c - r < c" "c - r \<le> n" using r(1) False less.prems(1) by simp_all
      moreover have "length (pushed q) + length (cuts R T (n - (c - r)) n) \<le> 2048"
        using q(2) less.prems(3) cuts by (simp add: grown_def del: length_pushed)
      ultimately obtain st' where st': "split_entry (of_nat R) i off cpos (of_nat n) (of_nat (c - r)) ?st = Some (Inr st')"
        "g_rows_available st' = of_nat (R - (T + n) mod R)" "g_first st' = g_first st"
        "grown q (g_locators st')
          (map (\<lambda>s. \<lparr>loc_offset = off, loc_cpos = cpos, loc_skip = of_nat s, loc_thread = i\<rparr>)
            (cuts R T (n - (c - r)) n))"
        using less.IH [of "c - r" ?st] hit by auto
      have "split_entry (of_nat R) i off cpos (of_nat n) (of_nat c) st = Some (Inr st')"
        unfolding split_entry.simps [of "of_nat R" i off cpos "of_nat n" "of_nat c" st] Let_def skip q(1)
        using False le rc c0 st'(1) by (simp del: of_nat_diff)
      then show ?thesis
        using st' grown_trans [OF q(2) st'(4)] by (simp add: cuts)
    qed
  qed
qed

text \<open>The entries of the stream, one after the other.\<close>

definition generate_stream :: "u32 \<Rightarrow> stream_entry \<Rightarrow> gen_state \<Rightarrow> (gen_state \<times> bool) run" where
  "generate_stream rows e = generate_entry rows (e_thread e) (e_offset e) (e_pos e) (e_chunk e) (e_count e)"

lemma stream_cuts_append:
  "stream_cuts R T (es @ fs) = stream_cuts R T es @ stream_cuts R (T + rows_total es) fs"
  by (induction es arbitrary: T) (simp_all add: add.assoc)

lemma generate_entries:
  assumes "0 < R" "R < 4294967296"
    and "g_rows_available st = of_nat (R - T mod R)"
    and "length (pushed (g_locators st)) + length (stream_cuts R T es) \<le> 2048"
  shows "\<exists>st'. foldS (generate_stream (of_nat R)) es st = Some (Inr (st', False)) \<and>
    g_rows_available st' = of_nat (R - (T + rows_total es) mod R) \<and> g_first st' = g_first st \<and>
    grown (g_locators st) (g_locators st') (map (\<lambda>(e, s). locator_at e s) (stream_cuts R T es))"
  using assms(3,4)
proof (induction es arbitrary: T st)
  case (Cons e es)
  let ?n = "unat (e_count e)" and ?loc = "locator_at e"
  have "\<exists>st'. split_entry (of_nat R) (e_thread e) (e_offset e) (e_pos e) (of_nat ?n) (of_nat ?n) st = Some (Inr st') \<and>
      g_rows_available st' = of_nat (R - (T + ?n) mod R) \<and> g_first st' = g_first st \<and>
      grown (g_locators st) (g_locators st') (map ?loc (cuts R T (?n - ?n) ?n))"
    unfolding locator_at_def
    by (rule split_entry_cuts) (use assms(1,2) unat_u32_bound [of "e_count e"] Cons.prems in simp_all)
  then obtain st1 where 1: "generate_stream (of_nat R) e st = Some (Inr (st1, False))"
    "g_rows_available st1 = of_nat (R - (T + ?n) mod R)" "g_first st1 = g_first st"
    "grown (g_locators st) (g_locators st1) (map ?loc (cuts R T 0 ?n))"
    by (auto simp: generate_stream_def generate_entry_def)
  have "length (pushed (g_locators st1)) + length (stream_cuts R (T + ?n) es) \<le> 2048"
    using 1(4) Cons.prems(2) by (simp add: grown_def del: length_pushed)
  from Cons.IH [OF 1(2) this] obtain st2 where
    2: "foldS (generate_stream (of_nat R)) es st1 = Some (Inr (st2, False))"
    "g_rows_available st2 = of_nat (R - (T + ?n + rows_total es) mod R)" "g_first st2 = g_first st1"
    "grown (g_locators st1) (g_locators st2) (map (\<lambda>(e, s). locator_at e s) (stream_cuts R (T + ?n) es))"
    by auto
  then show ?case
    using 1(1,3) grown_trans [OF 1(4) 2(4)] by (simp add: add.assoc comp_def)
qed simp

lemma generate_cell_empty:
  assumes "workers_read ws P V" "off < ADDR_TABLE_SIZE" "i < 8" "V i off = []"
  shows "generate_cell ws rows off i st = Some (Inr (st, False))"
  using workers_readD [OF assms(1,3)] counter_reader.table_empty [of _ "P i" "V i", OF _ assms(2,4)]
  by (simp add: generate_cell_def)

lemma generate_cell_busy:
  assumes "workers_read ws P V" "i < 8" "V i off \<noteq> []"
  shows "generate_cell ws rows off i st =
    bindR (if g_first st then Some (Inr st)
      else bindR (Some (push_locator i off (last (P i off)) 0 (g_locators st)))
        (\<lambda>q. Some (Inr (st\<lparr>g_first := True, g_locators := q\<rparr>))))
    (foldS (generate_stream rows) (cell_entries P V (off, i)))"
proof -
  note w = workers_readD [OF assms(1,2)]
  let ?w = "ws ! unat i"
  have walk: "bindR (Some (get_initial_pos ?w (last (P i off)))) (\<lambda>cpos. walk False (get_next_pos ?w)
      (read_entry (get_pos_value ?w) (generate_entry rows i off)) (last (P i off)) cpos st) =
      foldS (generate_stream rows) (cell_entries P V (off, i)) st" for st
    using counter_reader.walk_all [OF w(2) assms(3), of False "generate_entry rows i off" st]
    by (auto simp: run_entries_def foldS_map generate_stream_def intro!: foldS_cong)
  show ?thesis
    using w(1) counter_reader.table_last [OF w(2) assms(3)] counter_reader.table_nonzero [OF w(2) assms(3)]
    by (simp add: generate_cell_def walk [unfolded bindR.simps])
qed

lemma generate_cells:
  assumes "workers_read ws P V" "0 < R" "R < 4294967296" "\<forall>(off, i)\<in>set cs. i < 8 \<and> V i off \<noteq> []"
    and "g_first st" "g_rows_available st = of_nat (R - T mod R)"
    and "length (pushed (g_locators st)) + length (stream_cuts R T (concat (map (cell_entries P V) cs))) \<le> 2048"
  shows "\<exists>st'. foldS (\<lambda>(off, i). generate_cell ws (of_nat R) off i) cs st = Some (Inr (st', False)) \<and>
    grown (g_locators st) (g_locators st')
      (map (\<lambda>(e, s). locator_at e s) (stream_cuts R T (concat (map (cell_entries P V) cs))))"
  using assms(4-7)
proof (induction cs arbitrary: T st)
  case (Cons c cs)
  obtain off i where c: "c = (off, i)" by fastforce
  let ?es = "cell_entries P V (off, i)"
  let ?rest = "concat (map (cell_entries P V) cs)"
  have i: "i < 8" "V i off \<noteq> []" using Cons.prems(1) by (simp_all add: c)
  have parts: "stream_cuts R T (concat (map (cell_entries P V) (c # cs))) =
      stream_cuts R T ?es @ stream_cuts R (T + rows_total ?es) ?rest"
    by (simp add: c stream_cuts_append del: cell_entries.simps)
  have "length (pushed (g_locators st)) + length (stream_cuts R T ?es) \<le> 2048"
    using Cons.prems(4) unfolding parts by simp
  from generate_entries [OF assms(2,3) Cons.prems(3) this] obtain st1 where
    1: "foldS (generate_stream (of_nat R)) ?es st = Some (Inr (st1, False))"
    "g_rows_available st1 = of_nat (R - (T + rows_total ?es) mod R)" "g_first st1 = g_first st"
    "grown (g_locators st) (g_locators st1) (map (\<lambda>(e, s). locator_at e s) (stream_cuts R T ?es))" by blast
  have cell: "generate_cell ws (of_nat R) off i st = Some (Inr (st1, False))"
    using generate_cell_busy [OF assms(1) i, of "of_nat R" st] 1(1) Cons.prems(2) by simp
  have "length (pushed (g_locators st1)) + length (stream_cuts R (T + rows_total ?es) ?rest) \<le> 2048"
    using 1(4) Cons.prems(4) unfolding parts by (simp add: grown_def del: length_pushed cell_entries.simps)
  then obtain st2 where 2: "foldS (\<lambda>(off, i). generate_cell ws (of_nat R) off i) cs st1 = Some (Inr (st2, False))"
    "grown (g_locators st1) (g_locators st2)
      (map (\<lambda>(e, s). locator_at e s) (stream_cuts R (T + rows_total ?es) ?rest))"
    using Cons.IH [OF _ _ 1(2)] Cons.prems(1,2) 1(3) by auto
  then show ?case
    using cell grown_trans [OF 1(4) 2(2)] unfolding parts by (simp add: c del: cell_entries.simps)
qed simp

text \<open>
  The locators of a stream: one for its first entry (with the position the address table holds for its offset), then
  one per cut.
\<close>

definition locators_of :: "u32 per_cell \<Rightarrow> nat \<Rightarrow> stream_entry list \<Rightarrow> MemLocator list" where
  "locators_of P R es =
    (case es of [] \<Rightarrow> []
     | e # _ \<Rightarrow> \<lparr>loc_offset = e_offset e, loc_cpos = last (P (e_thread e) (e_offset e)), loc_skip = 0,
         loc_thread = e_thread e\<rparr> # map (\<lambda>(e, s). locator_at e s) (stream_cuts R 0 es))"

lemma generate_page_cells:
  assumes "workers_read ws P V" "p < 20"
  shows "generate_page ws rows (of_nat p) st =
    foldS (\<lambda>(off, i). generate_cell ws rows off i) (filter (busy V) (page_cells p)) st"
proof -
  obtain lo hi where lim: "get_offset_limits ws (of_nat p) = Inr (lo, hi)" "covers V {i. i < 8} p lo hi"
    using offset_limits [OF assms] by blast
  note cov = covers_cells [OF lim(2) assms(2)]
  have "generate_page ws rows (of_nat p) st = foldS (\<lambda>(off, i). generate_cell ws rows off i) (range_cells lo hi) st"
    using lim(1) by (simp add: generate_page_def range_loop [OF cov(3)] del: config_values)
  also have "\<dots> = foldS (\<lambda>(off, i). generate_cell ws rows off i) (filter (busy V) (range_cells lo hi)) st"
    by (rule foldS_filter) (use generate_cell_empty [OF assms(1)] cov(2) in \<open>auto simp del: config_values\<close>)
  finally show ?thesis by (simp add: cov(1))
qed

lemma generate_locators_stream:
  assumes "workers_read ws P V" "pl_rows pl = of_nat R" "0 < R" "R < 4294967296"
    and "unat (pl_to_page pl) \<le> 20"
    and es: "es = stream P V (unat (pl_from_page pl)) (unat (pl_to_page pl))"
    and "length (pushed q) + Suc (rows_total es div R) \<le> 2048"
  shows "\<exists>q' pl'. generate_locators ws q pl = Some (Inr (q', pl')) \<and> pushed q' = pushed q @ locators_of P R es \<and>
    read_pos q' = read_pos q \<and> loc_completed q'"
proof -
  let ?m = "unat (pl_from_page pl)" and ?n = "unat (pl_to_page pl)"
  let ?cs = "filter (busy V) (cells ?m ?n)" and ?cell = "\<lambda>(off, i). generate_cell ws (of_nat R) off i"
  let ?st = "\<lparr>g_rows_available = of_nat R, g_first = False, g_locators = q\<rparr>"
  have es': "es = concat (map (cell_entries P V) ?cs)" unfolding es by (rule stream_busy [OF assms(1,5)])
  have gen: "generate_locators ws q pl = bindR (foldS ?cell ?cs ?st) (\<lambda>(st, _).
      Some (Inr (locators_set_completed (g_locators st), pl\<lparr>pl_rows_available := g_rows_available st\<rparr>)))"
    using assms(2,5) generate_page_cells [OF assms(1)]
    by (simp add: generate_locators_def page_loop pages_loop [of ?m ?n _ ?cell V])
  have finish: ?thesis
    if "foldS ?cell ?cs ?st = Some (Inr (st', False))" "grown q (g_locators st') (locators_of P R es)" for st'
    using that by (simp add: gen locators_set_completed_def grown_def pushed_def)
  show ?thesis
  proof (cases ?cs)
    case Nil
    then show ?thesis by (intro finish [of ?st]) (simp_all add: es' locators_of_def)
  next
    case (Cons c cs)
    obtain off i where c: "c = (off, i)" by fastforce
    have busy: "\<forall>(off, i)\<in>set ?cs. i < 8 \<and> V i off \<noteq> []"
      using in_cells [OF assms(5)] by auto
    then have i: "i < 8" "V i off \<noteq> []" by (simp_all add: Cons c)
    have ne: "cell_entries P V (off, i) \<noteq> []" using cell_entries_Nil_iff [OF assms(1) i(1)] i(2) by blast
    then obtain e es0 where e: "es = e # es0" "e_offset e = off" "e_thread e = i"
      unfolding es' Cons c by (cases "zip (P i off) (V i off)") auto
    let ?first = "\<lparr>loc_offset = off, loc_cpos = last (P i off), loc_skip = 0, loc_thread = i\<rparr>"
    have "length (stream_cuts R 0 es) = rows_total es div R" using length_stream_cuts [OF assms(3), of 0 es] by simp
    then have room: "length (pushed q) + Suc (length (stream_cuts R 0 es)) \<le> 2048" using assms(7) by simp
    then obtain q1 where q1: "push_locator i off (last (P i off)) 0 q = Inr q1" "grown q q1 [?first]"
      using grown_push [of q i off "last (P i off)" 0] by auto
    let ?st1 = "?st\<lparr>g_first := True, g_locators := q1\<rparr>"
    have "foldS ?cell ?cs ?st = foldS ?cell ?cs ?st1"
      using q1(1) generate_cell_busy [OF assms(1) i, of "of_nat R"] by (simp add: Cons c del: cell_entries.simps)
    moreover have "length (pushed (g_locators ?st1)) + length (stream_cuts R 0 (concat (map (cell_entries P V) ?cs))) \<le> 2048"
      using room q1(2) unfolding es' [symmetric] by (simp add: grown_def del: length_pushed)
    then obtain st' where "foldS ?cell ?cs ?st1 = Some (Inr (st', False))"
      "grown q1 (g_locators st') (map (\<lambda>(e, s). locator_at e s) (stream_cuts R 0 es))"
      using generate_cells [OF assms(1,3,4) busy, of ?st1 0] unfolding es' [symmetric] by auto
    ultimately show ?thesis
      using grown_trans [OF q1(2)] e by (intro finish [of st']) (auto simp: locators_of_def)
  qed
qed

subsection \<open>Filling a segment\<close>

text \<open>One group of rows given to \<open>add_chunk\<close>, and the groups of a segment of \<open>r\<close> rows.\<close>

definition add_chunk_group :: "rows_group \<Rightarrow> MemPlanner \<Rightarrow> (MemPlanner \<times> bool) run" where
  "add_chunk_group g pl =
    (let (more, pl') = planner_add_chunk (g_chunk g) (g_addr g) (g_count g) (g_skip g) pl in
     Some (Inr (pl', \<not> more)))"

fun fill :: "nat \<Rightarrow> rows_group list \<Rightarrow> rows_group list" where
  "fill r [] = []"
| "fill r (g # gs) =
    (if r \<le> unat (g_count g) then [g\<lparr>g_count := of_nat r\<rparr>] else g # fill (r - unat (g_count g)) gs)"

lemma fill_rows:
  assumes "r < 4294967296"
  shows "groups_rows (fill r gs) = take r (groups_rows gs)"
  using assms
proof (induction gs arbitrary: r)
  case (Cons g gs)
  then show ?case
    by (auto simp: groups_rows_def group_rows_def take_map)
qed (simp add: groups_rows_def)

lemma rows_word_less:
  assumes "r < 4294967296"
  shows "(of_nat r :: u32) \<le> c \<longleftrightarrow> r \<le> unat c"
  using assms by (simp add: word_le_nat_alt)

lemma run_groups_more:
  assumes "current_segment pl = Some (segment_spec x hs)" "hs \<noteq> []" "pl_rows_available pl = of_nat r"
    and "r < 4294967296" "\<forall>g\<in>set gs. g_skip g = 0"
  shows "\<exists>pl' stop. foldS add_chunk_group gs pl = Some (Inr (pl', stop)) \<and>
    current_segment pl' = Some (segment_spec x (hs @ fill r gs))"
  using assms
proof (induction gs arbitrary: pl hs r)
  case (Cons g gs)
  have skip: "g_skip g = 0" using Cons.prems(5) by simp
  have add: "add_or_update (g_chunk g) (g_addr g) 0 n (segment_spec x hs) =
      segment_spec x (hs @ [g\<lparr>g_count := n\<rparr>])" for n
    using segment_spec_snoc [OF disjI1 [OF Cons.prems(2)], of "g\<lparr>g_count := n\<rparr>" x]
    by (simp add: add_group_def skip)
  show ?case
  proof (cases "r \<le> unat (g_count g)")
    case True
    let ?pl = "pl\<lparr>current_segment := Some (segment_spec x (hs @ [g\<lparr>g_count := of_nat r\<rparr>])),
      pl_rows_available := 0\<rparr>"
    have "pl_rows_available pl \<le> g_count g"
      unfolding Cons.prems(3) using True by (simp only: rows_word_less [OF Cons.prems(4)])
    then have "add_chunk_group g pl = Some (Inr (?pl, True))"
      unfolding add_chunk_group_def planner_add_chunk_def Cons.prems(1) Cons.prems(3) option.case add by simp
    then show ?thesis using True by (intro exI [of _ ?pl] exI [of _ True]) simp
  next
    case False
    let ?pl = "pl\<lparr>current_segment := Some (segment_spec x (hs @ [g])),
      pl_rows_available := of_nat (r - unat (g_count g))\<rparr>"
    have "of_nat r - g_count g = of_nat (r - unat (g_count g))" using False by (simp add: of_nat_diff)
    then have "add_chunk_group g pl = Some (Inr (?pl, False))"
      using Cons.prems False rows_word_less [of r "g_count g"] add [of "g_count g"]
      by (simp add: add_chunk_group_def planner_add_chunk_def)
    then show ?thesis
      using Cons.IH [of ?pl "hs @ [g]" "r - unat (g_count g)"] Cons.prems False by simp
  qed
qed auto

lemma run_groups:
  assumes "current_segment pl = None" "pl_rows pl = of_nat R" "0 < R" "R < 4294967296"
    and "\<forall>h\<in>set gs. g_skip h = 0"
  shows "\<exists>pl' stop x. foldS add_chunk_group (g # gs) pl = Some (Inr (pl', stop)) \<and>
    current_segment pl' = Some (segment_spec x (fill R (g # gs)))"
proof (cases "R \<le> unat (g_count g)")
  case True
  let ?g = "g\<lparr>g_count := of_nat R\<rparr>"
  have "min (g_count g) (of_nat R) = of_nat R"
    using True by (intro min_absorb2) (simp only: rows_word_less [OF assms(4)])
  then show ?thesis
    using True assms segment_start_spec [of ?g]
    by (auto simp: add_chunk_group_def planner_add_chunk_def Let_def)
next
  case False
  let ?r = "R - unat (g_count g)"
  let ?pl = "pl\<lparr>current_segment := Some (segment_spec (g_count g) [g]), pl_rows_available := of_nat ?r\<rparr>"
  have "min (g_count g) (of_nat R) = g_count g"
    using False assms(4) rows_word_less [of R "g_count g"] by (intro min_absorb1) simp
  moreover have "of_nat R - g_count g = of_nat ?r" using False by (simp add: of_nat_diff)
  moreover have "(of_nat ?r :: u32) \<noteq> 0"
    using False assms(4) of_nat_u32_eq_0_iff [of ?r] by simp
  ultimately have eqs: "min (g_count g) (of_nat R) = g_count g" "of_nat R - g_count g = of_nat ?r"
    "(of_nat ?r :: u32) \<noteq> 0" by blast+
  have "add_chunk_group g pl = Some (Inr (?pl, False))"
    unfolding add_chunk_group_def planner_add_chunk_def assms(1,2) option.case Let_def eqs(1,2) segment_start_spec
    using eqs(3) by simp
  moreover have "?r < 4294967296" using assms(4) by linarith
  then obtain pl' stop where "foldS add_chunk_group gs ?pl = Some (Inr (pl', stop))"
    "current_segment pl' = Some (segment_spec (g_count g) ([g] @ fill ?r gs))"
    using run_groups_more [of ?pl "g_count g" "[g]" ?r gs] assms(4,5) by auto
  ultimately show ?thesis using False by auto
qed

subsection \<open>The cells a segment visits\<close>

definition group_from :: "u32 \<Rightarrow> stream_entry \<Rightarrow> rows_group" where
  "group_from s e = (group_of e)\<lparr>g_skip := s, g_count := e_count e - s\<rparr>"

abbreviation running :: "bool \<Rightarrow> MemPlanner \<Rightarrow> exec_state" where
  "running first pl \<equiv> \<lparr>x_planner = pl, x_skip = 0, x_first_pos = first\<rparr>"

abbreviation lift_running :: "bool \<Rightarrow> MemPlanner \<times> bool \<Rightarrow> (exec_state \<times> bool) run" where
  "lift_running first \<equiv> (\<lambda>(pl, stop). Some (Inr (running first pl, stop)))"

definition visit :: "MemCounter list \<Rightarrow> u32 \<Rightarrow> u32 \<Rightarrow> u32 \<times> u32 \<Rightarrow> exec_state \<Rightarrow> (exec_state \<times> bool) run" where
  "visit ws segment_id cpos0 c = exec_cell ws segment_id cpos0 (fst c) (cell_addr c) (snd c)"

lemma exec_entry_running:
  "exec_entry a cpos c n (running b pl) =
    bindR (add_chunk_group \<lparr>g_chunk = c, g_addr = a, g_skip = 0, g_count = n\<rparr> pl) (lift_running b)"
  by (simp add: exec_entry_def add_chunk_group_def split: prod.split)

lemma run_entries_running:
  "run_entries (exec_entry (cell_addr (off, i))) es (running b pl) =
    bindR (foldS add_chunk_group
      (map (\<lambda>(p, c, n). group_of \<lparr>e_thread = i, e_offset = off, e_pos = p, e_chunk = c, e_count = n\<rparr>) es) pl)
      (lift_running b)"
  unfolding run_entries_def foldS_map
  by (rule foldS_sim) (auto simp: exec_entry_running group_of_def split: prod.split)

lemma visit_running:
  assumes "workers_read ws P V" "off < ADDR_TABLE_SIZE" "i < 8"
  shows "visit ws segment_id cpos0 (off, i) (running False pl) =
    bindR (foldS add_chunk_group (map group_of (cell_entries P V (off, i))) pl) (lift_running False)"
proof (cases "V i off = []")
  case True
  then have "get_addr_table (ws ! unat i) off = Inr 0"
    using counter_reader.table_empty [OF workers_readD(2) [OF assms(1,3)] assms(2)] by simp
  moreover have "cell_entries P V (off, i) = []"
    using True cell_entries_Nil_iff [OF assms(1,3)] by blast
  ultimately show ?thesis
    using workers_readD(1) [OF assms(1,3)] by (simp add: visit_def exec_cell_def del: cell_entries.simps)
next
  case False
  note w = workers_readD [OF assms(1,3)]
  let ?w = "ws ! unat i" and ?a = "cell_addr (off, i)"
  let ?groups = "map group_of (cell_entries P V (off, i))"
  obtain cpos where init: "get_initial_pos ?w (last (P i off)) = Inr cpos"
    and walk: "walk True (get_next_pos ?w) (read_entry (get_pos_value ?w) (exec_entry ?a)) (last (P i off)) cpos
        (running False pl) = run_entries (exec_entry ?a) (zip (P i off) (V i off)) (running False pl)"
    using counter_reader.walk_all [OF w(2) False, of True "exec_entry ?a" "running False pl"] by blast
  have run: "run_entries (exec_entry ?a) (zip (P i off) (V i off)) (running False pl) =
      bindR (foldS add_chunk_group ?groups pl) (lift_running False)"
    unfolding run_entries_running by (simp add: comp_def case_prod_unfold)
  show ?thesis
    using w(1) counter_reader.table_last [OF w(2) False] counter_reader.table_nonzero [OF w(2) False] init
    by (cases "foldS add_chunk_group ?groups pl" rule: run_cases)
      (auto simp: visit_def exec_cell_def walk [unfolded run] simp del: cell_entries.simps)
qed

lemma visit_all:
  assumes "workers_read ws P V" "\<forall>(off, i)\<in>set cs. off < ADDR_TABLE_SIZE \<and> i < 8"
  shows "foldS (visit ws segment_id cpos0) cs (running False pl) =
    bindR (foldS add_chunk_group (map group_of (concat (map (cell_entries P V) cs))) pl) (lift_running False)"
proof -
  have "foldS (visit ws segment_id cpos0) cs (running False pl) =
      bindR (foldS (\<lambda>c. foldS add_chunk_group (map group_of (cell_entries P V c))) cs pl) (lift_running False)"
    by (rule foldS_sim) (use visit_running [OF assms(1)] assms(2) in \<open>auto simp del: cell_entries.simps config_values\<close>)
  then show ?thesis by (simp add: foldS_concat map_concat comp_def)
qed

text \<open>The cell a locator points into, from the entry it names.\<close>

lemma visit_first:
  assumes "workers_read ws P V" "i < 8" "j < length (V i off)"
    and "segment_id = 0 \<and> j = 0 \<and> s = 0 \<or> segment_id \<noteq> 0 \<and> cpos0 = P i off ! j"
  defines "e \<equiv> cell_entries P V (off, i) ! j"
  shows "bindR (visit ws segment_id cpos0 (off, i) \<lparr>x_planner = pl, x_skip = s, x_first_pos = True\<rparr>)
      (\<lambda>(st, stop). if stop then Some (Inr (x_planner st)) else K st) =
    bindR (foldS add_chunk_group (group_from s e # map group_of (drop (Suc j) (cell_entries P V (off, i)))) pl)
      (\<lambda>(pl, stop). if stop then Some (Inr pl) else K (running False pl))"
proof -
  note w = workers_readD [OF assms(1,2)]
  have ne: "V i off \<noteq> []" using assms(3) by auto
  let ?w = "ws ! unat i" and ?a = "cell_addr (off, i)" and ?st = "\<lparr>x_planner = pl, x_skip = s, x_first_pos = True\<rparr>"
  obtain c n where cn: "V i off ! j = (c, n)" by fastforce
  have len: "length (P i off) = length (V i off)" using counter_reader.positions [OF w(2)] by blast
  have e: "e = \<lparr>e_thread = i, e_offset = off, e_pos = P i off ! j, e_chunk = c, e_count = n\<rparr>"
    unfolding e_def using assms(3) len cn by simp
  have zip: "drop j (zip (P i off) (V i off)) = (P i off ! j, c, n) # drop (Suc j) (zip (P i off) (V i off))"
    using assms(3) len cn by (simp flip: Cons_nth_drop_Suc)
  let ?f = "exec_entry ?a"
  have first: "?f p c n ?st = bindR (add_chunk_group (group_from s e) pl)
      (\<lambda>(pl', stop). if stop then Some (Inr (?st\<lparr>x_planner := pl'\<rparr>, True)) else Some (Inr (running True pl', False)))" for p
    by (simp add: exec_entry_def add_chunk_group_def group_from_def group_of_def e split: prod.split)
  have rest: "run_entries ?f (drop (Suc j) (zip (P i off) (V i off))) (running True pl') =
      bindR (foldS add_chunk_group (map group_of (drop (Suc j) (cell_entries P V (off, i)))) pl') (lift_running True)" for pl'
    unfolding run_entries_running by (simp add: comp_def case_prod_unfold drop_map)
  have walk: "walk True (get_next_pos ?w) (read_entry (get_pos_value ?w) ?f) (last (P i off)) (P i off ! j) ?st =
      run_entries ?f (drop j (zip (P i off) (V i off))) ?st"
    by (rule counter_reader.walk_from [OF w(2) assms(3)])
  have start: "get_initial_pos ?w (last (P i off)) = Inr (P i off ! j)" if "j = 0"
    using counter_reader.initial_first [OF w(2) ne] ne len that by (metis hd_conv_nth length_0_conv)
  have "visit ws segment_id cpos0 (off, i) ?st =
      bindR (run_entries ?f (drop j (zip (P i off) (V i off))) ?st) (\<lambda>(st, stop).
        if stop then Some (Inr (st, True)) else Some (Inr (st\<lparr>x_first_pos := False\<rparr>, False)))"
    using assms(4) w(1) counter_reader.table_last [OF w(2) ne] counter_reader.table_nonzero [OF w(2) ne] start
    by (auto simp: visit_def exec_cell_def simp flip: walk)
  moreover have "run_entries ?f (drop j (zip (P i off) (V i off))) ?st =
      bindR (?f (P i off ! j) c n ?st) (\<lambda>(st, stop).
        if stop then Some (Inr (st, True)) else run_entries ?f (drop (Suc j) (zip (P i off) (V i off))) st)"
    unfolding zip run_entries_def foldS.simps prod.case by (rule refl)
  ultimately have visit: "visit ws segment_id cpos0 (off, i) ?st =
      bindR (bindR (?f (P i off ! j) c n ?st) (\<lambda>(st, stop).
        if stop then Some (Inr (st, True)) else run_entries ?f (drop (Suc j) (zip (P i off) (V i off))) st))
      (\<lambda>(st, stop). if stop then Some (Inr (st, True)) else Some (Inr (st\<lparr>x_first_pos := False\<rparr>, False)))"
    by simp
  show ?thesis
  proof (cases "add_chunk_group (group_from s e) pl" rule: run_cases)
    case (3 r)
    obtain pl' stop where r: "r = (pl', stop)" by fastforce
    show ?thesis
      unfolding visit first 3 r
      by (cases "foldS add_chunk_group (map group_of (drop (Suc j) (cell_entries P V (off, i)))) pl'" rule: run_cases)
        (auto simp: rest 3 r simp del: cell_entries.simps)
  qed (simp_all add: visit first)
qed

subsection \<open>The loops of a segment\<close>

text \<open>The cells after a cell, up to the last page.\<close>

definition row_after :: "u32 \<times> u32 \<Rightarrow> (u32 \<times> u32) list" where
  "row_after c = map (Pair (fst c)) (words (Suc (unat (snd c))) 8)"

definition page_after :: "nat \<Rightarrow> u32 \<Rightarrow> (u32 \<times> u32) list" where
  "page_after p off = concat (map row_cells (words (Suc (unat off)) (Suc p * 1048576)))"

definition cells_after :: "nat \<Rightarrow> u32 \<times> u32 \<Rightarrow> (u32 \<times> u32) list" where
  "cells_after n c =
    row_after c @ page_after (unat (fst c) div 1048576) (fst c) @ cells (Suc (unat (fst c) div 1048576)) n"

text \<open>The loop over the counters of an offset; the address follows the cell.\<close>

lemma exec_lanes:
  assumes "off < ADDR_TABLE_SIZE"
  shows "bindR (foldS (\<lambda>i (st, a). bindR (exec_cell ws segment_id cpos0 off a i st)
        (\<lambda>(st, stop). Some (Inr ((st, a + 8), stop)))) (words m 8) (st, cell_addr (off, of_nat m)))
      (\<lambda>((st, _), stop). Some (Inr ((st, 0), stop))) =
    bindR (foldS (visit ws segment_id cpos0) (map (Pair off) (words m 8)) st)
      (\<lambda>(st, stop). Some (Inr ((st, 0), stop)))"
proof (induction "8 - m" arbitrary: m st)
  case 0
  then show ?case by simp
next
  case (Suc d)
  then have m: "m < 8" by linarith
  have next_addr: "cell_addr (off, of_nat m) + 8 = cell_addr (off, of_nat (Suc m))"
    using cell_addr_next [OF assms, of "of_nat m"] by (simp only: of_nat_Suc add.commute)
  have "d = 8 - Suc m" using Suc.hyps(2) by simp
  note IH = Suc.hyps(1) [OF this, folded next_addr]
  show ?case
    unfolding words_Cons [OF m] list.map foldS.simps prod.case
    by (cases "visit ws segment_id cpos0 (off, of_nat m) st" rule: run_cases)
      (use IH in \<open>auto simp: visit_def\<close>)
qed

lemma exec_offset_cells:
  assumes "off < ADDR_TABLE_SIZE" "i < 8"
  shows "exec_offset ws segment_id cpos0 off (st, i) =
    bindR (foldS (visit ws segment_id cpos0) (map (Pair off) (words (unat i) 8)) st)
      (\<lambda>(st, stop). Some (Inr ((st, 0), stop)))"
  using exec_lanes [OF assms(1), of ws segment_id cpos0 "unat i" st] assms cell_addr_eq [OF assms]
  by (simp add: exec_offset_def lane_loop del: config_values)

lemma exec_offsets_cells:
  assumes "\<forall>off\<in>set offs. off < ADDR_TABLE_SIZE"
  shows "foldS (exec_offset ws segment_id cpos0) offs (st, 0) =
    bindR (foldS (visit ws segment_id cpos0) (concat (map row_cells offs)) st)
      (\<lambda>(st, stop). Some (Inr ((st, 0), stop)))"
proof -
  have "foldS (exec_offset ws segment_id cpos0) offs (st, 0) =
      bindR (foldS (\<lambda>off. foldS (visit ws segment_id cpos0) (row_cells off)) offs st)
        (\<lambda>(st, stop). Some (Inr ((st, 0), stop)))"
    by (rule foldS_sim)
      (use assms exec_offset_cells [of _ 0 ws segment_id cpos0] in \<open>auto simp: row_cells_def simp del: config_values\<close>)
  then show ?thesis by (simp add: foldS_concat)
qed

text \<open>The pages after the first, from the state in which the previous page leaves the loop variables.\<close>

lemma exec_pages:
  assumes "workers_read ws P V" "n \<le> 19" "p \<le> n"
    and "get_offset_limits ws (of_nat p) = Inr (lo, hi)" "covers V {i. i < 8} p lo hi"
  shows "bindR (foldS (exec_page ws segment_id cpos0) (words p n) (running False pl, 0, lo, hi))
      (\<lambda>((st, _), _). Some (Inr (x_planner st))) =
    bindR (foldS add_chunk_group (map group_of (concat (map (cell_entries P V) (cells p n)))) pl)
      (\<lambda>(pl, _). Some (Inr pl))"
  using assms(3-5)
proof (induction "n - p" arbitrary: p lo hi pl)
  case 0
  then show ?case by (simp add: cells_def)
next
  case (Suc d)
  then have p: "p < n" by linarith
  then have p20: "p < 20" "Suc p < 20" using assms(2) by simp_all
  note cov = covers_cells [OF Suc.prems(3) p20(1)]
  obtain lo' hi' where lim: "get_offset_limits ws (of_nat (Suc p)) = Inr (lo', hi')"
    "covers V {i. i < 8} (Suc p) lo' hi'" using offset_limits [OF assms(1) p20(2)] by blast
  let ?groups = "map group_of (concat (map (cell_entries P V) (page_cells p)))"
  let ?rest = "map group_of (concat (map (cell_entries P V) (cells (Suc p) n)))"
  have cells: "map group_of (concat (map (cell_entries P V) (cells p n))) = ?groups @ ?rest"
    using p by (simp add: cells_def upt_conv_Cons)
  have offs: "\<forall>off\<in>set (words (unat lo) (Suc (unat hi))). off < ADDR_TABLE_SIZE"
  proof
    fix off assume "off \<in> set (words (unat lo) (Suc (unat hi)))"
    then have "(off, 0) \<in> set (range_cells lo hi)" by (auto simp: range_cells_def in_row_cells)
    with cov(2) show "off < ADDR_TABLE_SIZE" by blast
  qed
  have "for_while (\<lambda>off. off \<le> hi) (exec_offset ws segment_id cpos0) lo (running False pl, 0) =
      bindR (foldS (visit ws segment_id cpos0) (range_cells lo hi) (running False pl))
        (\<lambda>(st, stop). Some (Inr ((st, 0), stop)))"
    by (simp add: offset_loop [OF cov(3)] exec_offsets_cells [OF offs] range_cells_def)
  also have "foldS (visit ws segment_id cpos0) (range_cells lo hi) (running False pl) =
      bindR (foldS add_chunk_group ?groups pl) (lift_running False)"
    unfolding cell_entries_page [OF assms(1) Suc.prems(3) p20(1), symmetric]
    by (rule visit_all [OF assms(1)]) (use cov(2) in blast)
  finally have page: "for_while (\<lambda>off. off \<le> hi) (exec_offset ws segment_id cpos0) lo (running False pl, 0) =
      bindR (bindR (foldS add_chunk_group ?groups pl) (lift_running False))
        (\<lambda>(st, stop). Some (Inr ((st, 0), stop)))" .
  have "of_nat p + 1 = (of_nat (Suc p) :: u32)" by simp
  then have next_page: "get_offset_limits ws (of_nat p + 1) = Inr (lo', hi')" using lim(1) by metis
  have rest: "bindR (foldS (exec_page ws segment_id cpos0) (words (Suc p) n) (running False pl', 0, lo', hi'))
      (\<lambda>((st, _), _). Some (Inr (x_planner st))) =
    bindR (foldS add_chunk_group ?rest pl') (\<lambda>(pl, _). Some (Inr pl))" for pl'
    by (rule Suc.hyps(1)) (use Suc.hyps(2) p lim in simp_all)
  have step: "exec_page ws segment_id cpos0 (of_nat p) (running False pl, 0, lo, hi) =
      bindR (foldS add_chunk_group ?groups pl) (\<lambda>(pl, stop).
        if stop then Some (Inr ((running False pl, 0, lo, hi), True))
        else Some (Inr ((running False pl, 0, lo', hi'), False)))"
    unfolding exec_page_def prod.case page
    by (cases "foldS add_chunk_group ?groups pl" rule: run_cases) (auto simp: next_page)
  show ?case
    unfolding words_Cons [OF p] foldS.simps cells foldS_append step
    by (cases "foldS add_chunk_group ?groups pl" rule: run_cases) (auto simp: rest)
qed

lemma cell_entries_rows:
  assumes "workers_read ws P V" "covers V {i. i < 8} p lo hi" "p < 20"
    and "unat hi < unat off" "offset_to_page off = of_nat p" "i < 8"
  shows "cell_entries P V (off, i) = []"
proof -
  have "\<not> off \<le> hi" using assms(4) by (simp add: word_le_nat_alt)
  then have "V i off = []" using assms(2,5,6) unfolding covers_def by blast
  then show ?thesis using cell_entries_Nil_iff [OF assms(1,6)] by blast
qed

lemma page_after_entries:
  assumes "workers_read ws P V" "covers V {i. i < 8} p lo hi" "p < 20"
    and "offset_to_page off = of_nat p" "off \<le> hi"
  shows "concat (map (cell_entries P V) (concat (map row_cells (words (Suc (unat off)) (Suc (unat hi)))))) =
    concat (map (cell_entries P V) (page_after p off))"
proof -
  let ?b = "Suc p * 1048576"
  have off: "p * 1048576 \<le> unat off" "unat off < ?b" using page_of_offset [OF assms(3)] assms(4) by blast+
  have "offset_to_page hi = of_nat p"
  proof -
    have "hi = 0 \<or> offset_to_page hi = of_nat p" using assms(2) by (auto simp: covers_def)
    then show ?thesis using assms(4,5) by auto
  qed
  then have hi: "unat hi < ?b" using page_of_offset [OF assms(3)] by blast
  have le: "Suc (unat off) \<le> Suc (unat hi)" "Suc (unat hi) \<le> ?b" using assms(5) hi by (simp_all add: word_le_nat_alt)
  have "cell_entries P V c = []" if "c \<in> set (concat (map row_cells (words (Suc (unat hi)) ?b)))" for c
  proof -
    obtain o' i where c: "c = (o', i)" by fastforce
    have "unat hi < unat o'" "unat o' < ?b" "i < 8"
      using that assms(3) by (auto simp: c in_row_cells in_words)
    moreover have "p * 1048576 \<le> unat o'" using calculation off(1) le(1) by linarith
    ultimately show ?thesis
      unfolding c using page_of_offset [OF assms(3), of o']
      by (intro cell_entries_rows [OF assms(1-3)]) simp_all
  qed
  then have "concat (map (cell_entries P V) (concat (map row_cells (words (Suc (unat hi)) ?b)))) = []"
    by (auto simp del: cell_entries.simps)
  then show ?thesis
    unfolding page_after_def words_append [OF le] by (simp del: cell_entries.simps)
qed

text \<open>
  A locator whose entry is the \<open>j\<close>-th of its cell: the planner is given that entry less its first \<open>s\<close> rows,
  and then every later entry, until its segment is full.
\<close>

lemma execute_from_locator_groups:
  assumes "workers_read ws P V" "unat (pl_to_page pl) \<le> 19" "off < ADDR_TABLE_SIZE" "i < 8"
    and "unat off div 1048576 < unat (pl_to_page pl)" "j < length (V i off)"
    and "segment_id = 0 \<and> j = 0 \<and> loc_skip loc = 0 \<or> segment_id \<noteq> 0 \<and> loc_cpos loc = P i off ! j"
    and "loc_offset loc = off" "loc_thread loc = i"
  defines "es \<equiv> drop j (cell_entries P V (off, i)) @
      concat (map (cell_entries P V) (cells_after (unat (pl_to_page pl)) (off, i)))"
  shows "execute_from_locator ws segment_id loc pl =
    bindR (foldS add_chunk_group (group_from (loc_skip loc) (hd es) # map group_of (tl es))
        (pl\<lparr>locators_done := locators_done pl + 1\<rparr>))
      (\<lambda>(pl, _). Some (Inr pl))"
proof -
  let ?n = "unat (pl_to_page pl)" and ?p = "unat off div 1048576" and ?c = "(off, i)"
  let ?pl = "pl\<lparr>locators_done := locators_done pl + 1\<rparr>"
  let ?st = "\<lparr>x_planner = ?pl, x_skip = loc_skip loc, x_first_pos = True\<rparr>"
  let ?visit = "visit ws segment_id (loc_cpos loc)"
  let ?step = "exec_offset ws segment_id (loc_cpos loc)"
  have p: "?p < 20" "Suc ?p < 20" "Suc ?p \<le> ?n" using assms(2,5) by simp_all
  have page: "offset_to_page off = of_nat ?p" by (rule offset_to_page_words)
  obtain lo hi where lim: "get_max_offset ws (of_nat ?p) = Inr hi" "covers V {i. i < 8} ?p lo hi"
    using offset_limits [OF assms(1) p(1)] by blast
  obtain lo' hi' where lim': "get_offset_limits ws (of_nat (Suc ?p)) = Inr (lo', hi')"
    "covers V {i. i < 8} (Suc ?p) lo' hi'" using offset_limits [OF assms(1) p(2)] by blast
  note cov = covers_cells [OF lim(2) p(1)]
  have ne: "V i off \<noteq> []" using assms(6) by auto
  then have range: "lo \<le> off" "off \<le> hi" using lim(2) assms(4) page unfolding covers_def by blast+
  let ?later = "words (Suc (unat off)) (Suc (unat hi))"
  let ?L = "row_after ?c @ concat (map row_cells ?later)"
  have offs: "\<forall>o'\<in>set ?later. o' < ADDR_TABLE_SIZE"
  proof
    fix o' assume "o' \<in> set ?later"
    then obtain k where "Suc (unat off) \<le> k" "k < Suc (unat hi)" "o' = of_nat k" by (auto simp: in_words)
    moreover from this range have "unat lo \<le> k" by (simp add: word_le_nat_alt)
    ultimately have "o' \<in> set (words (unat lo) (Suc (unat hi)))" unfolding in_words by blast
    then have "(o', 0) \<in> set (range_cells lo hi)" by (auto simp: range_cells_def in_row_cells)
    with cov(2) show "o' < ADDR_TABLE_SIZE" by blast
  qed
  have lanes: "words (unat i) 8 = i # words (Suc (unat i)) 8" "unat i < 8"
    using assms(4) by (simp_all add: words_Cons word_less_nat_alt)
  have row: "words (unat off) (Suc (unat hi)) = off # ?later"
    using range by (simp add: words_Cons word_le_nat_alt)
  have scan: "for_while (\<lambda>off. off \<le> hi) ?step off (?st, i) =
      bindR (foldS ?visit (?c # ?L) ?st) (\<lambda>(st, stop). Some (Inr ((st, 0), stop)))"
  proof -
    have "for_while (\<lambda>off. off \<le> hi) ?step off (?st, i) = foldS ?step (off # ?later) (?st, i)"
      by (simp only: offset_loop [OF cov(3)] row)
    also have "\<dots> = bindR (bindR (foldS ?visit (?c # row_after ?c) ?st) (\<lambda>(st, stop). Some (Inr ((st, 0), stop))))
        (\<lambda>(s, stop). if stop then Some (Inr (s, True)) else foldS ?step ?later s)"
      using exec_offset_cells [OF assms(3,4), of ws segment_id "loc_cpos loc" ?st]
      by (simp add: lanes(1) row_after_def)
    also have "\<dots> = bindR (foldS ?visit ((?c # row_after ?c) @ concat (map row_cells ?later)) ?st)
        (\<lambda>(st, stop). Some (Inr ((st, 0), stop)))"
      unfolding foldS_append
      by (cases "foldS ?visit (?c # row_after ?c) ?st" rule: run_cases) (auto simp: exec_offsets_cells [OF offs])
    finally show ?thesis by (simp only: append_Cons)
  qed
  let ?first = "group_from (loc_skip loc) (hd es)"
  let ?cell = "map group_of (drop (Suc j) (cell_entries P V ?c))"
  let ?near = "map group_of (concat (map (cell_entries P V) ?L))"
  let ?far = "map group_of (concat (map (cell_entries P V) (cells (Suc ?p) ?n)))"
  have len: "j < length (cell_entries P V ?c)"
    using assms(6) counter_reader.positions [OF workers_readD(2) [OF assms(1,4)], of off] by simp
  have groups: "?first # map group_of (tl es) = (?first # ?cell) @ ?near @ ?far" "hd es = cell_entries P V ?c ! j"
    using page_after_entries [OF assms(1) lim(2) p(1) page range(2)] len
    unfolding es_def cells_after_def fst_conv
    by (simp_all add: Cons_nth_drop_Suc [symmetric] del: cell_entries.simps)
  have L: "\<forall>(off, i)\<in>set ?L. off < ADDR_TABLE_SIZE \<and> i < 8"
    using assms(3) offs lanes(2) by (auto simp: row_after_def in_row_cells in_words word_less_nat_alt)
  let ?K = "\<lambda>st. bindR (foldS ?visit ?L st) (\<lambda>(st, stop).
      if stop then Some (Inr (x_planner st)) else
        bindR (foldS (exec_page ws segment_id (loc_cpos loc)) (words (Suc ?p) ?n) (st, 0, lo', hi'))
          (\<lambda>((st, _), _). Some (Inr (x_planner st))))"
  have "of_nat ?p + 1 = (of_nat (Suc ?p) :: u32)" by (simp only: of_nat_Suc add.commute)
  then have nxt: "get_offset_limits ws (of_nat ?p + 1) = Inr (lo', hi')" using lim'(1) by metis
  have "execute_from_locator ws segment_id loc pl =
      bindR (?visit ?c ?st) (\<lambda>(st, stop). if stop then Some (Inr (x_planner st)) else ?K st)"
  proof -
    have pages: "words (unat (of_nat ?p :: u32)) ?n = of_nat ?p # words (Suc ?p) ?n"
      using p by (simp add: words_Cons)
    have first: "exec_page ws segment_id (loc_cpos loc) (of_nat ?p) (?st, i, off, hi) =
        bindR (foldS ?visit (?c # ?L) ?st) (\<lambda>(st, stop).
          if stop then Some (Inr ((st, 0, off, hi), True)) else Some (Inr ((st, 0, lo', hi'), False)))"
      unfolding exec_page_def prod.case scan
      by (cases "foldS ?visit (?c # ?L) ?st" rule: run_cases) (auto simp: nxt simp del: foldS.simps)
    have "execute_from_locator ws segment_id loc pl =
        bindR (foldS (exec_page ws segment_id (loc_cpos loc)) (of_nat ?p # words (Suc ?p) ?n) (?st, i, off, hi))
          (\<lambda>((st, _), _). Some (Inr (x_planner st)))"
      by (simp only: execute_from_locator_def Let_def assms(8,9) page page_loop pages lim(1) bindR.simps)
    also have "\<dots> = bindR (foldS ?visit (?c # ?L) ?st) (\<lambda>(st, stop).
        if stop then Some (Inr (x_planner st)) else
          bindR (foldS (exec_page ws segment_id (loc_cpos loc)) (words (Suc ?p) ?n) (st, 0, lo', hi'))
            (\<lambda>((st, _), _). Some (Inr (x_planner st))))"
      unfolding foldS.simps(2) [of "exec_page ws segment_id (loc_cpos loc)"] first
      by (cases "foldS ?visit (?c # ?L) ?st" rule: run_cases) (auto simp del: foldS.simps)
    also have "\<dots> = bindR (?visit ?c ?st) (\<lambda>(st, stop). if stop then Some (Inr (x_planner st)) else ?K st)"
      unfolding foldS.simps(2) [of ?visit]
      by (cases "?visit ?c ?st" rule: run_cases) auto
    finally show ?thesis .
  qed
  also have "\<dots> = bindR (foldS add_chunk_group (?first # ?cell) ?pl)
      (\<lambda>(pl, stop). if stop then Some (Inr pl) else ?K (running False pl))"
    unfolding groups(2)
    by (rule visit_first [OF assms(1,4,6)]) (use assms(7) in blast)
  also have "\<dots> = bindR (foldS add_chunk_group ((?first # ?cell) @ ?near @ ?far) ?pl) (\<lambda>(pl, _). Some (Inr pl))"
  proof -
    have K: "?K (running False pl') = bindR (foldS add_chunk_group (?near @ ?far) pl') (\<lambda>(pl, _). Some (Inr pl))" for pl'
      unfolding visit_all [OF assms(1) L] foldS_append [of _ ?near ?far]
      by (cases "foldS add_chunk_group ?near pl'" rule: run_cases)
        (auto simp: exec_pages [OF assms(1,2) p(3) lim'] simp del: map_append concat_append foldS.simps)
    show ?thesis
      unfolding K foldS_append [of _ "?first # ?cell" "?near @ ?far"]
      by (cases "foldS add_chunk_group (?first # ?cell) ?pl" rule: run_cases) auto
  qed
  finally show ?thesis by (simp only: groups(1))
qed

subsection \<open>From a position in the stream to its cell\<close>

lemma concat_map_split:
  assumes "concat (map f cs) = es1 @ e # es2"
  shows "\<exists>cs1 c cs2 j. cs = cs1 @ c # cs2 \<and> j < length (f c) \<and> f c ! j = e \<and>
    es1 = concat (map f cs1) @ take j (f c) \<and> es2 = drop (Suc j) (f c) @ concat (map f cs2)"
  using assms
proof (induction cs arbitrary: es1)
  case (Cons c cs)
  show ?case
  proof (cases "length es1 < length (f c)")
    case True
    then have "es1 = take (length es1) (f c)" "e # es2 = drop (length es1) (f c) @ concat (map f cs)"
      using Cons.prems by (simp_all add: append_eq_append_conv_if split: if_splits)
    moreover have "drop (length es1) (f c) = f c ! length es1 # drop (Suc (length es1)) (f c)"
      using True by (simp add: Cons_nth_drop_Suc)
    ultimately show ?thesis
      using True by (intro exI [of _ "[]"] exI [of _ c] exI [of _ cs] exI [of _ "length es1"]) simp
  next
    case False
    then obtain es where es: "es1 = f c @ es" "concat (map f cs) = es @ e # es2"
      using Cons.prems by (auto simp: append_eq_append_conv2 Cons_eq_append_conv)
    from Cons.IH [OF es(2)] obtain cs1 c' cs2 j where "cs = cs1 @ c' # cs2" "j < length (f c')" "f c' ! j = e"
      "es = concat (map f cs1) @ take j (f c')" "es2 = drop (Suc j) (f c') @ concat (map f cs2)" by blast
    then show ?thesis
      by (intro exI [of _ "c # cs1"] exI [of _ c'] exI [of _ cs2] exI [of _ j]) (simp add: es(1))
  qed
qed simp

lemma cells_split:
  assumes "cells m n = cs1 @ (off, i) # cs2" "n \<le> 20"
  shows "cs2 = cells_after n (off, i)"
proof -
  let ?B = "1048576 :: nat" and ?p = "unat off div 1048576"
  have mem: "(off, i) \<in> set (cells m n)" using assms(1) by simp
  then have mn: "m \<le> n" by (auto simp: cells_def)
  have "off \<in> set (words (m * ?B) (n * ?B))" "i < 8"
    using mem unfolding cells_rows [OF mn] by (auto simp: in_row_cells)
  then have range: "m * ?B \<le> unat off" "unat off < n * ?B" and i: "unat i < 8"
    using assms(2) by (auto simp: in_words word_less_nat_alt)
  have p: "Suc (unat off) \<le> Suc ?p * ?B" "Suc ?p \<le> n"
    using range(2) by (simp_all add: Suc_le_eq dividend_less_div_times less_mult_imp_div_less)
  then have pn: "Suc ?p * ?B \<le> n * ?B" by (intro mult_le_mono1)
  have row: "row_cells off = map (Pair off) (words 0 (unat i)) @ (off, i) # row_after (off, i)"
    using words_append [of 0 "unat i" 8] words_range [OF i] i by (simp add: row_cells_def row_after_def)
  have split: "words (m * ?B) (n * ?B) = words (m * ?B) (unat off) @ off # words (Suc (unat off)) (n * ?B)"
    using words_append [of "m * ?B" "unat off" "n * ?B"] words_range [OF range(2)] range by simp
  have later: "words (Suc (unat off)) (n * ?B) = words (Suc (unat off)) (Suc ?p * ?B) @ words (Suc ?p * ?B) (n * ?B)"
    by (rule words_append [OF p(1) pn])
  define pre where "pre = concat (map row_cells (words (m * ?B) (unat off))) @ map (Pair off) (words 0 (unat i))"
  have eq: "cells m n = pre @ (off, i) # cells_after n (off, i)"
    unfolding cells_rows [OF mn] split later cells_after_def page_after_def cells_rows [OF p(2)] pre_def
    by (simp only: row map_append concat_append list.map concat.simps append_assoc append_Cons append_Nil
        fst_conv cells_rows [OF p(2)])
  from distinct_cells [OF assms(2), of m] have "(off, i) \<notin> set pre" "(off, i) \<notin> set (cells_after n (off, i))" unfolding eq by auto
  from append_Cons_eq_iff [OF this] show ?thesis using eq assms(1) by metis
qed

subsection \<open>The plan\<close>

text \<open>The rows of an entry from its \<open>s\<close>-th on are what \<open>group_from\<close> stands for.\<close>

lemma group_from_rows:
  assumes "s \<le> unat (e_count e)"
  shows "group_rows (group_from (of_nat s) e) = drop s (group_rows (group_of e))"
proof -
  have s: "s < 4294967296" using assms unat_u32_bound [of "e_count e"] by linarith
  then have "(of_nat s :: u32) \<le> e_count e" using assms by (simp add: rows_word_less)
  then have "unat (e_count e - of_nat s) = unat (e_count e) - s" using s by (simp add: unat_minus_u32)
  then show ?thesis
    using assms s by (simp add: group_rows_def group_from_def group_of_def drop_map)
qed

lemma groups_keep:
  assumes "foldS add_chunk_group gs pl = Some (Inr (pl', stop))"
  shows "pl_rows pl' = pl_rows pl \<and> pl_to_page pl' = pl_to_page pl"
  using assms
  by (rule foldS_keeps) (auto simp: add_chunk_group_def planner_add_chunk_def Let_def split: option.splits if_splits)

text \<open>The segment that starts at row \<open>s\<close> of an entry of the stream.\<close>

lemma segment_from_entry:
  assumes "workers_read ws P V" "unat (pl_to_page pl) \<le> 19" "pl_rows pl = of_nat R" "0 < R" "R < 4294967296"
    and "current_segment pl = None"
    and stream: "stream P V m (unat (pl_to_page pl)) = es1 @ e # es2"
    and s: "s \<le> unat (e_count e)" "loc_skip loc = of_nat s"
    and loc: "loc_offset loc = e_offset e" "loc_thread loc = e_thread e"
    and seg: "segment_id = 0 \<and> es1 = [] \<and> s = 0 \<or> segment_id \<noteq> 0 \<and> loc_cpos loc = e_pos e"
  shows "\<exists>pl' x gs. execute_from_locator ws segment_id loc pl = Some (Inr pl') \<and>
    pl_rows pl' = pl_rows pl \<and> pl_to_page pl' = pl_to_page pl \<and> current_segment pl' = Some (segment_spec x gs) \<and>
    groups_rows gs = take R (drop (rows_total es1 + s) (groups_rows (map group_of (es1 @ e # es2))))"
proof -
  let ?n = "unat (pl_to_page pl)"
  from concat_map_split [OF stream [unfolded stream_def]] obtain cs1 c cs2 j
    where cs: "cells m ?n = cs1 @ c # cs2" and j: "j < length (cell_entries P V c)" "cell_entries P V c ! j = e"
      and es1: "es1 = concat (map (cell_entries P V) cs1) @ take j (cell_entries P V c)"
      and es2: "es2 = drop (Suc j) (cell_entries P V c) @ concat (map (cell_entries P V) cs2)" by blast
  obtain off i where c: "c = (off, i)" by fastforce
  have "c \<in> set (cells m ?n)" using cs by simp
  then have off: "off < ADDR_TABLE_SIZE" "i < 8" using in_cells [of ?n off i m] assms(2) by (auto simp: c)
  have page: "unat off div 1048576 < ?n"
  proof -
    from \<open>c \<in> set (cells m ?n)\<close> obtain p where p: "p < ?n" "(off, i) \<in> set (page_cells p)"
      by (auto simp: cells_def c)
    then have "offset_to_page off = of_nat p" using in_page_cells [of p] assms(2) by simp
    then have "unat off < Suc p * 1048576" using page_of_offset [of p off] p(1) assms(2) by simp
    then show ?thesis using p(1) by (simp add: less_mult_imp_div_less)
  qed
  have entries: "length (P i off) = length (V i off)"
    using counter_reader.positions [OF workers_readD(2) [OF assms(1) off(2)], of off] by blast
  then have jV: "j < length (V i off)" using j(1) by (simp add: c)
  have e: "e_offset e = off" "e_thread e = i" "e_pos e = P i off ! j"
    using j jV entries by (auto simp: c split: prod.split)
  let ?rest = "cells_after ?n (off, i)"
  have cs2: "cs2 = ?rest" using cells_split [of m ?n cs1 off i cs2] cs assms(2) by (simp add: c)
  have es: "drop j (cell_entries P V (off, i)) @ concat (map (cell_entries P V) ?rest) = e # es2"
    using j Cons_nth_drop_Suc [OF j(1)] unfolding es2 cs2 by (simp add: c del: cell_entries.simps)
  have first: "segment_id = 0 \<and> j = 0 \<and> loc_skip loc = 0 \<or> segment_id \<noteq> 0 \<and> loc_cpos loc = P i off ! j"
    using seg s(2) e(3) j(1) es1 by auto
  have exec: "execute_from_locator ws segment_id loc pl =
      bindR (foldS add_chunk_group (group_from (of_nat s) e # map group_of es2)
          (pl\<lparr>locators_done := locators_done pl + 1\<rparr>)) (\<lambda>(pl, _). Some (Inr pl))"
    using execute_from_locator_groups [OF assms(1,2) off page jV first] loc e es s(2)
    by (simp del: cell_entries.simps)
  have "\<forall>h\<in>set (map group_of es2). g_skip h = 0" by (simp add: group_of_def)
  from run_groups [OF _ _ assms(4,5) this, of "pl\<lparr>locators_done := locators_done pl + 1\<rparr>" "group_from (of_nat s) e"]
  obtain pl' stop x where "foldS add_chunk_group (group_from (of_nat s) e # map group_of es2)
      (pl\<lparr>locators_done := locators_done pl + 1\<rparr>) = Some (Inr (pl', stop))"
    "current_segment pl' = Some (segment_spec x (fill R (group_from (of_nat s) e # map group_of es2)))"
    using assms(3,6) by auto
  moreover have "groups_rows (fill R (group_from (of_nat s) e # map group_of es2)) =
      take R (drop (rows_total es1 + s) (groups_rows (map group_of (es1 @ e # es2))))"
  proof -
    have "length (group_rows (group_of e)) = unat (e_count e)" by (simp add: group_rows_def group_of_def)
    then have "drop (rows_total es1 + s) (groups_rows (map group_of (es1 @ e # es2))) =
        drop s (group_rows (group_of e)) @ groups_rows (map group_of es2)"
      using s(1) length_groups_rows [of es1]
      by (simp add: groups_rows_append) (simp add: groups_rows_def)
    then show ?thesis
      unfolding fill_rows [OF assms(5)] using group_from_rows [OF s(1)] by (simp add: groups_rows_def)
  qed
  moreover have "pl_rows pl' = pl_rows pl \<and> pl_to_page pl' = pl_to_page pl"
    using groups_keep [OF calculation(1)] by simp
  ultimately show ?thesis
    unfolding exec
    by (intro exI [of _ pl'] exI [of _ x] exI [of _ "fill R (group_from (of_nat s) e # map group_of es2)"])
      (simp only: bindR.simps prod.case simp_thms)
qed

text \<open>Every locator of the plan builds its slice of the stream.\<close>

lemma plan_segment:
  assumes "workers_read ws P V" "unat (pl_to_page pl) \<le> 19" "pl_rows pl = of_nat R" "0 < R" "R < 4294967296"
    and "current_segment pl = None"
    and es: "es = stream P V m (unat (pl_to_page pl))" "es \<noteq> []"
    and k: "k \<le> rows_total es div R" "k < 4294967296"
  shows "\<exists>pl' x gs. execute_from_locator ws (of_nat k) (locators_of P R es ! k) pl = Some (Inr pl') \<and>
    pl_rows pl' = pl_rows pl \<and> pl_to_page pl' = pl_to_page pl \<and> current_segment pl' = Some (segment_spec x gs) \<and>
    groups_rows gs = take R (drop (k * R) (groups_rows (map group_of es)))"
proof (cases k)
  case 0
  obtain e es0 where e: "es = e # es0" using es(2) by (cases es) auto
  then have "stream P V m (unat (pl_to_page pl)) = [] @ e # es0" using es(1) by simp
  from segment_from_entry [OF assms(1-6) this, of 0 "locators_of P R es ! k" "of_nat k"] show ?thesis
    by (simp add: 0 e locators_of_def)
next
  case (Suc j)
  have "length (stream_cuts R 0 es) = rows_total es div R" using length_stream_cuts [OF assms(4), of 0 es] by simp
  then have j: "j < length (stream_cuts R 0 es)" using k(1) Suc by simp
  from nth_stream_cuts [OF assms(4) j] obtain es1 e es2 s
    where cut: "es = es1 @ e # es2" "stream_cuts R 0 es ! j = (e, s)" "s \<le> unat (e_count e)"
      "rows_total es1 + s = k * R" using Suc by auto
  have loc: "locators_of P R es ! k = locator_at e s"
  proof -
    obtain a as where as: "es = a # as" using es(2) by (cases es) auto
    then have "locators_of P R es ! k = map (\<lambda>(e, s). locator_at e s) (stream_cuts R 0 es) ! j"
      by (simp only: Suc locators_of_def list.case nth_Cons_Suc)
    then show ?thesis using cut(2) j by simp
  qed
  have "(of_nat k :: u32) \<noteq> 0" using k(2) Suc of_nat_u32_eq_0_iff [of k] by simp
  then show ?thesis
    using segment_from_entry [OF assms(1-6), of m es1 e es2 s "locator_at e s" "of_nat k"] cut es(1)
    unfolding loc by (simp add: locator_at_def)
qed

end
