(* ===== verification/Ram_Pipeline.thy ===== *)
theory Ram_Pipeline
  imports Ram_Plan
begin

text \<open>
  The RAM plan as a whole: the locators one planner generates, taken by planners until the queue is empty and complete,
  become the segments of consecutive slices of the stream of rows.
\<close>

lemma length_locators_of:
  "0 < R \<Longrightarrow> length (locators_of P R es) = (if es = [] then 0 else Suc (rows_total es div R))"
  using length_stream_cuts [of R 0 es]
  by (cases es) (simp_all add: locators_of_def del: stream_cuts.simps rows_total_simps)

subsection \<open>Emptying the queue\<close>

text \<open>What the loop of a planner needs to know of its locators: each builds some segment and leaves a planner that can go on.\<close>

definition ready :: "nat \<Rightarrow> nat \<Rightarrow> MemPlanner \<Rightarrow> bool" where
  "ready R n pl \<longleftrightarrow> pl_rows pl = of_nat R \<and> unat (pl_to_page pl) = n \<and> current_segment pl = None"

definition builds :: "MemCounter list \<Rightarrow> (MemPlanner \<Rightarrow> bool) \<Rightarrow> nat \<Rightarrow> MemLocator \<Rightarrow> (MemSegment \<Rightarrow> bool) \<Rightarrow> bool" where
  "builds ws ok k loc good \<longleftrightarrow> (\<forall>pl. ok pl \<longrightarrow> (\<exists>pl' s. execute_from_locator ws (of_nat k) loc pl = Some (Inr pl') \<and>
    current_segment pl' = Some s \<and> good s \<and> ok (pl'\<lparr>current_segment := None\<rparr>)))"

definition segments_upto :: "nat \<Rightarrow> nat \<Rightarrow> (nat \<Rightarrow> MemSegment) \<Rightarrow> MemSegments \<Rightarrow> MemSegments" where
  "segments_upto r n S segs = (\<lambda>w. if r \<le> unat w \<and> unat w < n then Some (Some (S (unat w))) else segs w)"

lemma pushed_nth: "k < length (pushed q) \<Longrightarrow> loc_table q k = pushed q ! k"
  by (simp add: pushed_def)

lemma get_next_locator_some:
  "read_pos q < length (pushed q) \<Longrightarrow> get_next_locator q =
    Some (Inr (Some (of_nat (read_pos q), pushed q ! read_pos q), q\<lparr>read_pos := Suc (read_pos q)\<rparr>))"
  by (simp add: get_next_locator_def get_locator_def Let_def pushed_nth)

lemma get_next_locator_none:
  assumes "read_pos q = length (pushed q)" "loc_completed q"
  shows "get_next_locator q = Some (Inr (None, q))"
proof -
  have none: "get_locator q = (None, q)" using assms(1) by (simp add: get_locator_def)
  have "poll_locator True q = Some (Inr (None, q))"
    using assms(2) by (subst poll_locator.simps) (simp add: is_completed_def)
  then have "poll_locator False q = Some (Inr (None, q))"
    using none by (subst poll_locator.simps) simp
  then show ?thesis using none by (simp add: get_next_locator_def)
qed

lemma drain:
  assumes "loc_completed q" "read_pos q \<le> length (pushed q)" "length (pushed q) \<le> 2048" "ok pl"
    and "\<And>k. k < length (pushed q) \<Longrightarrow> builds ws ok k (pushed q ! k) (good k)"
  shows "\<exists>q' pl' S. execute_from_locators ws q segs pl =
      Some (Inr (q', segments_upto (read_pos q) (length (pushed q)) S segs, pl')) \<and>
    (\<forall>k<length (pushed q). read_pos q \<le> k \<longrightarrow> good k (S k)) \<and> ok pl' \<and>
    pushed q' = pushed q \<and> read_pos q' = length (pushed q) \<and> loc_completed q'"
  using assms
proof (induction "length (pushed q) - read_pos q" arbitrary: q segs pl)
  case 0
  then have r: "read_pos q = length (pushed q)" by simp
  have "segments_upto (read_pos q) (length (pushed q)) S segs = segs" for S
    unfolding segments_upto_def r by (intro ext) auto
  then show ?case
    using get_next_locator_none [OF r 0(2)] 0(2,5) r by (subst execute_from_locators.simps) simp
next
  case (Suc d)
  let ?r = "read_pos q" and ?n = "length (pushed q)"
  let ?q = "q\<lparr>read_pos := Suc ?r\<rparr>"
  have r: "?r < ?n" using Suc.hyps(2) by linarith
  obtain pl' s where seg: "execute_from_locator ws (of_nat ?r) (pushed q ! ?r) pl = Some (Inr pl')"
    "current_segment pl' = Some s" "good ?r s" "ok (pl'\<lparr>current_segment := None\<rparr>)"
    using Suc.prems(5) [OF r] Suc.prems(4) unfolding builds_def by blast
  let ?segs = "segments_set (of_nat ?r) (Some s) segs"
  have same: "pushed ?q = pushed q" by (simp add: pushed_def)
  have "\<exists>q' pl'' S. execute_from_locators ws ?q ?segs (pl'\<lparr>current_segment := None\<rparr>) =
      Some (Inr (q', segments_upto (read_pos ?q) (length (pushed ?q)) S ?segs, pl'')) \<and>
    (\<forall>k<length (pushed ?q). read_pos ?q \<le> k \<longrightarrow> good k (S k)) \<and> ok pl'' \<and>
    pushed q' = pushed ?q \<and> read_pos q' = length (pushed ?q) \<and> loc_completed q'"
    by (rule Suc.hyps(1)) (use Suc.hyps(2) Suc.prems r seg(4) in \<open>simp_all add: same del: length_pushed\<close>)
  then obtain q' pl'' S where rest: "execute_from_locators ws ?q ?segs (pl'\<lparr>current_segment := None\<rparr>) =
      Some (Inr (q', segments_upto (Suc ?r) ?n S ?segs, pl''))"
    "\<forall>k<?n. Suc ?r \<le> k \<longrightarrow> good k (S k)" "ok pl''" "pushed q' = pushed q" "read_pos q' = ?n" "loc_completed q'"
    by (auto simp: same simp del: length_pushed)
  have "?r < 4294967296" using r Suc.prems(3) by linarith
  then have split: "segments_upto (Suc ?r) ?n S ?segs = segments_upto ?r ?n (S(?r := s)) segs"
    using r by (auto simp: segments_upto_def segments_set_def fun_eq_iff word_eq_of_nat simp del: length_pushed)
  have "execute_from_locators ws q segs pl = Some (Inr (q', segments_upto ?r ?n (S(?r := s)) segs, pl''))"
    using get_next_locator_some [OF r] seg(1,2) rest(1) split
    by (subst execute_from_locators.simps) simp
  then show ?case
    using rest seg(3) by (intro exI [of _ q'] exI [of _ pl''] exI [of _ "S(?r := s)"]) auto
qed


subsection \<open>The plan of the RAM\<close>

lemma plan_builds:
  assumes "workers_read ws P V" "n \<le> 19" "0 < R" "R < 4294967296"
    and es: "es = stream P V m n" "es \<noteq> []" and k: "k \<le> rows_total es div R" "k < 4294967296"
  shows "builds ws (ready R n) k (locators_of P R es ! k)
    (\<lambda>s. \<exists>x gs. s = segment_spec x gs \<and> groups_rows gs = row_slice R k (stream_rows es))"
  unfolding builds_def
proof (intro allI impI)
  fix pl assume "ready R n pl"
  then have pl: "pl_rows pl = of_nat R" "unat (pl_to_page pl) = n" "current_segment pl = None"
    by (simp_all add: ready_def)
  have "unat (pl_to_page pl) \<le> 19" "es = stream P V m (unat (pl_to_page pl))" using assms(2) es(1) pl(2) by simp_all
  from plan_segment [OF assms(1) this(1) pl(1) assms(3,4) pl(3) this(2) es(2) k]
  obtain pl' x gs where "execute_from_locator ws (of_nat k) (locators_of P R es ! k) pl = Some (Inr pl')"
    "pl_rows pl' = pl_rows pl" "pl_to_page pl' = pl_to_page pl" "current_segment pl' = Some (segment_spec x gs)"
    "groups_rows gs = take R (drop (k * R) (groups_rows (map group_of es)))" by blast
  then show "\<exists>pl' s. execute_from_locator ws (of_nat k) (locators_of P R es ! k) pl = Some (Inr pl') \<and>
      current_segment pl' = Some s \<and> (\<exists>x gs. s = segment_spec x gs \<and> groups_rows gs = row_slice R k (stream_rows es)) \<and>
      ready R n (pl'\<lparr>current_segment := None\<rparr>)"
    using pl by (intro exI [of _ pl'] exI [of _ "segment_spec x gs"]) (auto simp: ready_def row_slice_def stream_rows_def)
qed

lemma ram_pipeline:
  assumes "workers_read ws P V" "ready R n pl" "ready R n pl2" "n \<le> 19" "0 < R" "R < 4294967296"
    and es: "es = stream P V (unat (pl_from_page pl)) n" and fits: "rows_total es div R < 2048"
  shows "\<exists>q pl' q' pl'' S. generate_locators ws (locators_new tbl) pl = Some (Inr (q, pl')) \<and>
    execute_from_locators ws q Map.empty pl2 =
      Some (Inr (q', segments_upto 0 (length (locators_of P R es)) S Map.empty, pl'')) \<and>
    read_pos q' = length (pushed q') \<and> loc_completed q' \<and>
    (\<forall>k<length (locators_of P R es). \<exists>x gs. S k = segment_spec x gs \<and> groups_rows gs = row_slice R k (stream_rows es))"
proof -
  let ?ls = "locators_of P R es"
  have pl: "pl_rows pl = of_nat R" "unat (pl_to_page pl) \<le> 20" "es = stream P V (unat (pl_from_page pl)) (unat (pl_to_page pl))"
    using assms(2,4) es by (simp_all add: ready_def)
  from generate_locators_stream [OF assms(1) pl(1) assms(5,6) pl(2,3), of "locators_new tbl"] fits
  obtain q pl' where gen: "generate_locators ws (locators_new tbl) pl = Some (Inr (q, pl'))"
    "pushed q = ?ls" "read_pos q = 0" "loc_completed q"
    by (auto simp: locators_new_def pushed_def)
  have len: "length ?ls \<le> 2048" using length_locators_of [OF assms(5), of P es] fits by simp
  have "builds ws (ready R n) k (?ls ! k) (\<lambda>s. \<exists>x gs. s = segment_spec x gs \<and> groups_rows gs = row_slice R k (stream_rows es))"
    if "k < length ?ls" for k
    using that length_locators_of [OF assms(5), of P es] len
    by (intro plan_builds [OF assms(1,4-6) es]) (auto split: if_splits)
  then show ?thesis
    using drain [of q "ready R n" pl2 ws "\<lambda>k s. \<exists>x gs. s = segment_spec x gs \<and> groups_rows gs = row_slice R k (stream_rows es)" Map.empty]
      gen len assms(3) by (fastforce simp del: length_pushed)
qed


lemma addr_to_page_bound: "addr_to_page a = Inr p \<Longrightarrow> unat p \<le> 19"
  by (auto simp: addr_to_page_def Let_def split: if_splits)

lemma mem_planner_newD:
  assumes "mem_planner_new ident (of_nat R) a mb = Inr pl"
  shows "ready R (unat (pl_to_page pl)) pl" "unat (pl_to_page pl) \<le> 19"
    and "planner_pages a mb = Inr (pl_from_page pl, pl_to_page pl)"
  using assms addr_to_page_bound
  by (auto simp: mem_planner_new_def planner_pages_def ready_def bindE_eq_Inr split: if_splits)

lemma ram_pages: "planner_pages 0xA0000000 512 = Inr (4, 11)"
  by (simp add: planner_pages_def addr_to_page_eq window_page_def page_to_addr_def)

text \<open>What the plan of the RAM contains: all rows, once and in order, \<open>R\<close> per segment but for the last.\<close>

definition ram_plan :: "nat \<Rightarrow> stream_entry list \<Rightarrow> MemSegments \<Rightarrow> bool" where
  "ram_plan R es segs \<longleftrightarrow> (\<exists>G x. segs = (\<lambda>w. if unat w < length G then Some (Some (segment_spec (x (unat w)) (G ! unat w))) else None) \<and>
    length G = (if es = [] then 0 else Suc (rows_total es div R)) \<and>
    concat (map groups_rows G) = stream_rows es \<and> (\<forall>gs\<in>set (butlast G). length (groups_rows gs) = R))"

text \<open>Segments that hold the slices of the rows are such a plan.\<close>

lemma concat_plan_slices:
  assumes "0 < R" "n = (if es = [] then 0 else Suc (rows_total es div R))"
  shows "concat (map (\<lambda>k. row_slice R k (stream_rows es)) [0..<n]) = stream_rows es"
proof (cases "es = []")
  case True
  then show ?thesis using assms(2) by (simp add: stream_rows_def groups_rows_def)
next
  case False
  then show ?thesis
    unfolding assms(2) using concat_slices [OF assms(1), of "stream_rows es"] by (simp del: upt_Suc)
qed

lemma slices_ram_plan:
  assumes "0 < R" "n = (if es = [] then 0 else Suc (rows_total es div R))"
    and "\<forall>k<n. \<exists>x gs. S k = segment_spec x gs \<and> groups_rows gs = row_slice R k (stream_rows es)"
  shows "ram_plan R es (segments_upto 0 n S Map.empty)"
proof -
  obtain x g where g: "\<forall>k<n. S k = segment_spec (x k) (g k) \<and> groups_rows (g k) = row_slice R k (stream_rows es)"
    using assms(3) by metis
  define G where "G = map g [0..<n]"
  have segs: "segments_upto 0 n S Map.empty =
      (\<lambda>w. if unat w < length G then Some (Some (segment_spec (x (unat w)) (G ! unat w))) else None)"
    using g by (auto simp: segments_upto_def G_def fun_eq_iff)
  have rows: "map groups_rows G = map (\<lambda>k. row_slice R k (stream_rows es)) [0..<n]"
    using g by (simp add: G_def)
  have "\<forall>gs\<in>set (butlast G). length (groups_rows gs) = R"
  proof
    fix gs assume "gs \<in> set (butlast G)"
    then obtain k where k: "k < n - 1" "gs = g k"
      by (auto simp: G_def in_set_conv_nth nth_butlast)
    then have "k < length (stream_rows es) div R" using assms(2) by (simp split: if_splits)
    then show "length (groups_rows gs) = R" using g k length_slice by fastforce
  qed
  moreover have "concat (map groups_rows G) = stream_rows es"
    unfolding rows by (rule concat_plan_slices [OF assms(1,2)])
  moreover have "length G = (if es = [] then 0 else Suc (rows_total es div R))" unfolding G_def assms(2) by simp
  ultimately show ?thesis unfolding ram_plan_def segs by blast
qed

text \<open>One planner generates, another drains: what both return.\<close>

lemma ram_plan_segments:
  assumes "workers_read ws P V" "0 < R" "R < 4294967296"
    and "mem_planner_new i (of_nat R) a mb = Inr pl" "mem_planner_new j (of_nat R) a mb = Inr pl2"
    and es: "es = stream P V (unat (pl_from_page pl)) (unat (pl_to_page pl))" and "rows_total es div R < MAX_LOCATORS"
  shows "\<exists>q pl' q' segs pl''. generate_locators ws (locators_new tbl) pl = Some (Inr (q, pl')) \<and>
    execute_from_locators ws q Map.empty pl2 = Some (Inr (q', segs, pl'')) \<and>
    read_pos q' = length (pushed q') \<and> loc_completed q' \<and> ram_plan R es segs"
proof -
  let ?n = "unat (pl_to_page pl)" and ?ls = "locators_of P R es"
  note new = mem_planner_newD [OF assms(4)] mem_planner_newD [OF assms(5)]
  have "ready R ?n pl2" using new by simp
  from ram_pipeline [OF assms(1) new(1) this new(2) assms(2,3) es, of tbl] assms(7)
  obtain q pl' q' pl'' S where run: "generate_locators ws (locators_new tbl) pl = Some (Inr (q, pl'))"
    "execute_from_locators ws q Map.empty pl2 = Some (Inr (q', segments_upto 0 (length ?ls) S Map.empty, pl''))"
    and fin: "read_pos q' = length (pushed q')" "loc_completed q'" and good:
    "\<forall>k<length ?ls. \<exists>x gs. S k = segment_spec x gs \<and> groups_rows gs = row_slice R k (stream_rows es)" by auto
  from slices_ram_plan [OF assms(2) length_locators_of [OF assms(2)] good] run fin show ?thesis by blast
qed

subsection \<open>Properties\<close>

text \<open>
  C7: The RAM plan. One planner generates the locators and another takes them until the queue is empty: both return
  without an error, and the segments they leave, one per locator, hold the rows of the planned pages, each row once
  and in order: every segment but the last has \<open>R\<close> rows, the last one the remaining rows (none, when the number of
  rows is a multiple of \<open>R\<close>).
\<close>

theorem ram_plan_covers_rows:
  assumes "workers_read ws P V" "0 < R" "R < 4294967296"
    and "mem_planner_new i (of_nat R) a mb = Inr pl" "mem_planner_new j (of_nat R) a mb = Inr pl2"
    and es: "es = stream P V (unat (pl_from_page pl)) (unat (pl_to_page pl))" and "rows_total es div R < MAX_LOCATORS"
  shows "\<exists>q pl' q' pl'' G x. generate_locators ws (locators_new tbl) pl = Some (Inr (q, pl')) \<and>
    execute_from_locators ws q Map.empty pl2 = Some (Inr (q', (\<lambda>w. if unat w < length G
      then Some (Some (segment_spec (x (unat w)) (G ! unat w))) else None), pl'')) \<and>
    length G = (if es = [] then 0 else Suc (rows_total es div R)) \<and>
    concat (map groups_rows G) = stream_rows es \<and> (\<forall>gs\<in>set (butlast G). length (groups_rows gs) = R)"
  using ram_plan_segments [OF assms, of tbl] unfolding ram_plan_def by blast

theorem ram_plan_covers_rows_witness:
  "\<exists>ws pl pl2 q pl' q' pl'' G x. generate_locators ws (locators_new (\<lambda>_. loc1)) pl = Some (Inr (q, pl')) \<and>
    execute_from_locators ws q Map.empty pl2 = Some (Inr (q', (\<lambda>w. if unat w < length G
      then Some (Some (segment_spec (x (unat w)) (G ! unat w))) else None), pl'')) \<and> length G = 3 \<and>
    concat (map groups_rows G) = map (\<lambda>i. (7, 0xA0000000, i)) [0..<5]"
proof -
  have "addr_to_offset 0xA0000000 0 = Inr 0x400000" by (simp add: addr_to_offset_eq window_page_def)
  then obtain ws P where ws: "workers_read ws P (one_entry 0x400000 7 5)" by (rule one_entry_workers)
  obtain pl where pl: "mem_planner_new 0 (of_nat 2) 0xA0000000 512 = Inr pl" "pl_from_page pl = 4" "pl_to_page pl = 11"
    by (simp add: mem_planner_new_def ram_pages)
  obtain pl2 where pl2: "mem_planner_new 1 (of_nat 2) 0xA0000000 512 = Inr pl2"
    by (simp add: mem_planner_new_def ram_pages)
  have "offset_to_page 0x400000 = of_nat 4" by (simp add: offset_to_page_words)
  then obtain p where st: "stream P (one_entry 0x400000 7 5) 4 11 =
      [\<lparr>e_thread = 0, e_offset = 0x400000, e_pos = p, e_chunk = 7, e_count = 5\<rparr>]"
    using stream_one_entry [OF ws, of 11 4] by force
  have addr: "cell_addr (0x400000, 0) = 0xA0000000"
    by (simp add: cell_addr.simps offset_to_addr_def page_to_addr_def)
  show ?thesis
    using ram_plan_covers_rows [OF ws _ _ pl(1) pl2 refl, of "\<lambda>_. loc1"] 
    by (simp add: pl st stream_rows_def groups_rows_def group_rows_def group_of_def addr) blast
qed

text \<open>
  The last page of the RAM is never planned. A planner of the RAM covers the pages from 4 up to but not including
  11, the page of the last byte: a counter that has counted an access at \<open>0xBC000000\<close> only makes no locator.
\<close>

theorem last_page_unplanned:
  "\<exists>ws pl q pl'. get_count_table (ws ! 0) 0xB00000 = Inr 2 \<and> offset_to_addr 0xB00000 0 = Inr 0xBC000000 \<and>
    mem_planner_new 0 RAM_ROWS 0xA0000000 512 = Inr pl \<and>
    generate_locators ws (locators_new tbl) pl = Some (Inr (q, pl')) \<and> pushed q = [] \<and> loc_completed q"
proof -
  have "addr_to_offset 0xBC000000 0 = Inr 0xB00000" by (simp add: addr_to_offset_eq window_page_def)
  then obtain ws P where ws: "workers_read ws P (one_entry 0xB00000 5 2)" "get_count_table (ws ! 0) 0xB00000 = Inr 2"
    by (rule one_entry_workers)
  obtain pl where pl: "mem_planner_new 0 RAM_ROWS 0xA0000000 512 = Inr pl" "pl_from_page pl = 4" "pl_to_page pl = 11"
    "pl_rows pl = of_nat 4194304"
    by (simp add: mem_planner_new_def ram_pages)
  have "offset_to_page 0xB00000 = of_nat 11" by (simp add: offset_to_page_words)
  moreover have "(of_nat 11 :: u32) \<noteq> of_nat p" if "p < 11" for p
    using of_nat_u32_eq_iff [of 11 p] that by simp
  ultimately have "stream P (one_entry 0xB00000 5 2) 4 11 = []"
    using stream_one_entry [OF ws(1), of 11 4] by fastforce
  then have "stream P (one_entry 0xB00000 5 2) (unat (pl_from_page pl)) (unat (pl_to_page pl)) = []"
    by (simp add: pl)
  from generate_locators_stream [OF ws(1) pl(4) _ _ _ this [symmetric], of "locators_new tbl"]
  obtain q pl' where "generate_locators ws (locators_new tbl) pl = Some (Inr (q, pl'))" "pushed q = []" "loc_completed q"
    by (auto simp: pl locators_of_def pushed_def locators_new_def)
  moreover have "offset_to_addr 0xB00000 0 = Inr 0xBC000000" by (simp add: offset_to_addr_def page_to_addr_def)
  ultimately show ?thesis
    using ws(2) pl(1) by (intro exI [of _ ws] exI [of _ pl] exI [of _ q] exI [of _ pl']) simp
qed

end
