(* ===== verification/Immutable_Planner.thy ===== *)
theory Immutable_Planner
  imports Stream_Rows
begin

text \<open>
  \<open>ImmutableMemPlanner\<close> of \<open>immutable_mem_planner.hpp\<close>, the planner of the ROM and of the input data. It
  walks the counters alone and fills segments of \<open>rows_by_segment\<close> rows; addresses that nobody accessed cost a row
  each (the internal reads of the gap to the next address). The \<open>printf\<close>s are left out.
\<close>

subsection \<open>State\<close>

text \<open>\<open>last_addr\<close> is not initialised by the constructor; \<open>execute\<close> sets it before any use.\<close>

record ImmutableMemPlanner =
  rows_by_segment :: u32
  im_from_page :: u32
  im_to_page :: u32
  im_available :: u32
  im_ref_chunk :: u32
  im_ref_addr :: u32
  im_ref_skip :: u32
  im_chunk :: u32
  im_last_addr :: u32
  im_max_chunks :: u32
  im_large :: u32
  im_tot_chunks :: u32
  im_segment :: MemSegment
  im_segments :: "MemSegment list"

definition immutable_new :: "u32 \<Rightarrow> u32 \<Rightarrow> u32 \<Rightarrow> u32 \<Rightarrow> ImmutableMemPlanner res" where
  "immutable_new last0 rows a mb_size =
    bindE (planner_pages a mb_size) (\<lambda>(from_page, to_page).
    Inr \<lparr>rows_by_segment = rows, im_from_page = from_page, im_to_page = to_page, im_available = rows,
      im_ref_chunk = NO_CHUNK_ID, im_ref_addr = 0, im_ref_skip = 0, im_chunk = NO_CHUNK_ID, im_last_addr = last0,
      im_max_chunks = 0, im_large = 0, im_tot_chunks = 0, im_segment = segment_new, im_segments = []\<rparr>)"

subsection \<open>Segments\<close>

definition set_reference :: "u32 \<Rightarrow> u32 \<Rightarrow> ImmutableMemPlanner \<Rightarrow> ImmutableMemPlanner" where
  "set_reference chunk_id a pl = pl\<lparr>im_ref_chunk := chunk_id, im_ref_addr := a, im_ref_skip := 0\<rparr>"

definition set_current_chunk :: "u32 \<Rightarrow> ImmutableMemPlanner \<Rightarrow> ImmutableMemPlanner" where
  "set_current_chunk chunk_id pl = pl\<lparr>im_chunk := chunk_id\<rparr>"

definition close_segment :: "ImmutableMemPlanner \<Rightarrow> ImmutableMemPlanner" where
  "close_segment pl =
    (let segment_chunks = segment_size (im_segment pl);
         pl = (if segment_chunks > im_max_chunks pl then pl\<lparr>im_max_chunks := segment_chunks\<rparr> else pl);
         pl = (if segment_chunks \<ge> SEGMENT_LARGE_CHUNKS then pl\<lparr>im_large := im_large pl + 1\<rparr> else pl);
         pl = pl\<lparr>im_tot_chunks := im_tot_chunks pl + segment_chunks\<rparr> in
     pl\<lparr>im_segments := im_segments pl @ [im_segment pl], im_segment := segment_new\<rparr>)"

definition close_last_segment :: "ImmutableMemPlanner \<Rightarrow> ImmutableMemPlanner" where
  "close_last_segment pl = (if im_available pl < rows_by_segment pl then close_segment pl else pl)"

definition open_segment :: "ImmutableMemPlanner \<Rightarrow> ImmutableMemPlanner" where
  "open_segment pl =
    (let pl = close_segment pl;
         pl = (if im_ref_chunk pl \<noteq> NO_CHUNK_ID
           then pl\<lparr>im_segment := add_or_update (im_ref_chunk pl) (im_ref_addr pl) (im_ref_skip pl) 0 (im_segment pl)\<rparr>
           else pl) in
     pl\<lparr>im_available := rows_by_segment pl\<rparr>)"

definition add_chunk_to_segment :: "u32 \<Rightarrow> u32 \<Rightarrow> u32 \<Rightarrow> u32 \<Rightarrow> ImmutableMemPlanner \<Rightarrow> ImmutableMemPlanner" where
  "add_chunk_to_segment chunk_id a count skip pl =
    pl\<lparr>im_segment := add_or_update chunk_id a skip count (im_segment pl)\<rparr>"

definition add_next_addr_to_segment :: "u32 \<Rightarrow> ImmutableMemPlanner \<Rightarrow> ImmutableMemPlanner" where
  "add_next_addr_to_segment a pl = add_chunk_to_segment (im_chunk pl) a 1 0 pl"

definition preopen_segment :: "u32 \<Rightarrow> u32 \<Rightarrow> ImmutableMemPlanner \<Rightarrow> ImmutableMemPlanner" where
  "preopen_segment a intermediate_rows pl =
    (if im_available pl = 0 then
       open_segment (if intermediate_rows > 0 then add_next_addr_to_segment a pl else pl)
     else pl)"

subsection \<open>Rows\<close>

definition consume_rows :: "u32 \<Rightarrow> u32 \<Rightarrow> u32 \<Rightarrow> ImmutableMemPlanner \<Rightarrow> ImmutableMemPlanner res" where
  "consume_rows a row_count skip pl =
    (if row_count = 0 \<and> im_available pl > 0 then Inr pl
     else if row_count > im_available pl then Inl (Too_much_rows row_count (im_available pl))
     else
       let pl = (if im_available pl = 0 then open_segment pl else pl);
           pl = add_chunk_to_segment (im_chunk pl) a row_count skip pl in
       Inr (pl\<lparr>im_available := im_available pl - row_count, im_ref_skip := im_ref_skip pl + row_count\<rparr>))"

definition consume_intermediate_rows :: "u32 \<Rightarrow> ImmutableMemPlanner \<Rightarrow> ImmutableMemPlanner res" where
  "consume_intermediate_rows row_count pl =
    (if row_count = 0 \<and> im_available pl > 0 then Inr pl
     else if row_count > im_available pl then Inl (Too_much_rows row_count (im_available pl))
     else
       let pl = (if im_available pl = 0 then open_segment pl else pl) in
       Inr (pl\<lparr>im_available := im_available pl - row_count\<rparr>))"

text \<open>
  The loops on \<open>pending\<close>. The address the code passes along with intermediate rows is not used by
  \<open>consume_intermediate_rows\<close>, and left out.
\<close>

partial_function (option) intermediate_rows_loop :: "u32 \<Rightarrow> ImmutableMemPlanner \<Rightarrow> ImmutableMemPlanner run" where
  "intermediate_rows_loop pending pl =
    (if pending > 0 then
       (let rows_consumed = min pending (im_available pl) in
        case consume_intermediate_rows rows_consumed pl of
          Inl e \<Rightarrow> Some (Inl e)
        | Inr pl \<Rightarrow> intermediate_rows_loop (pending - rows_consumed) pl)
     else Some (Inr pl))"

partial_function (option) rows_loop :: "u32 \<Rightarrow> u32 \<Rightarrow> u32 \<Rightarrow> ImmutableMemPlanner \<Rightarrow> ImmutableMemPlanner run" where
  "rows_loop a count pending pl =
    (if pending > 0 then
       (let rows_consumed = min pending (im_available pl); skip = count - pending in
        case consume_rows a rows_consumed skip pl of
          Inl e \<Rightarrow> Some (Inl e)
        | Inr pl \<Rightarrow> rows_loop a count (pending - rows_consumed) pl)
     else Some (Inr pl))"

definition add_intermediate_rows :: "u32 \<Rightarrow> ImmutableMemPlanner \<Rightarrow> ImmutableMemPlanner run" where
  "add_intermediate_rows count pl = intermediate_rows_loop count pl"

definition add_planner_rows :: "u32 \<Rightarrow> u32 \<Rightarrow> ImmutableMemPlanner \<Rightarrow> ImmutableMemPlanner run" where
  "add_planner_rows a count pl = rows_loop a count count pl"

definition add_intermediate_addr :: "u32 \<Rightarrow> u32 \<Rightarrow> ImmutableMemPlanner \<Rightarrow> (u32 \<times> ImmutableMemPlanner) run" where
  "add_intermediate_addr from_a to_a pl =
    (let count = drop_bit 3 (to_a - from_a + 8) in
     bindR (if count > 1 then bindR (add_intermediate_rows 1 pl) (add_intermediate_rows (count - 1))
       else add_intermediate_rows 1 pl) (\<lambda>pl.
     Some (Inr (count, pl))))"

definition add_intermediates :: "u32 \<Rightarrow> ImmutableMemPlanner \<Rightarrow> (u32 \<times> ImmutableMemPlanner) run" where
  "add_intermediates a pl =
    bindR (if a - im_last_addr pl > 8 then add_intermediate_addr (im_last_addr pl + 8) (a - 8) pl
      else Some (Inr (0, pl))) (\<lambda>(count, pl).
    Some (Inr (count, pl\<lparr>im_last_addr := a\<rparr>)))"

definition add_to_current_segment :: "u32 \<Rightarrow> u32 \<Rightarrow> u32 \<Rightarrow> ImmutableMemPlanner \<Rightarrow> ImmutableMemPlanner run" where
  "add_to_current_segment chunk_id a count pl =
    bindR (add_intermediates a (set_current_chunk chunk_id pl)) (\<lambda>(intermediate_rows, pl).
    add_planner_rows a count (set_reference chunk_id a (preopen_segment a intermediate_rows pl)))"

subsection \<open>The run\<close>

definition immutable_entry :: "u32 \<Rightarrow> u32 \<Rightarrow> u32 \<Rightarrow> u32 \<Rightarrow> ImmutableMemPlanner \<Rightarrow> (ImmutableMemPlanner \<times> bool) run" where
  "immutable_entry a cpos chunk_id count pl =
    bindR (add_to_current_segment chunk_id a count pl) (\<lambda>pl. Some (Inr (pl, False)))"

definition immutable_cell ::
  "MemCounter list \<Rightarrow> u32 \<Rightarrow> u32 \<Rightarrow> ImmutableMemPlanner \<times> u32 \<Rightarrow> ((ImmutableMemPlanner \<times> u32) \<times> bool) run" where
  "immutable_cell ws offset i = (\<lambda>(pl, a).
    bindR (Some (worker ws i)) (\<lambda>w.
    bindR (Some (get_addr_table w offset)) (\<lambda>pos.
    if pos = 0 then Some (Inr ((pl, a + 8), False))
    else
      bindR (Some (get_initial_pos w pos)) (\<lambda>cpos.
      bindR (walk True (get_next_pos w) (read_entry (get_pos_value w) (immutable_entry a)) pos cpos pl) (\<lambda>(pl, _).
      Some (Inr ((pl, a + 8), False)))))))"

definition immutable_page :: "MemCounter list \<Rightarrow> u32 \<Rightarrow> ImmutableMemPlanner \<Rightarrow> (ImmutableMemPlanner \<times> bool) run" where
  "immutable_page ws page pl =
    bindR (Some (get_offset_limits ws page)) (\<lambda>(offset, last_offset).
    bindR (Some (offset_to_addr offset 0)) (\<lambda>a.
    bindR (for_while (\<lambda>off. off \<le> last_offset)
        (\<lambda>off. for_while (\<lambda>i. i < MAX_THREADS) (immutable_cell ws off) 0) offset (pl, a)) (\<lambda>((pl, _), _).
    Some (Inr (pl, False)))))"

definition immutable_execute :: "MemCounter list \<Rightarrow> ImmutableMemPlanner \<Rightarrow> ImmutableMemPlanner run" where
  "immutable_execute ws pl =
    bindR (Some (page_to_addr (ucast (im_from_page pl)))) (\<lambda>base.
    bindR (for_while (\<lambda>page. page < im_to_page pl) (immutable_page ws) (im_from_page pl)
        (pl\<lparr>im_last_addr := base\<rparr>)) (\<lambda>(pl, _).
    Some (Inr (close_last_segment pl))))"

text \<open>\<open>collect_segments\<close> numbers the segments in order and hands them over.\<close>

definition collect_segments :: "MemSegments \<Rightarrow> ImmutableMemPlanner \<Rightarrow> MemSegments \<times> ImmutableMemPlanner" where
  "collect_segments mem_segments pl =
    (fst (fold (\<lambda>s (ss, segment_id). (segments_set segment_id (Some s) ss, segment_id + 1)) (im_segments pl)
        (mem_segments, 0)), pl\<lparr>im_segments := []\<rparr>)"

end
