(* ===== verification/Cell_Walk.thy ===== *)
theory Cell_Walk
  imports Planner_Stream
begin

text \<open>
  The walk that \<open>ImmutableMemPlanner\<close> and \<open>MemPlannerOrg\<close> share: over the eight counters of each offset of a range, with
  an address that grows by eight per counter. The locale \<open>cell_walk\<close> is its interface: all it asks of a planner is that the
  body of the loop is this walk of a chain, with the planner's own routine for an entry (\<open>add\<close>). Inside it the loops are
  proved to give \<open>add\<close> the entries of the stream, each with its own address.
\<close>

definition entry_addr :: "stream_entry \<Rightarrow> u32" where
  "entry_addr e = cell_addr (e_offset e, e_thread e)"

definition put :: "(u32 \<Rightarrow> u32 \<Rightarrow> u32 \<Rightarrow> 's \<Rightarrow> 's run) \<Rightarrow> stream_entry \<Rightarrow> 's \<Rightarrow> 's run" where
  "put add e = add (e_chunk e) (entry_addr e) (e_count e)"

text \<open>The next line of the same page starts where a line ends.\<close>

lemma next_line:
  assumes "p < 20" "p * 1048576 \<le> m" "Suc m < Suc p * 1048576"
  shows "cell_addr (of_nat m, of_nat 8) = cell_addr (of_nat (Suc m), 0)"
proof -
  obtain r where r: "m = p * 1048576 + r" using assms(2) by (auto simp: le_iff_add)
  have r': "Suc r < 1048576" using assms(3) r by simp
  have "of_nat m < ADDR_TABLE_SIZE" using assms by (simp add: word_less_nat_alt)
  then have "cell_addr (of_nat m, of_nat 7 + 1) = cell_addr (of_nat m, of_nat 7) + 8" by (rule cell_addr_next)
  then show ?thesis
    using offset_to_addr_eq [OF assms(1), of r 7] offset_to_addr_eq [OF assms(1) r', of 0] r'
    by (simp add: r cell_addr.simps)
qed

locale cell_walk =
  fixes cell :: "MemCounter list \<Rightarrow> u32 \<Rightarrow> u32 \<Rightarrow> 's \<times> u32 \<Rightarrow> (('s \<times> u32) \<times> bool) run"
    and add :: "u32 \<Rightarrow> u32 \<Rightarrow> u32 \<Rightarrow> 's \<Rightarrow> 's run"
  assumes cell_body: "cell ws offset i (s, a) =
    bindR (Some (worker ws i)) (\<lambda>w.
    bindR (Some (get_addr_table w offset)) (\<lambda>pos.
    if pos = 0 then Some (Inr ((s, a + 8), False))
    else
      bindR (Some (get_initial_pos w pos)) (\<lambda>cpos.
      bindR (walk True (get_next_pos w) (read_entry (get_pos_value w)
          (\<lambda>p c n s. bindR (add c a n s) (\<lambda>s. Some (Inr (s, False))))) pos cpos s) (\<lambda>(s, _).
      Some (Inr ((s, a + 8), False))))))"
begin

lemma entries_put:
  "foldS (\<lambda>(p, c, n) s. bindR (add c (cell_addr (off, i)) n s) (\<lambda>s. Some (Inr (s, False)))) (zip (P i off) (V i off)) s =
    bindR (foldR (put add) (cell_entries P V (off, i)) s) (\<lambda>s. Some (Inr (s, False)))"
proof -
  have "foldR (put add) (cell_entries P V (off, i)) s =
      foldR (\<lambda>(p, c, n). add c (cell_addr (off, i)) n) (zip (P i off) (V i off)) s"
    by (simp add: foldR_map put_def entry_addr_def case_prod_unfold)
  then show ?thesis by (subst foldS_never [where g = "\<lambda>(p, c, n). add c (cell_addr (off, i)) n"]) auto
qed

lemma cell_put:
  assumes "workers_read ws P V" "off < ADDR_TABLE_SIZE" "i < 8"
  shows "cell ws off i (s, cell_addr (off, i)) =
    bindR (foldR (put add) (cell_entries P V (off, i)) s) (\<lambda>s. Some (Inr ((s, cell_addr (off, i) + 8), False)))"
proof (cases "V i off = []")
  case True
  then have "get_addr_table (ws ! unat i) off = Inr 0"
    using counter_reader.table_empty [OF workers_readD(2) [OF assms(1,3)] assms(2)] by simp
  moreover have "cell_entries P V (off, i) = []"
    using True cell_entries_Nil_iff [OF assms(1,3)] by blast
  ultimately show ?thesis
    using workers_readD(1) [OF assms(1,3)] by (simp add: cell_body del: cell_entries.simps)
next
  case False
  note w = workers_readD [OF assms(1,3)]
  let ?w = "ws ! unat i" and ?a = "cell_addr (off, i)"
  let ?body = "\<lambda>p c n s. bindR (add c ?a n s) (\<lambda>s. Some (Inr (s, False)))"
  obtain cpos where init: "get_initial_pos ?w (last (P i off)) = Inr cpos"
    and walk: "walk True (get_next_pos ?w) (read_entry (get_pos_value ?w) ?body) (last (P i off)) cpos s =
      run_entries ?body (zip (P i off) (V i off)) s"
    using counter_reader.walk_all [OF w(2) False, of True ?body s] by blast
  show ?thesis
    using w(1) counter_reader.table_last [OF w(2) False] counter_reader.table_nonzero [OF w(2) False] init
    by (cases "foldR (put add) (cell_entries P V (off, i)) s" rule: run_cases)
      (auto simp: cell_body walk run_entries_def entries_put simp del: cell_entries.simps)
qed

lemma row_put:
  assumes "workers_read ws P V" "off < ADDR_TABLE_SIZE"
  shows "foldS (cell ws off) (words m 8) (s, cell_addr (off, of_nat m)) =
    bindR (foldR (put add) (concat (map (cell_entries P V) (map (Pair off) (words m 8)))) s)
      (\<lambda>s. Some (Inr ((s, cell_addr (off, of_nat (max m 8))), False)))"
proof (induction "8 - m" arbitrary: m s)
  case 0
  then show ?case by (simp add: max_def)
next
  case (Suc d)
  then have m: "m < 8" by linarith
  have next_addr: "cell_addr (off, of_nat m) + 8 = cell_addr (off, of_nat (Suc m))"
    using cell_addr_next [OF assms(2), of "of_nat m"] by (simp only: of_nat_Suc add.commute)
  have "d = 8 - Suc m" using Suc.hyps(2) by simp
  have max: "max (Suc m) 8 = 8" "max m 8 = 8" using m by simp_all
  note IH = Suc.hyps(1) [OF \<open>d = 8 - Suc m\<close>, unfolded max]
  have i: "(of_nat m :: u32) < 8" using m by (simp add: word_less_nat_alt)
  show ?case
    unfolding words_Cons [OF m] list.map concat.simps foldS.simps foldR_append
      cell_put [OF assms i] next_addr max
    by (cases "foldR (put add) (cell_entries P V (off, of_nat m)) s" rule: run_cases)
      (simp_all add: IH del: cell_entries.simps of_nat_Suc)
qed

lemma rows_put:
  assumes "workers_read ws P V" "p < 20" "p * 1048576 \<le> m" "n \<le> Suc p * 1048576"
    and "m < n \<longrightarrow> a = cell_addr (of_nat m, 0)"
  shows "bindR (foldS (\<lambda>off. foldS (cell ws off) (words 0 8)) (words m n) (s, a))
      (\<lambda>((s, _), _). Some (Inr (s, False))) =
    bindR (foldR (put add) (concat (map (cell_entries P V) (concat (map row_cells (words m n))))) s)
      (\<lambda>s. Some (Inr (s, False)))"
  using assms(3,5)
proof (induction "n - m" arbitrary: m a s)
  case 0
  then show ?case by simp
next
  case (Suc d)
  then have m: "m < n" by linarith
  then have off: "of_nat m < ADDR_TABLE_SIZE" using assms(2,4) by (simp add: word_less_nat_alt)
  have row: "foldS (cell ws (of_nat m)) (words 0 8) (s, a) =
      bindR (foldR (put add) (concat (map (cell_entries P V) (row_cells (of_nat m)))) s)
        (\<lambda>s. Some (Inr ((s, cell_addr (of_nat m, of_nat 8)), False)))"
    using row_put [OF assms(1) off, of 0 s] Suc.prems(2) m by (simp add: row_cells_def)
  have d: "d = n - Suc m" "p * 1048576 \<le> Suc m" using Suc.hyps(2) Suc.prems(1) by simp_all
  have "Suc m < n \<longrightarrow> cell_addr (of_nat m, of_nat 8) = cell_addr (of_nat (Suc m), 0)"
    using next_line [OF assms(2) Suc.prems(1)] assms(4) by auto
  note IH = Suc.hyps(1) [OF d this]
  show ?case
    unfolding words_Cons [OF m] list.map concat.simps foldS.simps row map_append concat_append foldR_append
    by (cases "foldR (put add) (concat (map (cell_entries P V) (row_cells (of_nat m)))) s" rule: run_cases)
      (simp_all add: IH del: of_nat_Suc of_nat_numeral)
qed

lemma range_put:
  assumes "workers_read ws P V" "p < 20" "lo \<le> hi" "offset_to_page lo = of_nat p" "offset_to_page hi = of_nat p"
  shows "bindR (for_while (\<lambda>off. off \<le> hi) (\<lambda>off. for_while (\<lambda>i. i < MAX_THREADS) (cell ws off) 0) lo
      (s, cell_addr (lo, 0))) (\<lambda>((s, _), _). Some (Inr (s, False))) =
    bindR (foldR (put add) (concat (map (cell_entries P V) (range_cells lo hi))) s) (\<lambda>s. Some (Inr (s, False)))"
proof -
  have r: "p * 1048576 \<le> unat lo" "unat hi < Suc p * 1048576"
    using assms(4,5) page_of_offset [OF assms(2)] by blast+
  moreover have "unat hi < 4294967295" using r(2) assms(2) by simp
  moreover have "(\<lambda>off. for_while (\<lambda>i. i < MAX_THREADS) (cell ws off) 0) = (\<lambda>off. foldS (cell ws off) (words 0 8))"
    using lane_loop [of 0] by (intro ext) (simp del: config_values)
  ultimately show ?thesis
    using rows_put [OF assms(1,2) r(1), of "Suc (unat hi)" "cell_addr (lo, 0)" s]
    by (simp add: offset_loop range_cells_def del: config_values)
qed

text \<open>The pages of a planner.\<close>

lemma pages_put:
  assumes "n \<le> 20" and "\<And>p s. p < 20 \<Longrightarrow> page (of_nat p) s =
      bindR (foldR (put add) (concat (map (cell_entries P V) (page_cells p))) s) (\<lambda>s. Some (Inr (s, False)))"
  shows "foldS page (words m n) s = bindR (foldR (put add) (stream P V m n) s) (\<lambda>s. Some (Inr (s, False)))"
proof -
  let ?page = "\<lambda>p. foldR (put add) (concat (map (cell_entries P V) (page_cells (unat p))))"
  have "foldS page (words m n) s = bindR (foldR ?page (words m n) s) (\<lambda>s. Some (Inr (s, False)))"
  proof (rule foldS_never)
    fix p s assume "p \<in> set (words m n)"
    then obtain k where "k < n" "p = of_nat k" unfolding in_words by blast
    then have "k < 20" "p = of_nat k" using assms(1) by simp_all
    then show "page p s = bindR (?page p s) (\<lambda>s. Some (Inr (s, False)))" using assms(2) [of k s] by simp
  qed
  moreover have "foldR ?page (words m n) s = foldR (put add) (stream P V m n) s"
  proof -
    have "map (\<lambda>p. concat (map (cell_entries P V) (page_cells (unat p)))) (words m n) =
        map (\<lambda>p. concat (map (cell_entries P V) (page_cells p))) [m..<n]"
      using assms(1) by (simp add: words_def)
    moreover have "concat (map (\<lambda>p. concat (map (cell_entries P V) (page_cells p))) ps) =
        concat (map (cell_entries P V) (concat (map page_cells ps)))" for ps
      by (induction ps) simp_all
    ultimately show ?thesis by (simp only: foldR_concat stream_def cells_def)
  qed
  ultimately show ?thesis by simp
qed

end

end
