(* ===== verification/Immutable_Plan.thy ===== *)
theory Immutable_Plan
  imports Immutable_Planner Cell_Walk
begin

text \<open>
  Correctness of \<open>ImmutableMemPlanner\<close>. The specification is a tape with one cell per row: \<open>None\<close> for the row of
  an address nobody accessed, \<open>Some row\<close> for a row of an entry. The planner cuts the tape every \<open>rows_by_segment\<close>
  cells; a segment records the rows of its slice, and, when the slice ends inside a gap that the next slice does not
  continue, the first row after the gap.
\<close>

subsection \<open>The tape\<close>

type_synonym row = "u32 \<times> u32 \<times> nat"

text \<open>The addresses strictly between two aligned addresses.\<close>

definition gap :: "u32 \<Rightarrow> u32 \<Rightarrow> nat" where
  "gap before a = unat (a - before) div 8 - 1"

fun tape :: "u32 \<Rightarrow> stream_entry list \<Rightarrow> row option list" where
  "tape before [] = []"
| "tape before (e # es) =
    replicate (gap before (entry_addr e)) None @ map Some (group_rows (group_of e)) @ tape (entry_addr e) es"

definition somes :: "'a option list \<Rightarrow> 'a list" where
  "somes xs = map the (filter (\<lambda>x. x \<noteq> None) xs)"

definition lookahead :: "nat \<Rightarrow> 'a option list \<Rightarrow> nat \<Rightarrow> 'a list" where
  "lookahead R T k =
    (if Suc k * R < length T \<and> T ! (Suc k * R - 1) = None
     then (case T ! (Suc k * R) of None \<Rightarrow> [] | Some r \<Rightarrow> [r]) else [])"

definition segment_rows :: "nat \<Rightarrow> 'a option list \<Rightarrow> nat \<Rightarrow> 'a list" where
  "segment_rows R T k = somes (row_slice R k T) @ lookahead R T k"

lemma somes_simps [simp]:
  "somes [] = []" "somes (None # xs) = somes xs" "somes (Some x # xs) = x # somes xs"
  "somes (xs @ ys) = somes xs @ somes ys" "somes (map Some zs) = zs" "somes (replicate n None) = []"
  by (simp_all add: somes_def filter_map comp_def)

subsection \<open>The invariant\<close>

text \<open>
  After \<open>n\<close> cells of the tape \<open>T\<close>: \<open>G\<close> are the groups of the closed segments, \<open>gs\<close> those of the current one.
  A full segment is closed only when the next row comes, so \<open>n\<close> may be at its end.
\<close>

definition lay :: "nat \<Rightarrow> row option list \<Rightarrow> nat \<Rightarrow> rows_group list list \<Rightarrow> rows_group list \<Rightarrow> ImmutableMemPlanner \<Rightarrow> bool" where
  "lay R T n G gs pl \<longleftrightarrow> rows_by_segment pl = of_nat R \<and> im_segments pl = map (segment_spec 0) G \<and>
    im_segment pl = segment_spec 0 gs \<and> length G * R \<le> n \<and> n \<le> Suc (length G) * R \<and> n \<le> length T \<and>
    im_available pl = of_nat (Suc (length G) * R - n) \<and>
    (\<forall>k<length G. groups_rows (G ! k) = segment_rows R T k) \<and>
    groups_rows gs = somes (drop (length G * R) (take n T))"

definition same_place :: "ImmutableMemPlanner \<Rightarrow> ImmutableMemPlanner \<Rightarrow> bool" where
  "same_place pl pl' \<longleftrightarrow> im_chunk pl' = im_chunk pl \<and> im_last_addr pl' = im_last_addr pl"

lemma same_place_refl [simp]: "same_place pl pl"
  by (simp add: same_place_def)

lemma same_place_trans: "same_place pl pl1 \<Longrightarrow> same_place pl1 pl2 \<Longrightarrow> same_place pl pl2"
  by (simp add: same_place_def)

lemma groups_rows_simps [simp]:
  "groups_rows [] = []" "groups_rows (g # gs) = group_rows g @ groups_rows gs"
  by (simp_all add: groups_rows_def)

lemma group_rows_none [simp]: "g_count g = 0 \<Longrightarrow> group_rows g = []"
  by (simp add: group_rows_def)

lemma add_segment: "add_or_update c a s n (segment_spec 0 gs) =
    segment_spec 0 (gs @ [\<lparr>g_chunk = c, g_addr = a, g_skip = s, g_count = n\<rparr>])"
  using segment_spec_snoc [of gs 0 "\<lparr>g_chunk = c, g_addr = a, g_skip = s, g_count = n\<rparr>"]
  by (simp add: add_group_def)

lemma close_segment_simps [simp]:
  "im_segments (close_segment pl) = im_segments pl @ [im_segment pl]" "im_segment (close_segment pl) = segment_spec 0 []"
  "rows_by_segment (close_segment pl) = rows_by_segment pl" "im_chunk (close_segment pl) = im_chunk pl"
  "im_last_addr (close_segment pl) = im_last_addr pl" "im_to_page (close_segment pl) = im_to_page pl"
  by (simp_all add: close_segment_def Let_def segment_new_spec)

lemma open_segment_simps [simp]:
  "im_segments (open_segment pl) = im_segments pl @ [im_segment pl]" "im_available (open_segment pl) = rows_by_segment pl"
  "rows_by_segment (open_segment pl) = rows_by_segment pl" "im_chunk (open_segment pl) = im_chunk pl"
  "im_last_addr (open_segment pl) = im_last_addr pl"
  by (simp_all add: open_segment_def Let_def)

lemma open_segment_groups: "\<exists>hs. im_segment (open_segment pl) = segment_spec 0 hs \<and> groups_rows hs = []"
proof (cases "im_ref_chunk (close_segment pl) = NO_CHUNK_ID")
  case True
  then show ?thesis by (intro exI [of _ "[]"]) (simp add: open_segment_def Let_def)
next
  case False
  let ?g = "\<lparr>g_chunk = im_ref_chunk (close_segment pl), g_addr = im_ref_addr (close_segment pl),
    g_skip = im_ref_skip (close_segment pl), g_count = 0\<rparr>"
  show ?thesis
    using False add_segment [of _ _ _ 0 "[]"]
    by (intro exI [of _ "[?g]"]) (simp add: open_segment_def Let_def)
qed

lemma full_slice:
  assumes "n = Suc k * R" "n \<le> length T"
  shows "drop (k * R) (take n T) = row_slice R k T"
  using assms by (simp add: row_slice_def drop_take)

text \<open>Opening a segment when the current one is full, possibly after the lookahead.\<close>

lemma open_lay:
  assumes "lay R T n G gs pl" "n = Suc (length G) * R" "groups_rows hs = lookahead R T (length G)"
  shows "\<exists>G' gs'. lay R T n G' gs' (open_segment (pl\<lparr>im_segment := segment_spec 0 (gs @ hs)\<rparr>)) \<and> n = length G' * R"
proof -
  let ?pl = "pl\<lparr>im_segment := segment_spec 0 (gs @ hs)\<rparr>"
  obtain gs' where gs': "im_segment (open_segment ?pl) = segment_spec 0 gs'" "groups_rows gs' = []"
    using open_segment_groups by blast
  note l = assms(1) [unfolded lay_def]
  have "groups_rows (gs @ hs) = segment_rows R T (length G)"
    using l full_slice [OF assms(2), of T] assms(3) by (simp add: groups_rows_append segment_rows_def)
  then have "\<forall>k<length (G @ [gs @ hs]). groups_rows ((G @ [gs @ hs]) ! k) = segment_rows R T k"
    using l by (simp add: nth_append less_Suc_eq)
  moreover have "length (G @ [gs @ hs]) * R = n" using assms(2) by simp
  ultimately have "lay R T n (G @ [gs @ hs]) gs' (open_segment ?pl)"
    using l gs' assms(2) unfolding lay_def by simp
  then show ?thesis using assms(2) by (intro exI [of _ "G @ [gs @ hs]"] exI [of _ gs']) simp
qed

lemma lay_available:
  assumes "lay R T n G gs pl" "R < 4294967296"
  shows "unat (im_available pl) = Suc (length G) * R - n"
proof -
  have "Suc (length G) * R - n \<le> R" using assms(1) unfolding lay_def mult_Suc by linarith
  then have "unat (of_nat (Suc (length G) * R - n) :: u32) = Suc (length G) * R - n"
    using assms(2) by (intro unat_of_nat_u32) linarith
  then show ?thesis using assms(1) unfolding lay_def by metis
qed

lemma available_0: "lay R T n G gs pl \<Longrightarrow> R < 4294967296 \<Longrightarrow> im_available pl = 0 \<longleftrightarrow> n = Suc (length G) * R"
  using lay_available [of R T n G gs pl] by (auto simp: lay_def unat_eq_0)

subsection \<open>Laying cells\<close>

lemma take_step: "take (n + k) T = take n T @ take k (drop n T)"
  by (rule take_add)

lemma lay_more:
  assumes "lay R T n G gs pl" "n + k \<le> Suc (length G) * R" "n + k \<le> length T"
    and "groups_rows hs = somes (take k (drop n T))"
    and "rows_by_segment pl' = rows_by_segment pl" "im_segments pl' = im_segments pl"
    and "im_segment pl' = segment_spec 0 (gs @ hs)" "im_available pl' = im_available pl - of_nat k"
  shows "lay R T (n + k) G (gs @ hs) pl'"
proof -
  note l = assms(1) [unfolded lay_def]
  have "of_nat (Suc (length G) * R - n) - of_nat k = (of_nat (Suc (length G) * R - (n + k)) :: u32)"
    using assms(2) by (subst of_nat_diff [symmetric]) simp_all
  moreover have "drop (length G * R) (take (n + k) T) = drop (length G * R) (take n T) @ take k (drop n T)"
    using l by (simp add: take_step)
  ultimately show ?thesis
    using l assms(2-) unfolding lay_def by (simp add: groups_rows_append)
qed

text \<open>What a loop does first when the segment is full and needs no lookahead.\<close>

lemma open_lay_plain:
  assumes "lay R T n G gs pl" "n = Suc (length G) * R" "lookahead R T (length G) = []"
  shows "\<exists>G' gs'. lay R T n G' gs' (open_segment pl) \<and> n = length G' * R"
proof -
  have "pl\<lparr>im_segment := segment_spec 0 (gs @ [])\<rparr> = pl" using assms(1) by (simp add: lay_def)
  then show ?thesis using open_lay [OF assms(1,2), of "[]"] assms(3) by simp
qed

lemma consume_full:
  assumes "lay R T n G gs pl" "n = Suc (length G) * R" "lookahead R T (length G) = []" "R < 4294967296"
  shows "\<exists>pl' G' gs'. consume_rows a 0 s pl = Inr pl' \<and> lay R T n G' gs' pl' \<and> n = length G' * R \<and> same_place pl pl'"
proof -
  obtain G' gs' where o: "lay R T n G' gs' (open_segment pl)" "n = length G' * R"
    using open_lay_plain [OF assms(1-3)] by blast
  let ?g = "\<lparr>g_chunk = im_chunk pl, g_addr = a, g_skip = s, g_count = 0\<rparr>"
  let ?pl = "(open_segment pl)\<lparr>im_segment := segment_spec 0 (gs' @ [?g])\<rparr>"
  have seg: "im_segment (open_segment pl) = segment_spec 0 gs'" using o(1) by (simp add: lay_def)
  have "im_available pl = 0" using available_0 [OF assms(1,4)] assms(2) by simp
  then have "consume_rows a 0 s pl = Inr ?pl"
    by (simp add: consume_rows_def add_chunk_to_segment_def seg add_segment)
  moreover have "lay R T (n + 0) G' (gs' @ [?g]) ?pl"
    by (rule lay_more [OF o(1)]) (use o(1) in \<open>simp_all add: lay_def\<close>)
  ultimately show ?thesis
    using o(2) by (intro exI [of _ ?pl] exI [of _ G'] exI [of _ "gs' @ [?g]"]) (simp add: same_place_def)
qed

text \<open>Intermediate rows, from any state.\<close>

lemma intermediate_rows_lay:
  assumes "0 < R" "R < 4294967296" "p < 4294967296"
    and "lay R T n G gs pl" "n + p \<le> length T" "\<forall>j<p. T ! (n + j) = None"
  shows "\<exists>pl' G' gs'. intermediate_rows_loop (of_nat p) pl = Some (Inr pl') \<and> lay R T (n + p) G' gs' pl' \<and>
    same_place pl pl'"
  using assms(3-)
proof (induction p arbitrary: n G gs pl rule: less_induct)
  case (less p)
  show ?case
  proof (cases "p = 0")
    case True
    then show ?thesis using less.prems(2) by (subst intermediate_rows_loop.simps) auto
  next
    case False
    then have p0: "(of_nat p :: u32) > 0" using of_nat_u32_less_iff [of 0 p] less.prems(1) by simp
    have go: ?thesis if l: "lay R T n G gs pl0" "n < Suc (length G) * R" "same_place pl pl0"
      "intermediate_rows_loop (of_nat p) pl = intermediate_rows_loop (of_nat p) pl0" for pl0 G gs
    proof -
      define m where "m = Suc (length G) * R - n"
      define k where "k = min p m"
      have m: "unat (im_available pl0) = m" "0 < m"
        using lay_available [OF l(1) assms(2)] l(2) by (simp_all add: m_def)
      have "m \<le> R" using l(1) unfolding m_def lay_def mult_Suc by linarith
      have av: "im_available pl0 = of_nat m" using m(1) by (rule word_eq_of_nat)
      have min: "min (of_nat p) (im_available pl0) = (of_nat k :: u32)"
        using less.prems(1) m \<open>m \<le> R\<close> assms(2) by (simp add: av k_def min_def word_le_nat_alt)
      have k: "0 < k" "k \<le> m" "k \<le> p" using False m by (simp_all add: k_def)
      have k32: "k < 4294967296" using k(3) less.prems(1) by linarith
      let ?pl = "pl0\<lparr>im_available := im_available pl0 - of_nat k\<rparr>"
      have "(of_nat k :: u32) \<noteq> 0" using k(1) of_nat_u32_eq_0_iff [OF k32] by simp
      moreover have "\<not> of_nat k > im_available pl0" using m k k32 by (simp add: word_less_nat_alt)
      moreover have "im_available pl0 \<noteq> 0" using m by auto
      ultimately have consume: "consume_intermediate_rows (of_nat k) pl0 = Inr ?pl"
        by (simp add: consume_intermediate_rows_def)
      have "of_nat p - of_nat k = (of_nat (p - k) :: u32)" using k(3) by (simp add: of_nat_diff)
      then have loop: "intermediate_rows_loop (of_nat p) pl = intermediate_rows_loop (of_nat (p - k)) ?pl"
        unfolding l(4) using p0 consume by (subst intermediate_rows_loop.simps) (simp add: min)
      have "take k (drop n T) = replicate k None"
        using less.prems(3,4) k(3) by (intro nth_equalityI) auto
      then have lay: "lay R T (n + k) G (gs @ []) ?pl"
        using l(1,2) k(2,3) less.prems(3) by (intro lay_more [OF l(1)]) (simp_all add: m_def lay_def)
      have "\<exists>pl' G' gs'. intermediate_rows_loop (of_nat (p - k)) ?pl = Some (Inr pl') \<and>
          lay R T (n + k + (p - k)) G' gs' pl' \<and> same_place ?pl pl'"
        by (rule less.IH [OF _ _ lay]) (use k less.prems(1,3,4) in \<open>simp_all add: add.assoc\<close>)
      then show ?thesis
        unfolding loop using k(3) l(3) by (auto simp: same_place_def simp del: of_nat_diff)
    qed
    show ?thesis
    proof (cases "n < Suc (length G) * R")
      case True
      show ?thesis by (rule go [OF less.prems(2) True]) simp_all
    next
      case full: False
      then have n: "n = Suc (length G) * R" using less.prems(2) by (simp add: lay_def)
      have "T ! n = None" using less.prems(4) False by (metis add_0_right neq0_conv)
      then have "lookahead R T (length G) = []" by (simp add: lookahead_def n del: mult_Suc)
      then obtain G' gs' where o: "lay R T n G' gs' (open_segment pl)" "n = length G' * R"
        using open_lay_plain [OF less.prems(2) n] by blast
      have av: "im_available pl = 0" using available_0 [OF less.prems(2) assms(2)] n by simp
      have "consume_intermediate_rows 0 pl = Inr (open_segment pl)"
        using av by (simp add: consume_intermediate_rows_def Let_def open_segment_def)
      then have "intermediate_rows_loop (of_nat p) pl = intermediate_rows_loop (of_nat p) (open_segment pl)"
        using p0 av by (subst intermediate_rows_loop.simps) simp
      then show ?thesis
        using o assms(1) by (intro go [OF o(1)]) (simp_all add: same_place_def)
    qed
  qed
qed


text \<open>The rows of an entry, from a state with room.\<close>

lemma rows_lay:
  assumes "0 < R" "R < 4294967296" "p \<le> unat cnt"
    and "lay R T n G gs pl" "n < Suc (length G) * R" "n + p \<le> length T"
    and "take p (drop n T) = map (\<lambda>i. Some (im_chunk pl, a, i)) [unat cnt - p..<unat cnt]"
  shows "\<exists>pl' G' gs'. rows_loop a cnt (of_nat p) pl = Some (Inr pl') \<and> lay R T (n + p) G' gs' pl' \<and>
    same_place pl pl'"
  using assms(3-)
proof (induction p arbitrary: n G gs pl rule: less_induct)
  case (less p)
  have p32: "p < 4294967296" using less.prems(1) unat_u32_bound [of cnt] by linarith
  show ?case
  proof (cases "p = 0")
    case True
    then show ?thesis using less.prems(2) by (subst rows_loop.simps) auto
  next
    case False
    then have p0: "(of_nat p :: u32) > 0" using of_nat_u32_less_iff [of 0 p] p32 by simp
    define m where "m = Suc (length G) * R - n"
    define k where "k = min p m"
    have m: "unat (im_available pl) = m" "0 < m"
      using lay_available [OF less.prems(2) assms(2)] less.prems(3) by (simp_all add: m_def)
    have "m \<le> R" using less.prems(2) unfolding m_def lay_def mult_Suc by linarith
    have av: "im_available pl = of_nat m" using m(1) by (rule word_eq_of_nat)
    have min: "min (of_nat p) (im_available pl) = (of_nat k :: u32)"
      using p32 m \<open>m \<le> R\<close> assms(2) by (simp add: av k_def min_def word_le_nat_alt)
    have k: "0 < k" "k \<le> m" "k \<le> p" using False m by (simp_all add: k_def)
    have k32: "k < 4294967296" using k(3) p32 by linarith
    let ?g = "\<lparr>g_chunk = im_chunk pl, g_addr = a, g_skip = cnt - of_nat p, g_count = of_nat k\<rparr>"
    let ?pl = "pl\<lparr>im_segment := segment_spec 0 (gs @ [?g]), im_available := im_available pl - of_nat k,
      im_ref_skip := im_ref_skip pl + of_nat k\<rparr>"
    have seg: "im_segment pl = segment_spec 0 gs" using less.prems(2) by (simp add: lay_def)
    have "(of_nat k :: u32) \<noteq> 0" using k(1) of_nat_u32_eq_0_iff [OF k32] by simp
    moreover have "\<not> of_nat k > im_available pl" using m k k32 by (simp add: word_less_nat_alt)
    moreover have "im_available pl \<noteq> 0" using m by auto
    ultimately have consume: "consume_rows a (of_nat k) (cnt - of_nat p) pl = Inr ?pl"
      by (simp add: consume_rows_def add_chunk_to_segment_def seg add_segment)
    have "of_nat p - of_nat k = (of_nat (p - k) :: u32)" using k(3) by (simp add: of_nat_diff)
    then have loop: "rows_loop a cnt (of_nat p) pl = rows_loop a cnt (of_nat (p - k)) ?pl"
      using p0 by (subst rows_loop.simps) (simp add: min consume Let_def del: of_nat_diff)
    have "take k (drop n T) = take k (take p (drop n T))" using k(3) by simp
    then have cells: "take k (drop n T) = map (\<lambda>i. Some (im_chunk pl, a, i)) [unat cnt - p..<unat cnt - p + k]"
      unfolding less.prems(5) using k(3) less.prems(1) by (simp add: take_map)
    have "unat (cnt - of_nat p) = unat cnt - p"
      using less.prems(1) p32 by (subst unat_minus_u32) (simp_all add: word_le_nat_alt)
    then have rows: "groups_rows [?g] = somes (take k (drop n T))"
      unfolding cells using k32 by (simp add: group_rows_def somes_def comp_def)
    have lay: "lay R T (n + k) G (gs @ [?g]) ?pl"
      using less.prems(2-4) k(2,3) by (intro lay_more [OF less.prems(2) _ _ rows]) (simp_all add: m_def lay_def)
    show ?thesis
    proof (cases "p = k")
      case True
      then have "rows_loop a cnt (of_nat p) pl = Some (Inr ?pl)"
        unfolding loop by (subst rows_loop.simps) simp
      then show ?thesis using lay True by (auto simp: same_place_def)
    next
      case more: False
      then have full: "n + k = Suc (length G) * R" "k < p" using k less.prems(3) by (simp_all add: k_def m_def)
      have cell: "T ! (n + j) = Some (im_chunk pl, a, unat cnt - p + j)" if "j < p" for j
      proof -
        have "take p (drop n T) ! j = T ! (n + j)" using that less.prems(4) by simp
        then show ?thesis unfolding less.prems(5) using that less.prems(1) by simp
      qed
      have "T ! (Suc (length G) * R - 1) \<noteq> None"
        using cell [of "k - 1"] k(1) full by (simp flip: full(1))
      then have "lookahead R T (length G) = []" unfolding lookahead_def by (simp only: simp_thms if_False)
      from consume_full [OF lay full(1) this assms(2), of a "cnt - of_nat (p - k)"]
      obtain pl1 G' gs' where o: "consume_rows a 0 (cnt - of_nat (p - k)) ?pl = Inr pl1" "lay R T (n + k) G' gs' pl1"
        "n + k = length G' * R" "same_place ?pl pl1" by blast
      have "im_available ?pl = 0" using available_0 [OF lay assms(2)] full(1) by simp
      moreover have "(of_nat (p - k) :: u32) > 0" using of_nat_u32_less_iff [of 0 "p - k"] p32 full(2) by simp
      ultimately have again: "rows_loop a cnt (of_nat (p - k)) ?pl = rows_loop a cnt (of_nat (p - k)) pl1"
        using o(1) by (subst rows_loop.simps) (simp del: of_nat_diff)
      have "drop k (take p (drop n T)) = take (p - k) (drop (n + k) T)" by (simp add: drop_take add.commute)
      then have rest: "take (p - k) (drop (n + k) T) =
          map (\<lambda>i. Some (im_chunk pl1, a, i)) [unat cnt - (p - k)..<unat cnt]"
        using k(3) less.prems(1) o(4) unfolding less.prems(5) by (simp add: drop_map same_place_def)
      have "\<exists>pl' G'' gs''. rows_loop a cnt (of_nat (p - k)) pl1 = Some (Inr pl') \<and>
          lay R T (n + k + (p - k)) G'' gs'' pl' \<and> same_place pl1 pl'"
        by (rule less.IH [OF _ _ o(2) _ _ rest]) (use k less.prems(1,4) o(3) assms(1) in simp_all)
      then show ?thesis
        unfolding loop again using k(3) o(4) by (auto simp: same_place_def simp del: of_nat_diff)
    qed
  qed
qed


subsection \<open>One entry\<close>

lemma gap_words:
  assumes "unat (a - before) mod 8 = 0"
  shows "a - before > 8 \<longleftrightarrow> 0 < gap before a"
    and "0 < gap before a \<Longrightarrow> drop_bit 3 (a - 8 - (before + 8) + 8) = (of_nat (gap before a) :: u32)"
    and "gap before a < 4294967296"
proof -
  obtain d where d: "unat (a - before) = 8 * d" using assms by (auto dest: mod_0_imp_dvd)
  show pos: "a - before > 8 \<longleftrightarrow> 0 < gap before a"
    using d by (auto simp: gap_def word_less_nat_alt)
  show "gap before a < 4294967296" using d unat_u32_bound [of "a - before"] by (simp add: gap_def)
  assume "0 < gap before a"
  then have "8 \<le> a - before" using pos by simp
  then have "unat (a - before - 8) = 8 * d - 8" using d by (simp add: unat_minus_u32)
  moreover have "a - 8 - (before + 8) + 8 = a - before - 8" by (simp add: algebra_simps)
  ultimately have "unat (drop_bit 3 (a - 8 - (before + 8) + 8)) = gap before a"
    using d by (simp add: unat_drop_bit_u32 gap_def)
  then show "drop_bit 3 (a - 8 - (before + 8) + 8) = (of_nat (gap before a) :: u32)" by (rule word_eq_of_nat)
qed

lemma lay_cong:
  assumes "rows_by_segment pl' = rows_by_segment pl" "im_segments pl' = im_segments pl"
    "im_segment pl' = im_segment pl" "im_available pl' = im_available pl"
  shows "lay R T n G gs pl' = lay R T n G gs pl"
  using assms by (simp add: lay_def)

lemma intermediates_lay:
  assumes "0 < R" "R < 4294967296" "unat (a - im_last_addr pl) mod 8 = 0" "g = gap (im_last_addr pl) a"
    and "lay R T n G gs pl" "n + g \<le> length T" "\<forall>j<g. T ! (n + j) = None"
  shows "\<exists>pl' G' gs'. add_intermediates a pl = Some (Inr (of_nat g, pl')) \<and> lay R T (n + g) G' gs' pl' \<and>
    im_chunk pl' = im_chunk pl \<and> im_last_addr pl' = a"
proof -
  note gap = gap_words [OF assms(3), folded assms(4)]
  note run = intermediate_rows_lay [OF assms(1,2)]
  have "\<exists>pl' G' gs'. (if a - im_last_addr pl > 8 then add_intermediate_addr (im_last_addr pl + 8) (a - 8) pl
        else Some (Inr (0, pl))) = Some (Inr (of_nat g, pl')) \<and> lay R T (n + g) G' gs' pl' \<and> same_place pl pl'"
  proof (cases "g = 0")
    case True
    then show ?thesis using gap(1) assms(5) by auto
  next
    case False
    show ?thesis
    proof (cases "g = 1")
      case True
      obtain pl' G' gs' where "intermediate_rows_loop 1 pl = Some (Inr pl')" "lay R T (n + g) G' gs' pl'" "same_place pl pl'"
        using run [of 1, OF _ assms(5)] assms(6,7) True by auto
      then show ?thesis
        using gap(1,2) True by (auto simp: add_intermediate_addr_def add_intermediate_rows_def)
    next
      case more: False
      obtain pl1 G1 gs1 where 1: "intermediate_rows_loop 1 pl = Some (Inr pl1)" "lay R T (n + 1) G1 gs1 pl1" "same_place pl pl1"
        using run [of 1, OF _ assms(5)] assms(6) assms(7) [rule_format, of 0] False by auto
      have "T ! (n + 1 + j) = None" if "j < g - 1" for j using assms(7) [rule_format, of "Suc j"] that by simp
      then have "\<exists>pl' G' gs'. intermediate_rows_loop (of_nat (g - 1)) pl1 = Some (Inr pl') \<and>
          lay R T (n + 1 + (g - 1)) G' gs' pl' \<and> same_place pl1 pl'"
        using gap(3) assms(6) False by (intro run [OF _ 1(2)]) simp_all
      moreover have "(of_nat g :: u32) > 1" using of_nat_u32_less_iff [of 1 g] gap(3) False more by simp
      moreover have "of_nat (g - 1) = (of_nat g - 1 :: u32)" using False by (simp add: of_nat_diff)
      ultimately show ?thesis
        using 1 gap(1,2) False same_place_trans [OF 1(3)]
        by (auto simp: add_intermediate_addr_def add_intermediate_rows_def simp del: of_nat_diff) blast
    qed
  qed
  then obtain pl' G' gs' where "(if a - im_last_addr pl > 8 then add_intermediate_addr (im_last_addr pl + 8) (a - 8) pl
        else Some (Inr (0, pl))) = Some (Inr (of_nat g, pl'))" "lay R T (n + g) G' gs' pl'" "same_place pl pl'" by blast
  then show ?thesis
    by (intro exI [of _ "pl'\<lparr>im_last_addr := a\<rparr>"] exI [of _ G'] exI [of _ gs'])
      (simp add: add_intermediates_def lay_cong [of "pl'\<lparr>im_last_addr := a\<rparr>" pl'] same_place_def)
qed

text \<open>\<open>preopen_segment\<close> leaves room for a row, with the lookahead in the segment it closes.\<close>

lemma preopen_lay:
  assumes "0 < R" "R < 4294967296" "lay R T n G gs pl" "n < length T" "T ! n = Some (im_chunk pl, a, 0)"
    and "irows = 0 \<longrightarrow> n = 0 \<or> T ! (n - 1) \<noteq> None" "irows \<noteq> 0 \<longrightarrow> T ! (n - 1) = None"
  shows "\<exists>G' gs'. lay R T n G' gs' (preopen_segment a irows pl) \<and> n < Suc (length G') * R \<and>
    same_place pl (preopen_segment a irows pl)"
proof (cases "im_available pl = 0")
  case False
  then have "n < Suc (length G) * R"
    using available_0 [OF assms(3,2)] assms(3) unfolding lay_def by linarith
  then show ?thesis using False assms(3) by (auto simp: preopen_segment_def)
next
  case True
  then have n: "n = Suc (length G) * R" using available_0 [OF assms(3,2)] by simp
  then have look: "lookahead R T (length G) = (if irows = 0 then [] else [(im_chunk pl, a, 0)])"
    using assms(1,4-7) unfolding lookahead_def n by auto
  let ?g = "\<lparr>g_chunk = im_chunk pl, g_addr = a, g_skip = 0, g_count = 1\<rparr>"
  let ?hs = "if irows = 0 then [] else [?g]"
  have seg: "im_segment pl = segment_spec 0 gs" using assms(3) by (simp add: lay_def)
  have "groups_rows ?hs = lookahead R T (length G)" by (simp add: look group_rows_def)
  then obtain G' gs' where o: "lay R T n G' gs' (open_segment (pl\<lparr>im_segment := segment_spec 0 (gs @ ?hs)\<rparr>))"
    "n = length G' * R" using open_lay [OF assms(3) n] by blast
  have "pl\<lparr>im_segment := segment_spec 0 (gs @ ?hs)\<rparr> = (if irows > 0 then add_next_addr_to_segment a pl else pl)"
    using seg by (simp add: add_next_addr_to_segment_def add_chunk_to_segment_def add_segment word_gt_0)
  then have "preopen_segment a irows pl = open_segment (pl\<lparr>im_segment := segment_spec 0 (gs @ ?hs)\<rparr>)"
    using True by (simp add: preopen_segment_def)
  then show ?thesis
    using o assms(1) by (intro exI [of _ G'] exI [of _ gs']) (simp add: same_place_def)
qed

lemma entry_lay:
  assumes "0 < R" "R < 4294967296" "e_count e \<noteq> 0" "unat (entry_addr e - im_last_addr pl) mod 8 = 0"
    and "lay R T n G gs pl" "n = 0 \<or> T ! (n - 1) \<noteq> None"
    and T: "drop n T = replicate (gap (im_last_addr pl) (entry_addr e)) None @ map Some (group_rows (group_of e)) @ rest"
  shows "\<exists>pl' G' gs' n'. add_to_current_segment (e_chunk e) (entry_addr e) (e_count e) pl = Some (Inr pl') \<and>
    lay R T n' G' gs' pl' \<and> drop n' T = rest \<and> (n' = 0 \<or> T ! (n' - 1) \<noteq> None) \<and> im_last_addr pl' = entry_addr e"
proof -
  let ?a = "entry_addr e" and ?c = "e_chunk e" and ?n = "unat (e_count e)"
  let ?pl = "set_current_chunk ?c pl"
  define g where "g = gap (im_last_addr pl) ?a"
  have n: "n \<le> length T" using assms(5) by (simp add: lay_def)
  have count: "0 < ?n" using assms(3) by (simp add: unat_gt_0)
  have rows: "group_rows (group_of e) = map (\<lambda>i. (?c, ?a, i)) [0..<?n]"
    by (simp add: group_rows_def group_of_def entry_addr_def)
  have T': "drop n T = replicate g None @ map (\<lambda>i. Some (?c, ?a, i)) [0..<?n] @ rest"
    unfolding T g_def rows by (simp add: comp_def)
  have "length T - n = g + ?n + length rest" using arg_cong [OF T', of length] by simp
  then have len: "length T = n + (g + ?n + length rest)" using n by simp
  have cell: "T ! (n + j) = (replicate g None @ map (\<lambda>i. Some (?c, ?a, i)) [0..<?n] @ rest) ! j" for j
    using nth_drop [OF n, of j] unfolding T' by simp
  have none: "\<forall>j<g. T ! (n + j) = None" unfolding cell by (simp add: nth_append)
  have some: "T ! (n + g + j) = Some (?c, ?a, j)" if "j < ?n" for j
    using cell [of "g + j"] that by (simp add: nth_append add.assoc)
  have lay0: "lay R T n G gs ?pl"
    using assms(5) by (simp add: set_current_chunk_def lay_cong [of "pl\<lparr>im_chunk := ?c\<rparr>" pl])
  have "unat (?a - im_last_addr ?pl) mod 8 = 0" "g = gap (im_last_addr ?pl) ?a"
    using assms(4) by (simp_all add: set_current_chunk_def g_def)
  from intermediates_lay [OF assms(1,2) this lay0 _ none] len
  obtain pl1 G1 gs1 where 1: "add_intermediates ?a ?pl = Some (Inr (of_nat g, pl1))" "lay R T (n + g) G1 gs1 pl1"
    "im_chunk pl1 = ?c" "im_last_addr pl1 = ?a" by (auto simp: set_current_chunk_def)
  have g32: "(of_nat g :: u32) = 0 \<longleftrightarrow> g = 0"
    unfolding g_def by (rule of_nat_u32_eq_0_iff) (rule gap_words(3) [OF assms(4)])
  have "T ! (n + g - 1) = None" if "g \<noteq> 0" using none that by (metis Nat.add_diff_assoc diff_less neq0_conv less_one One_nat_def Suc_leI)
  then obtain G2 gs2 where 2: "lay R T (n + g) G2 gs2 (preopen_segment ?a (of_nat g) pl1)" "n + g < Suc (length G2) * R"
    "same_place pl1 (preopen_segment ?a (of_nat g) pl1)"
    using preopen_lay [OF assms(1,2) 1(2), of ?a "of_nat g"] some [OF count] len count 1(3) assms(6) g32 by auto
  let ?pl2 = "set_reference ?c ?a (preopen_segment ?a (of_nat g) pl1)"
  have lay2: "lay R T (n + g) G2 gs2 ?pl2"
    using 2(1) by (simp add: set_reference_def lay_cong [of "(preopen_segment ?a (of_nat g) pl1)\<lparr>im_ref_chunk := ?c,
      im_ref_addr := ?a, im_ref_skip := 0\<rparr>" "preopen_segment ?a (of_nat g) pl1"])
  have "take ?n (drop (n + g) T) = map (\<lambda>i. Some (im_chunk ?pl2, ?a, i)) [?n - ?n..<?n]"
    using 1(3) 2(3) T' by (simp add: set_reference_def same_place_def add.commute [of n] flip: drop_drop)
  from rows_lay [OF assms(1,2) order_refl lay2 2(2) _ this] len
  obtain pl3 G3 gs3 where 3: "rows_loop ?a (e_count e) (of_nat ?n) ?pl2 = Some (Inr pl3)" "lay R T (n + g + ?n) G3 gs3 pl3"
    "same_place ?pl2 pl3" by auto
  have "drop (n + g + ?n) T = rest"
    using T' by (simp add: add.commute [of _ ?n] add.commute [of n] flip: drop_drop)
  moreover have "T ! (n + g + ?n - 1) \<noteq> None" using some [of "?n - 1"] count by simp
  moreover have "im_last_addr pl3 = ?a" using 1(4) 2(3) 3(3) by (simp add: same_place_def set_reference_def)
  ultimately show ?thesis
    using 1(1) 3(1,2) by (intro exI [of _ pl3] exI [of _ G3] exI [of _ gs3] exI [of _ "n + g + ?n"])
      (simp add: add_to_current_segment_def add_planner_rows_def)
qed


subsection \<open>All the entries\<close>

abbreviation put_entry :: "stream_entry \<Rightarrow> ImmutableMemPlanner \<Rightarrow> ImmutableMemPlanner run" where
  "put_entry \<equiv> put add_to_current_segment"

lemma aligned_diff:
  assumes "a AND 7 = 0" "b AND 7 = (0 :: u32)"
  shows "unat (a - b) mod 8 = 0"
proof -
  obtain x y where xy: "unat a = 8 * x" "unat b = 8 * y"
    using assms unfolding aligned_iff by (auto dest!: mod_0_imp_dvd elim!: dvdE)
  have "unat (a - b) = (if b \<le> a then 8 * x - 8 * y else 8 * (x + 536870912) - 8 * y)"
    using xy by (simp add: unat_sub_if_size word_size word_le_nat_alt)
  also have "\<dots> = 8 * ((if b \<le> a then x else x + 536870912) - y)" by (simp add: diff_mult_distrib2)
  finally show ?thesis by simp
qed

lemma entries_lay:
  assumes "0 < R" "R < 4294967296" "\<forall>e\<in>set es. e_count e \<noteq> 0 \<and> entry_addr e AND 7 = 0"
    and "lay R T n G gs pl" "n = 0 \<or> T ! (n - 1) \<noteq> None" "im_last_addr pl AND 7 = 0"
    and "drop n T = tape (im_last_addr pl) es"
  shows "\<exists>pl' G' gs'. foldR put_entry es pl = Some (Inr pl') \<and> lay R T (length T) G' gs' pl'"
  using assms(3-)
proof (induction es arbitrary: n G gs pl)
  case Nil
  then have "n = length T" by (simp add: lay_def)
  then show ?case using Nil by auto
next
  case (Cons e es)
  have "unat (entry_addr e - im_last_addr pl) mod 8 = 0" using Cons.prems by (intro aligned_diff) simp_all
  from entry_lay [OF assms(1,2) _ this Cons.prems(2,3), of "tape (entry_addr e) es"] Cons.prems(1,5)
  obtain pl1 G1 gs1 n1 where 1: "put_entry e pl = Some (Inr pl1)" "lay R T n1 G1 gs1 pl1"
    "drop n1 T = tape (entry_addr e) es" "n1 = 0 \<or> T ! (n1 - 1) \<noteq> None" "im_last_addr pl1 = entry_addr e"
    by (auto simp: put_def)
  show ?case
    using Cons.IH [OF _ 1(2,4)] Cons.prems(1) 1 by simp
qed

lemma close_last_lay:
  assumes "0 < R" "R < 4294967296" "lay R T (length T) G gs pl"
  shows "\<exists>G'. im_segments (close_last_segment pl) = map (segment_spec 0) G' \<and>
    length G' = (length T + R - 1) div R \<and> (\<forall>k<length G'. groups_rows (G' ! k) = segment_rows R T k)"
proof -
  note l = assms(3) [unfolded lay_def]
  have rows: "unat (rows_by_segment pl) = R" using l assms(2) by simp
  have av: "unat (im_available pl) = Suc (length G) * R - length T" by (rule lay_available [OF assms(3,2)])
  show ?thesis
  proof (cases "length T = length G * R")
    case True
    then have "close_last_segment pl = pl"
      using av rows by (simp add: close_last_segment_def word_less_nat_alt)
    moreover have "(length T + R - 1) div R = length G"
      using True assms(1) by (intro div_nat_eqI) (simp_all add: mult.commute)
    ultimately show ?thesis using l by (intro exI [of _ G]) simp
  next
    case False
    then have len: "length G * R < length T" "length T \<le> length G * R + R" using l by simp_all
    then have "close_last_segment pl = close_segment pl"
      using av rows by (simp add: close_last_segment_def word_less_nat_alt)
    moreover have "(length T + R - 1) div R = Suc (length G)"
    proof (rule div_nat_eqI)
      show "R * Suc (length G) \<le> length T + R - 1" using len(1) by (simp add: mult.commute)
      show "length T + R - 1 < R * Suc (Suc (length G))" using len(2) assms(1) by (simp add: mult.commute)
    qed
    moreover have "groups_rows gs = segment_rows R T (length G)"
      using l len by (simp add: segment_rows_def row_slice_def lookahead_def)
    ultimately show ?thesis
      using l by (intro exI [of _ "G @ [gs]"]) (simp add: nth_append less_Suc_eq)
  qed
qed

subsection \<open>The loops\<close>

interpretation immutable_walk: cell_walk immutable_cell add_to_current_segment
proof
  fix ws offset i s a
  have entry: "immutable_entry a = (\<lambda>p c n s. bindR (add_to_current_segment c a n s) (\<lambda>s. Some (Inr (s, False))))"
    by (simp add: immutable_entry_def fun_eq_iff)
  show "immutable_cell ws offset i (s, a) =
    bindR (Some (worker ws i)) (\<lambda>w.
    bindR (Some (get_addr_table w offset)) (\<lambda>pos.
    if pos = 0 then Some (Inr ((s, a + 8), False))
    else
      bindR (Some (get_initial_pos w pos)) (\<lambda>cpos.
      bindR (walk True (get_next_pos w) (read_entry (get_pos_value w)
          (\<lambda>p c n s. bindR (add_to_current_segment c a n s) (\<lambda>s. Some (Inr (s, False))))) pos cpos s) (\<lambda>(s, _).
      Some (Inr ((s, a + 8), False))))))"
    unfolding immutable_cell_def prod.case entry ..
qed

lemma immutable_page_entries:
  assumes "workers_read ws P V" "p < 20"
  shows "immutable_page ws (of_nat p) pl =
    bindR (foldR put_entry (concat (map (cell_entries P V) (page_cells p))) pl) (\<lambda>pl. Some (Inr (pl, False)))"
proof -
  obtain lo hi where lim: "get_offset_limits ws (of_nat p) = Inr (lo, hi)" "covers V {i. i < 8} p lo hi"
    using offset_limits [OF assms] by blast
  note cells = cell_entries_page [OF assms(1) lim(2) assms(2)]
  show ?thesis
  proof (cases "lo = 0xFFFFFFFF \<and> hi = 0")
    case True
    then obtain a where a: "offset_to_addr lo 0 = Inr a" by (simp add: offset_to_addr_def page_to_addr_def)
    have "range_cells lo hi = []" using True by (simp add: range_cells_def)
    then have empty: "concat (map (cell_entries P V) (page_cells p)) = []" using cells by simp
    have "for_while (\<lambda>off. off \<le> hi) body lo s = Some (Inr (s, False))" for body and s :: "ImmutableMemPlanner \<times> u32"
      using True by (subst for_while_step) simp
    then show ?thesis unfolding empty using a lim(1) by (simp add: immutable_page_def)
  next
    case False
    then have r: "lo \<le> hi" "offset_to_page lo = of_nat p" "offset_to_page hi = of_nat p"
      using lim(2) unfolding covers_def by blast+
    have "lo < ADDR_TABLE_SIZE"
      using r(2) assms(2) unfolding page_of_offset [OF assms(2)] by (simp add: word_less_nat_alt)
    then have "offset_to_addr lo 0 = Inr (cell_addr (lo, 0))" by (intro cell_addr_eq) simp_all
    then show ?thesis
      using immutable_walk.range_put [OF assms r, of pl] lim(1) by (simp add: immutable_page_def cells)
  qed
qed

lemma immutable_execute_stream:
  assumes "workers_read ws P V" "unat (im_to_page pl) \<le> 20" "page_to_addr (ucast (im_from_page pl)) = Inr base"
  shows "immutable_execute ws pl =
    bindR (foldR put_entry (stream P V (unat (im_from_page pl)) (unat (im_to_page pl))) (pl\<lparr>im_last_addr := base\<rparr>))
      (\<lambda>pl. Some (Inr (close_last_segment pl)))"
  using assms(3) immutable_walk.pages_put [OF assms(2), of "immutable_page ws" P V "unat (im_from_page pl)"]
    immutable_page_entries [OF assms(1)]
  by (cases "foldR put_entry (stream P V (unat (im_from_page pl)) (unat (im_to_page pl))) (pl\<lparr>im_last_addr := base\<rparr>)"
      rule: run_cases)
    (simp_all add: immutable_execute_def page_loop)

lemma entry_addr_aligned:
  assumes "e \<in> set (stream P V m n)" "n \<le> 20"
  shows "entry_addr e AND 7 = 0"
proof -
  from assms(1) obtain off i where c: "(off, i) \<in> set (cells m n)" "e \<in> set (cell_entries P V (off, i))"
    unfolding stream_def by auto
  then have "off < ADDR_TABLE_SIZE" "i < 8" using in_cells [OF assms(2)] by auto
  moreover have "entry_addr e = cell_addr (off, i)" using c(2) by (auto simp: entry_addr_def)
  ultimately show ?thesis using codec.to_of_offset [of off i 0] by (auto simp: cell_addr.simps)
qed

lemma somes_tape: "somes (tape before es) = stream_rows es"
  by (induction es arbitrary: before) (simp_all add: stream_rows_def)

subsection \<open>The run of the planner\<close>

lemma immutable_plan:
  assumes "workers_read ws P V" "0 < R" "R < 4294967296" "immutable_new last0 (of_nat R) a mb = Inr pl"
    and es: "es = stream P V (unat (im_from_page pl)) (unat (im_to_page pl))" and "\<forall>e\<in>set es. e_count e \<noteq> 0"
  shows "\<exists>pl' G. immutable_execute ws pl = Some (Inr pl') \<and> im_segments pl' = map (segment_spec 0) G \<and>
    length G = (length (tape a es) + R - 1) div R \<and> map groups_rows G = map (segment_rows R (tape a es)) [0..<length G] \<and>
    somes (tape a es) = stream_rows es"
proof -
  let ?pl = "pl\<lparr>im_last_addr := a\<rparr>"
  obtain from_page to_page where pages: "planner_pages a mb = Inr (from_page, to_page)"
    and pl: "im_from_page pl = from_page" "im_to_page pl = to_page" "rows_by_segment pl = of_nat R"
      "im_available pl = of_nat R" "im_segments pl = []" "im_segment pl = segment_spec 0 []"
    using assms(4) by (auto simp: immutable_new_def segment_new_spec)
  have to: "unat (im_to_page pl) \<le> 20" and base: "page_to_addr (ucast (im_from_page pl)) = Inr a"
    using pages by (auto simp: planner_pages_def pl addr_to_page_eq window_page_Some_iff split: if_splits option.splits)
  have "lay R (tape a es) 0 [] [] ?pl" by (simp add: lay_def pl)
  moreover have "a AND 7 = 0"
  proof -
    obtain p where p: "p < 20" "im_from_page pl = of_nat p"
      using pages by (auto simp: planner_pages_def pl addr_to_page_eq window_page_Some_iff split: if_splits option.splits)
    then have "(ucast (im_from_page pl) :: u8) = of_nat p"
      by (intro word_eq_of_nat) (simp add: unsigned_ucast_eq take_bit_eq_mod)
    then have "a = of_nat (page_window p * 67108864)" using base page_to_addr_eq [OF p(1)] by simp
    then show ?thesis using line_address(2) [OF p(1), of 0 0] by simp
  qed
  moreover have "\<forall>e\<in>set es. e_count e \<noteq> 0 \<and> entry_addr e AND 7 = 0"
    using assms(6) entry_addr_aligned [OF _ to] es by blast
  ultimately obtain pl1 G gs where 1: "foldR put_entry es ?pl = Some (Inr pl1)"
    "lay R (tape a es) (length (tape a es)) G gs pl1"
    using entries_lay [OF assms(2,3), of es "tape a es" 0 "[]" "[]" ?pl] by auto
  obtain G' where "im_segments (close_last_segment pl1) = map (segment_spec 0) G'"
    "length G' = (length (tape a es) + R - 1) div R" "\<forall>k<length G'. groups_rows (G' ! k) = segment_rows R (tape a es) k"
    using close_last_lay [OF assms(2,3) 1(2)] by blast
  moreover from this have "map groups_rows G' = map (segment_rows R (tape a es)) [0..<length G']"
    by (simp add: list_eq_iff_nth_eq)
  ultimately show ?thesis
    using immutable_execute_stream [OF assms(1) to base] 1(1) es
    by (intro exI [of _ "close_last_segment pl1"] exI [of _ G']) (simp add: somes_tape)
qed

subsection \<open>Properties\<close>

text \<open>
  C8: The plan of the ROM and of the input data. \<open>execute\<close> returns without an error, "too much rows" included, and
  lays the rows of its pages, with one row for every skipped address, on a tape cut every \<open>R\<close> rows: one segment per
  cut, none empty, and each records the accessed rows of its slice (and the row after a gap that ends the slice).
\<close>

theorem immutable_plan_covers_tape:
  assumes "workers_read ws P V" "0 < R" "R < 4294967296" "immutable_new last0 (of_nat R) a mb = Inr pl"
    and es: "es = stream P V (unat (im_from_page pl)) (unat (im_to_page pl))" and "\<forall>e\<in>set es. e_count e \<noteq> 0"
  shows "\<exists>pl' G. immutable_execute ws pl = Some (Inr pl') \<and> im_segments pl' = map (segment_spec 0) G \<and>
    length G = (length (tape a es) + R - 1) div R \<and> map groups_rows G = map (segment_rows R (tape a es)) [0..<length G] \<and>
    somes (tape a es) = stream_rows es"
  using assms by (rule immutable_plan)

theorem immutable_plan_covers_tape_witness:
  "\<exists>ws pl pl' G. immutable_new 0 (of_nat 4) 0x80000000 128 = Inr pl \<and> immutable_execute ws pl = Some (Inr pl') \<and>
    im_segments pl' = map (segment_spec 0) G \<and>
    map groups_rows G = [[], [(5, 0x80000040, 0)], [(5, 0x80000040, 1), (5, 0x80000040, 2)]]"
proof -
  have "addr_to_offset 0x80000040 0 = Inr 1" by (simp add: addr_to_offset_eq window_page_def)
  then obtain ws P where ws: "workers_read ws P (one_entry 1 5 3)" by (rule one_entry_workers)
  have "planner_pages 0x80000000 128 = Inr (0, 1)"
    by (simp add: planner_pages_def addr_to_page_eq window_page_def page_to_addr_def)
  then obtain pl where pl: "immutable_new 0 (of_nat 4) 0x80000000 128 = Inr pl" "im_from_page pl = 0" "im_to_page pl = 1"
    by (simp add: immutable_new_def)
  have "offset_to_page 1 = of_nat 0" by (simp add: offset_to_page_words)
  then obtain p where st: "stream P (one_entry 1 5 3) 0 (Suc 0) =
      [\<lparr>e_thread = 0, e_offset = 1, e_pos = p, e_chunk = 5, e_count = 3\<rparr>]"
    using stream_one_entry [OF ws, of "Suc 0" 0] by force
  have addr: "cell_addr (1, 0) = 0x80000040"
    by (simp add: cell_addr.simps offset_to_addr_def page_to_addr_def)
  have tape: "tape 0x80000000 (stream P (one_entry 1 5 3) 0 (Suc 0)) =
      replicate 7 None @ [Some (5, 0x80000040, 0), Some (5, 0x80000040, 1), Some (5, 0x80000040, 2)]"
    by (simp add: st entry_addr_def addr gap_def group_rows_def group_of_def upt_rec)
  let ?T = "replicate 7 None @ [Some (5, 0x80000040, 0), Some (5, 0x80000040, 1), Some (5, 0x80000040, 2)] :: row option list"
  have "map (segment_rows 4 ?T) [0..<3] = [[], [(5, 0x80000040, 0)], [(5, 0x80000040, 1), (5, 0x80000040, 2)]]"
    by (simp add: upt_rec segment_rows_def row_slice_def lookahead_def numeral_eq_Suc)
  moreover have "\<forall>e\<in>set (stream P (one_entry 1 5 3) 0 (Suc 0)). e_count e \<noteq> 0" by (simp add: st)
  moreover from this obtain pl' G where "immutable_execute ws pl = Some (Inr pl')" "im_segments pl' = map (segment_spec 0) G"
    "length G = 3" "map groups_rows G = map (segment_rows 4 ?T) [0..<length G]"
    using immutable_plan_covers_tape [OF ws _ _ pl(1) refl] pl by (auto simp: tape)
  ultimately show ?thesis
    using pl(1) by (intro exI [of _ ws] exI [of _ pl] exI [of _ pl'] exI [of _ G]) simp
qed

end
