(* ===== verification/Fine_Pages.thy ===== *)
theory Fine_Pages
  imports Mem_Address
begin

text \<open>
  \<open>addr_to_offset_2\<close> and \<open>addr_to_page_2\<close> of \<open>tools.cpp\<close>, the variant of the address switches with pages of
  32 MB: every page of \<open>mem_counter.hpp\<close> is split in two, and the offsets keep room for twice the lines. Where
  they find no page they print a message and call \<open>exit(1)\<close>.
\<close>

unbundle bit_operations_syntax

subsection \<open>The switches\<close>

definition addr_key_2 :: "u32 \<Rightarrow> u8" where
  "addr_key_2 a = ucast (drop_bit 24 a AND 0xFE)"

definition addr_to_offset_2 :: "u32 \<Rightarrow> u32 res" where
  "addr_to_offset_2 a =
    (let k = addr_key_2 a in
     if k = 0x80 then Inr (drop_bit ADDR_LOW_BITS (a - 0x80000000))
     else if k = 0x82 then Inr (drop_bit ADDR_LOW_BITS (a - 0x82000000) + ADDR_PAGE_SIZE)
     else if k = 0x84 then Inr (drop_bit ADDR_LOW_BITS (a - 0x84000000) + 2 * ADDR_PAGE_SIZE)
     else if k = 0x86 then Inr (drop_bit ADDR_LOW_BITS (a - 0x86000000) + 3 * ADDR_PAGE_SIZE)
     else if k = 0x90 then Inr (drop_bit ADDR_LOW_BITS (a - 0x90000000) + 4 * ADDR_PAGE_SIZE)
     else if k = 0x92 then Inr (drop_bit ADDR_LOW_BITS (a - 0x92000000) + 5 * ADDR_PAGE_SIZE)
     else if k = 0x94 then Inr (drop_bit ADDR_LOW_BITS (a - 0x94000000) + 6 * ADDR_PAGE_SIZE)
     else if k = 0x96 then Inr (drop_bit ADDR_LOW_BITS (a - 0x96000000) + 7 * ADDR_PAGE_SIZE)
     else if k = 0xA0 then Inr (drop_bit ADDR_LOW_BITS (a - 0xA0000000) + 8 * ADDR_PAGE_SIZE)
     else if k = 0xA2 then Inr (drop_bit ADDR_LOW_BITS (a - 0xA2000000) + 9 * ADDR_PAGE_SIZE)
     else if k = 0xA4 then Inr (drop_bit ADDR_LOW_BITS (a - 0xA4000000) + 10 * ADDR_PAGE_SIZE)
     else if k = 0xA6 then Inr (drop_bit ADDR_LOW_BITS (a - 0xA6000000) + 11 * ADDR_PAGE_SIZE)
     else if k = 0xA8 then Inr (drop_bit ADDR_LOW_BITS (a - 0xA8000000) + 12 * ADDR_PAGE_SIZE)
     else if k = 0xAA then Inr (drop_bit ADDR_LOW_BITS (a - 0xAA000000) + 13 * ADDR_PAGE_SIZE)
     else if k = 0xAC then Inr (drop_bit ADDR_LOW_BITS (a - 0xAC000000) + 14 * ADDR_PAGE_SIZE)
     else if k = 0xAE then Inr (drop_bit ADDR_LOW_BITS (a - 0xAE000000) + 15 * ADDR_PAGE_SIZE)
     else if k = 0xB0 then Inr (drop_bit ADDR_LOW_BITS (a - 0xB0000000) + 16 * ADDR_PAGE_SIZE)
     else if k = 0xB2 then Inr (drop_bit ADDR_LOW_BITS (a - 0xB2000000) + 17 * ADDR_PAGE_SIZE)
     else if k = 0xB4 then Inr (drop_bit ADDR_LOW_BITS (a - 0xB4000000) + 18 * ADDR_PAGE_SIZE)
     else if k = 0xB6 then Inr (drop_bit ADDR_LOW_BITS (a - 0xB6000000) + 19 * ADDR_PAGE_SIZE)
     else if k = 0xB8 then Inr (drop_bit ADDR_LOW_BITS (a - 0xB8000000) + 20 * ADDR_PAGE_SIZE)
     else if k = 0xBA then Inr (drop_bit ADDR_LOW_BITS (a - 0xBA000000) + 21 * ADDR_PAGE_SIZE)
     else if k = 0xBC then Inr (drop_bit ADDR_LOW_BITS (a - 0xBC000000) + 22 * ADDR_PAGE_SIZE)
     else if k = 0xBE then Inr (drop_bit ADDR_LOW_BITS (a - 0xBE000000) + 23 * ADDR_PAGE_SIZE)
     else if k = 0xC0 then Inr (drop_bit ADDR_LOW_BITS (a - 0xC0000000) + 24 * ADDR_PAGE_SIZE)
     else if k = 0xC2 then Inr (drop_bit ADDR_LOW_BITS (a - 0xC2000000) + 25 * ADDR_PAGE_SIZE)
     else if k = 0xC4 then Inr (drop_bit ADDR_LOW_BITS (a - 0xC4000000) + 26 * ADDR_PAGE_SIZE)
     else if k = 0xC6 then Inr (drop_bit ADDR_LOW_BITS (a - 0xC6000000) + 27 * ADDR_PAGE_SIZE)
     else if k = 0xC8 then Inr (drop_bit ADDR_LOW_BITS (a - 0xC8000000) + 28 * ADDR_PAGE_SIZE)
     else if k = 0xCA then Inr (drop_bit ADDR_LOW_BITS (a - 0xCA000000) + 29 * ADDR_PAGE_SIZE)
     else if k = 0xCC then Inr (drop_bit ADDR_LOW_BITS (a - 0xCC000000) + 30 * ADDR_PAGE_SIZE)
     else if k = 0xCE then Inr (drop_bit ADDR_LOW_BITS (a - 0xCE000000) + 31 * ADDR_PAGE_SIZE)
     else if k = 0xD0 then Inr (drop_bit ADDR_LOW_BITS (a - 0xD0000000) + 32 * ADDR_PAGE_SIZE)
     else if k = 0xD2 then Inr (drop_bit ADDR_LOW_BITS (a - 0xD2000000) + 33 * ADDR_PAGE_SIZE)
     else if k = 0xD4 then Inr (drop_bit ADDR_LOW_BITS (a - 0xD4000000) + 34 * ADDR_PAGE_SIZE)
     else if k = 0xD6 then Inr (drop_bit ADDR_LOW_BITS (a - 0xD6000000) + 35 * ADDR_PAGE_SIZE)
     else if k = 0xD8 then Inr (drop_bit ADDR_LOW_BITS (a - 0xD8000000) + 36 * ADDR_PAGE_SIZE)
     else if k = 0xDA then Inr (drop_bit ADDR_LOW_BITS (a - 0xDA000000) + 37 * ADDR_PAGE_SIZE)
     else if k = 0xDC then Inr (drop_bit ADDR_LOW_BITS (a - 0xDC000000) + 38 * ADDR_PAGE_SIZE)
     else if k = 0xDE then Inr (drop_bit ADDR_LOW_BITS (a - 0xDE000000) + 39 * ADDR_PAGE_SIZE)
     else Inl Process_exit)"

definition addr_to_page_2 :: "u32 \<Rightarrow> u32 res" where
  "addr_to_page_2 a =
    (let k = addr_key_2 a in
     if k = 0x80 then Inr 0
     else if k = 0x82 then Inr 1
     else if k = 0x84 then Inr 2
     else if k = 0x86 then Inr 3
     else if k = 0x90 then Inr 4
     else if k = 0x92 then Inr 5
     else if k = 0x94 then Inr 6
     else if k = 0x96 then Inr 7
     else if k = 0xA0 then Inr 8
     else if k = 0xA2 then Inr 9
     else if k = 0xA4 then Inr 10
     else if k = 0xA6 then Inr 11
     else if k = 0xA8 then Inr 12
     else if k = 0xAA then Inr 13
     else if k = 0xAC then Inr 14
     else if k = 0xAE then Inr 15
     else if k = 0xB0 then Inr 16
     else if k = 0xB2 then Inr 17
     else if k = 0xB4 then Inr 18
     else if k = 0xB6 then Inr 19
     else if k = 0xB8 then Inr 20
     else if k = 0xBA then Inr 21
     else if k = 0xBC then Inr 22
     else if k = 0xBE then Inr 23
     else if k = 0xC0 then Inr 24
     else if k = 0xC2 then Inr 25
     else if k = 0xC4 then Inr 26
     else if k = 0xC6 then Inr 27
     else if k = 0xC8 then Inr 28
     else if k = 0xCA then Inr 29
     else if k = 0xCC then Inr 30
     else if k = 0xCE then Inr 31
     else if k = 0xD0 then Inr 32
     else if k = 0xD2 then Inr 33
     else if k = 0xD4 then Inr 34
     else if k = 0xD6 then Inr 35
     else if k = 0xD8 then Inr 36
     else if k = 0xDA then Inr 37
     else if k = 0xDC then Inr 38
     else if k = 0xDE then Inr 39
     else Inl Process_exit)"

subsection \<open>The switches as arithmetic\<close>

text \<open>Addresses fall in 128 windows of 32 MB.\<close>

definition window_page_2 :: "nat \<Rightarrow> nat option" where
  "window_page_2 q =
    (if 64 \<le> q \<and> q \<le> 67 then Some (q - 64)
     else if 72 \<le> q \<and> q \<le> 75 then Some (q - 68)
     else if 80 \<le> q \<and> q \<le> 111 then Some (q - 72)
     else None)"

definition page_window_2 :: "nat \<Rightarrow> nat" where
  "page_window_2 p = (if p < 4 then p + 64 else if p < 8 then p + 68 else p + 72)"

lemma window_page_2_Some_iff: "window_page_2 q = Some p \<longleftrightarrow> p < 40 \<and> q = page_window_2 p"
  by (auto simp: window_page_2_def page_window_2_def)

lemma unat_addr_key_2: "unat (addr_key_2 a) = 2 * (unat a div 33554432)"
proof -
  have "drop_bit 24 a AND 0xFE = (drop_bit 24 a AND mask 8) AND NOT (mask 1)"
    by (simp add: mask_eq_exp_minus_1 and.assoc)
  then have "unat (drop_bit 24 a AND 0xFE) = unat a div 2 ^ 24 mod 2 ^ 8 div 2 ^ 1 * 2 ^ 1"
    by (simp only: unat_and_not_mask_u32 unat_and_mask_u32 unat_drop_bit_u32)
  also have "\<dots> = 2 * (unat a div 33554432)"
    using unat_u32_bound [of a] by (simp add: div_mult2_eq [symmetric])
  finally show ?thesis
    using unat_u32_bound [of a] by (simp add: addr_key_2_def unsigned_ucast_eq take_bit_eq_mod)
qed

lemma addr_key_2_iff: "n < 128 \<Longrightarrow> addr_key_2 a = of_nat (2 * n) \<longleftrightarrow> unat a div 33554432 = n"
  unfolding word_unat_eq_iff unat_addr_key_2 unat_of_nat by auto

lemmas addr_key_2_iffs =
  addr_key_2_iff [of 64, simplified]
  addr_key_2_iff [of 65, simplified]
  addr_key_2_iff [of 66, simplified]
  addr_key_2_iff [of 67, simplified]
  addr_key_2_iff [of 72, simplified]
  addr_key_2_iff [of 73, simplified]
  addr_key_2_iff [of 74, simplified]
  addr_key_2_iff [of 75, simplified]
  addr_key_2_iff [of 80, simplified]
  addr_key_2_iff [of 81, simplified]
  addr_key_2_iff [of 82, simplified]
  addr_key_2_iff [of 83, simplified]
  addr_key_2_iff [of 84, simplified]
  addr_key_2_iff [of 85, simplified]
  addr_key_2_iff [of 86, simplified]
  addr_key_2_iff [of 87, simplified]
  addr_key_2_iff [of 88, simplified]
  addr_key_2_iff [of 89, simplified]
  addr_key_2_iff [of 90, simplified]
  addr_key_2_iff [of 91, simplified]
  addr_key_2_iff [of 92, simplified]
  addr_key_2_iff [of 93, simplified]
  addr_key_2_iff [of 94, simplified]
  addr_key_2_iff [of 95, simplified]
  addr_key_2_iff [of 96, simplified]
  addr_key_2_iff [of 97, simplified]
  addr_key_2_iff [of 98, simplified]
  addr_key_2_iff [of 99, simplified]
  addr_key_2_iff [of 100, simplified]
  addr_key_2_iff [of 101, simplified]
  addr_key_2_iff [of 102, simplified]
  addr_key_2_iff [of 103, simplified]
  addr_key_2_iff [of 104, simplified]
  addr_key_2_iff [of 105, simplified]
  addr_key_2_iff [of 106, simplified]
  addr_key_2_iff [of 107, simplified]
  addr_key_2_iff [of 108, simplified]
  addr_key_2_iff [of 109, simplified]
  addr_key_2_iff [of 110, simplified]
  addr_key_2_iff [of 111, simplified]

lemma fine_numerals: "p < 40 \<Longrightarrow> p \<in> {0,1,2,3,4,5,6,7,8,9,10,11,12,13,14,15,16,17,18,19,20,21,22,23,24,25,26,27,28,29,
    30,31,32,33,34,35,36,37,38,39 :: nat}"
  by simp presburger

text \<open>A line inside a window, after the base of the window is taken off.\<close>

lemma fine_offset_eq:
  assumes "unat a div 33554432 = q"
  shows "drop_bit 6 (a - of_nat (q * 33554432)) + of_nat (p * 1048576) =
    (of_nat (p * 1048576 + unat a mod 33554432 div 64) :: u32)"
proof -
  have a: "unat a = q * 33554432 + unat a mod 33554432" using assms by (metis div_mult_mod_eq)
  have "a = of_nat (q * 33554432 + unat a mod 33554432)" by (subst a [symmetric]) simp
  then have "a - of_nat (q * 33554432) = of_nat (unat a mod 33554432)"
    by (metis add_diff_cancel_left' of_nat_add)
  moreover have "unat a mod 33554432 < 4294967296" by (rule less_trans [of _ 33554432]) simp_all
  ultimately have "unat (drop_bit 6 (a - of_nat (q * 33554432))) = unat a mod 33554432 div 64"
    by (simp only: unat_drop_bit_u32 unat_of_nat_u32) simp
  then have "drop_bit 6 (a - of_nat (q * 33554432)) = of_nat (unat a mod 33554432 div 64)"
    by (rule word_eq_of_nat)
  then show ?thesis by simp
qed

lemma addr_to_offset_2_eq:
  "addr_to_offset_2 a = (case window_page_2 (unat a div 33554432) of
      None \<Rightarrow> Inl Process_exit
    | Some p \<Rightarrow> Inr (of_nat (p * 1048576 + unat a mod 33554432 div 64)))"
proof (cases "window_page_2 (unat a div 33554432)")
  case None
  then have q: "\<forall>n\<in>{64,65,66,67,72,73,74,75} \<union> {80..111}. unat a div 33554432 \<noteq> n"
    by (auto simp: window_page_2_def split: if_splits)
  show ?thesis
    unfolding None addr_to_offset_2_def Let_def addr_key_2_iffs using q by simp
next
  case (Some p)
  then have p: "p < 40" and q: "unat a div 33554432 = page_window_2 p"
    by (simp_all add: window_page_2_Some_iff)
  have "drop_bit 6 (a - of_nat (page_window_2 p * 33554432)) + of_nat (p * 1048576) =
      (of_nat (p * 1048576 + unat a mod 33554432 div 64) :: u32)"
    by (rule fine_offset_eq [OF q])
  with fine_numerals [OF p] show ?thesis
    unfolding Some using q
    by (elim insertE emptyE) (simp_all add: addr_to_offset_2_def addr_key_2_iffs page_window_2_def)
qed

lemma addr_to_page_2_eq:
  "addr_to_page_2 a = (case window_page_2 (unat a div 33554432) of None \<Rightarrow> Inl Process_exit | Some p \<Rightarrow> Inr (of_nat p))"
proof (cases "window_page_2 (unat a div 33554432)")
  case None
  then have q: "\<forall>n\<in>{64,65,66,67,72,73,74,75} \<union> {80..111}. unat a div 33554432 \<noteq> n"
    by (auto simp: window_page_2_def split: if_splits)
  show ?thesis
    unfolding None addr_to_page_2_def Let_def addr_key_2_iffs using q by simp
next
  case (Some p)
  then have p: "p < 40" and q: "unat a div 33554432 = page_window_2 p"
    by (simp_all add: window_page_2_Some_iff)
  from fine_numerals [OF p] show ?thesis
    unfolding Some using q
    by (elim insertE emptyE) (simp_all add: addr_to_page_2_def addr_key_2_iffs page_window_2_def)
qed

subsection \<open>The halves of a page\<close>

lemma window_halves:
  "window_page_2 q = map_option (\<lambda>p. 2 * p + q mod 2) (window_page (q div 2))"
proof -
  obtain r b where q: "q = 2 * r + b" "b < 2" by (metis div_mult_mod_eq mult.commute mod_less_divisor zero_less_numeral)
  then have "q div 2 = r" "q mod 2 = b" by simp_all
  then show ?thesis using q by (auto simp: window_page_2_def window_page_def)
qed

lemma half_of_window: "(x :: nat) div 33554432 div 2 = x div 67108864" "x mod 67108864 = x div 33554432 mod 2 * 33554432 + x mod 33554432"
proof -
  show "x div 33554432 div 2 = x div 67108864" by (simp add: div_mult2_eq [symmetric])
  have "x mod (33554432 * 2) = 33554432 * (x div 33554432 mod 2) + x mod 33554432" by (rule mod_mult2_eq)
  then show "x mod 67108864 = x div 33554432 mod 2 * 33554432 + x mod 33554432" by simp
qed

subsection \<open>Properties\<close>

text \<open>
  C26: The 32 MB variant refines the 64 MB one. Both accept the same addresses; the fine page is twice the page of
  \<open>addr_to_page\<close> for an address in the lower 32 MB of its page, and one more in the upper; and the fine offset is the
  one of \<open>addr_to_offset\<close> with room for as many lines again behind each half page.
\<close>

theorem fine_pages_refine:
  "case addr_to_page a of
     Inl e \<Rightarrow> addr_to_page_2 a = Inl Process_exit \<and> addr_to_offset_2 a = Inl Process_exit
   | Inr p \<Rightarrow> \<exists>off. addr_to_page_2 a = Inr (2 * p + (if unat a mod 67108864 < 33554432 then 0 else 1)) \<and>
       addr_to_offset a c = Inr off \<and>
       addr_to_offset_2 a = Inr (of_nat (unat off div 524288 * 1048576 + unat off mod 524288))"
proof (cases "window_page (unat a div 67108864)")
  case None
  then show ?thesis
    by (simp add: addr_to_page_eq addr_to_page_2_eq addr_to_offset_2_eq window_halves half_of_window(1))
next
  case (Some p)
  define b where "b = unat a div 33554432 mod 2"
  define l where "l = unat a mod 33554432 div 64"
  have b: "b < 2" by (simp add: b_def)
  have l: "l < 524288" by (simp add: l_def less_mult_imp_div_less)
  have p: "p < 20" using Some by (simp add: window_page_Some_iff)
  have fine: "window_page_2 (unat a div 33554432) = Some (2 * p + b)"
    using Some by (simp add: window_halves half_of_window(1) b_def)
  have low: "unat a mod 67108864 div 64 = b * 524288 + l"
    unfolding half_of_window(2) b_def l_def by simp
  define off where "off = (of_nat (p * 1048576 + (b * 524288 + l)) :: u32)"
  have "p * 1048576 + (b * 524288 + l) < 4294967296" using p b l by linarith
  then have unat_off: "unat off = (2 * p + b) * 524288 + l" unfolding off_def by (subst unat_of_nat_u32) simp_all
  have off2: "unat off div 524288 = 2 * p + b" "unat off mod 524288 = l"
    unfolding unat_off mod_mult_self3 using l by simp_all
  have "addr_to_page_2 a = Inr (2 * of_nat p + of_nat b)" by (simp add: addr_to_page_2_eq fine)
  moreover have "addr_to_offset a c = Inr off" by (simp only: addr_to_offset_eq Some option.case low off_def)
  moreover have "addr_to_offset_2 a = Inr (of_nat (unat off div 524288 * 1048576 + unat off mod 524288))"
    unfolding off2 by (simp only: addr_to_offset_2_eq fine option.case l_def)
  moreover have "(of_nat b :: u32) = (if unat a mod 67108864 < 33554432 then 0 else 1)"
    using b unfolding half_of_window(2) b_def by (auto simp: less_2_cases_iff)
  ultimately show ?thesis
    unfolding addr_to_page_eq Some option.case sum.case by (intro exI [of _ off]) simp
qed

end
