(* ===== verification/Ring_Buffer.thy ===== *)
theory Ring_Buffer
  imports Prelude
begin

text \<open>
  The two ring buffers of the repository: \<open>CircularQueue\<close> of \<open>circular_queue.hpp\<close>, which wraps its indices with a
  mask, and \<open>LockFreeRingBuffer\<close> of \<open>main.cpp\<close>, which wraps them with a remainder. Both keep one slot free to tell
  a full buffer from an empty one, and both are interpretations of one interface, a bounded queue.
\<close>

unbundle bit_operations_syntax

subsection \<open>The interface\<close>

datatype 'a queue_op = Push 'a | Pop

text \<open>What a client sees of a run: the values accepted and the values taken, in order.\<close>

fun queue_run ::
  "('a \<Rightarrow> 'q \<Rightarrow> bool \<times> 'q) \<Rightarrow> ('q \<Rightarrow> 'a option \<times> 'q) \<Rightarrow> 'a queue_op list \<Rightarrow> 'q \<Rightarrow> 'a list \<times> 'a list \<times> 'q" where
  "queue_run push pop [] q = ([], [], q)"
| "queue_run push pop (Push v # ops) q =
    (let (ok, q) = push v q; (ins, outs, q) = queue_run push pop ops q in (if ok then v # ins else ins, outs, q))"
| "queue_run push pop (Pop # ops) q =
    (let (x, q) = pop q; (ins, outs, q) = queue_run push pop ops q in
     (ins, (case x of None \<Rightarrow> outs | Some v \<Rightarrow> v # outs), q))"

locale bounded_queue =
  fixes push :: "'a \<Rightarrow> 'q \<Rightarrow> bool \<times> 'q" and pop :: "'q \<Rightarrow> 'a option \<times> 'q"
    and wf :: "'q \<Rightarrow> bool" and content :: "'q \<Rightarrow> 'a list" and room :: nat
  assumes bound: "wf q \<Longrightarrow> length (content q) \<le> room"
    and push_full: "wf q \<Longrightarrow> length (content q) = room \<Longrightarrow> push v q = (False, q)"
    and push_room: "wf q \<Longrightarrow> length (content q) < room \<Longrightarrow>
      \<exists>q'. push v q = (True, q') \<and> wf q' \<and> content q' = content q @ [v]"
    and pop_empty: "wf q \<Longrightarrow> content q = [] \<Longrightarrow> pop q = (None, q)"
    and pop_first: "wf q \<Longrightarrow> content q = x # xs \<Longrightarrow> \<exists>q'. pop q = (Some x, q') \<and> wf q' \<and> content q' = xs"
begin

lemma run_fifo:
  assumes "wf q" "queue_run push pop ops q = (ins, outs, q')"
  shows "wf q' \<and> content q @ ins = outs @ content q'"
  using assms
proof (induction ops arbitrary: q ins outs)
  case (Cons op ops)
  show ?case
  proof (cases op)
    case (Push v)
    obtain ok q1 ins1 outs1 where run: "push v q = (ok, q1)" "queue_run push pop ops q1 = (ins1, outs1, q')"
      "ins = (if ok then v # ins1 else ins1)" "outs = outs1"
      using Cons.prems(2) by (auto simp: Push split: prod.splits)
    show ?thesis
    proof (cases "length (content q) = room")
      case True
      then have "ok = False" "q1 = q" using push_full [OF Cons.prems(1) True, of v] run(1) by simp_all
      then show ?thesis using Cons.IH [OF Cons.prems(1)] run(2-4) by simp
    next
      case False
      then have "length (content q) < room" using bound [OF Cons.prems(1)] by simp
      then have "ok" "wf q1" "content q1 = content q @ [v]"
        using push_room [OF Cons.prems(1), of v] run(1) by auto
      then show ?thesis using Cons.IH [OF _ run(2)] run(3,4) by simp
    qed
  next
    case Pop
    obtain x q1 ins1 outs1 where run: "pop q = (x, q1)" "queue_run push pop ops q1 = (ins1, outs1, q')"
      "ins = ins1" "outs = (case x of None \<Rightarrow> outs1 | Some v \<Rightarrow> v # outs1)"
      using Cons.prems(2) by (auto simp: Pop split: prod.splits)
    show ?thesis
    proof (cases "content q")
      case Nil
      then have "x = None" "q1 = q" using pop_empty [OF Cons.prems(1) Nil] run(1) by simp_all
      then show ?thesis using Cons.IH [OF Cons.prems(1)] run(2-4) by simp
    next
      case (Cons y ys)
      then have "x = Some y" "wf q1" "content q1 = ys" using pop_first [OF Cons.prems(1) Cons] run(1) by auto
      then show ?thesis using Cons.IH [OF _ run(2)] run(3,4) Cons by simp
    qed
  qed
qed simp

end

subsection \<open>Indices that wrap\<close>

definition ring_content :: "nat \<Rightarrow> (nat \<Rightarrow> 'a) \<Rightarrow> nat \<Rightarrow> nat \<Rightarrow> 'a list" where
  "ring_content cap get h t = map (\<lambda>k. get ((h + k) mod cap)) [0..<(t + cap - h) mod cap]"

lemma ring_length: "length (ring_content cap get h t) = (t + cap - h) mod cap"
  by (simp add: ring_content_def)

lemma ring_wrap: "h < (cap :: nat) \<Longrightarrow> k \<le> cap \<Longrightarrow> (h + k) mod cap = (if h + k < cap then h + k else h + k - cap)"
proof -
  assume "h < cap" "k \<le> cap"
  show ?thesis
  proof (cases "h + k < cap")
    case False
    then have "(h + k) mod cap = (h + k - cap) mod cap" by (simp add: le_mod_geq)
    then show ?thesis using False \<open>h < cap\<close> \<open>k \<le> cap\<close> by simp
  qed simp
qed

lemma ring_used:
  fixes cap :: nat
  assumes "h < cap" "t < cap"
  shows "(t + cap - h) mod cap = (if h \<le> t then t - h else t + cap - h)"
proof -
  have "t + cap - h = t + (cap - h)" using assms(1) by simp
  then show ?thesis using assms ring_wrap [of t cap "cap - h"] by auto
qed

lemma ring_next:
  assumes "t < cap"
  shows "Suc t mod cap = (if Suc t = cap then 0 else Suc t)" "Suc t mod cap < cap"
  using assms by (auto simp: mod_Suc)

lemma ring_full: "h < cap \<Longrightarrow> t < cap \<Longrightarrow> Suc t mod cap = h \<longleftrightarrow> length (ring_content cap get h t) = cap - 1"
  unfolding ring_length by (simp add: ring_used ring_next) arith

lemma ring_bound: "h < cap \<Longrightarrow> t < cap \<Longrightarrow> length (ring_content cap get h t) \<le> cap - 1"
  unfolding ring_length by (simp add: ring_used) arith

lemma ring_empty: "h < cap \<Longrightarrow> t < cap \<Longrightarrow> ring_content cap get h t = [] \<longleftrightarrow> h = t"
  unfolding length_0_conv [symmetric] ring_length by (auto simp: ring_used)

lemma ring_push:
  assumes "h < cap" "t < cap" "Suc t mod cap \<noteq> h"
  shows "ring_content cap (get(t := v)) h (Suc t mod cap) = ring_content cap get h t @ [v]"
proof -
  let ?n = "(t + cap - h) mod cap"
  have n: "(Suc t mod cap + cap - h) mod cap = Suc ?n"
    using assms by (simp add: ring_used ring_next(2)) (auto simp: ring_next(1) split: if_splits)
  have le: "?n < cap" using assms(1) by simp
  have "(h + ?n) mod cap = t" using ring_wrap [of h cap ?n] assms(1,2) le by (auto simp: ring_used split: if_splits)
  moreover have "(h + k) mod cap \<noteq> t" if "k < ?n" for k
    using that ring_wrap [of h cap k] assms(1,2) le by (auto simp: ring_used split: if_splits)
  ultimately show ?thesis by (simp add: ring_content_def n)
qed

lemma ring_pop:
  assumes "h < cap" "t < cap" "h \<noteq> t"
  shows "ring_content cap get h t = get h # ring_content cap get (Suc h mod cap) t"
proof -
  let ?n = "(t + cap - h) mod cap" and ?m = "(t + cap - Suc h mod cap) mod cap"
  have n: "?n = Suc ?m"
    using assms by (simp add: ring_used ring_next(2)) (auto simp: ring_next(1) split: if_splits)
  have "(Suc h mod cap + k) mod cap = (h + Suc k) mod cap" for k by (simp add: mod_add_left_eq)
  then show ?thesis
    using assms(1) unfolding ring_content_def n
    by (simp add: upt_conv_Cons map_Suc_upt [symmetric] comp_def del: upt_Suc)
qed

text \<open>A mask is a remainder when the capacity is a power of two, which is what the \<open>static_assert\<close> checks.\<close>

lemma power_of_two_nat: "0 < n \<Longrightarrow> n AND (n - 1) = 0 \<Longrightarrow> \<exists>k. n = (2 :: nat) ^ k"
proof (induction n rule: less_induct)
  case (less n)
  show ?case
  proof (cases "even n")
    case True
    then obtain m where m: "n = 2 * m" "0 < m" using less.prems(1) by (auto elim: evenE)
    have "(n - 1) div 2 = m - 1" "n div 2 = m" using m by simp_all
    then have "2 * (m AND (m - 1)) = 0" using less.prems(2) True by (subst (asm) and_rec) (simp del: One_nat_def)
    then have "\<exists>k. m = 2 ^ k" using less.IH [of m] m by simp
    then show ?thesis using m(1) by (metis power_Suc)
  next
    case False
    then obtain m where m: "n = 2 * m + 1" by (auto elim: oddE)
    then have "n div 2 = m" "(n - 1) div 2 = m" "odd n" "even (n - 1)" by simp_all
    then have "2 * m = 0" using less.prems(2) by (subst (asm) and_rec) (simp del: One_nat_def)
    then show ?thesis using m by (intro exI [of _ 0]) simp
  qed
qed

lemma power_of_two_mask:
  fixes cap i :: u64
  assumes "0 < cap" "cap AND (cap - 1) = 0" "i < cap"
  shows "unat ((i + 1) AND (cap - 1)) = Suc (unat i) mod unat cap"
proof -
  have pos: "0 < unat cap" using assms(1) by (simp add: word_less_nat_alt)
  then have dec: "unat (cap - 1) = unat cap - 1" by (intro unat_minus_one) auto
  have "unat cap AND (unat cap - 1) = unat (cap AND (cap - 1))" by (simp add: unsigned_and_eq dec)
  then have "unat cap AND (unat cap - 1) = 0" using assms(2) by simp
  then obtain k where k: "unat cap = 2 ^ k" using power_of_two_nat [OF pos] by blast
  have "unat i < unat cap" "unat cap < 18446744073709551616"
    using assms(3) unsigned_less [of cap, where ?'a = nat] by (simp_all add: word_less_nat_alt)
  then have "unat (i + 1) = Suc (unat i)" by (simp add: unat_word_ariths)
  then have "unat ((i + 1) AND (cap - 1)) = Suc (unat i) AND (2 ^ k - 1)" by (simp add: unsigned_and_eq dec k)
  also have "\<dots> = Suc (unat i) mod 2 ^ k" by (metis mask_eq_exp_minus_1 take_bit_eq_mask take_bit_eq_mod)
  finally show ?thesis by (simp add: k)
qed

subsection \<open>CircularQueue\<close>

text \<open>\<open>Capacity\<close>, a parameter of the template, is an argument; \<open>tail\<close> is the write and \<open>head\<close> the read position.\<close>

record 'a CircularQueue =
  cq_buffer :: "u64 \<Rightarrow> 'a"
  cq_head :: u64
  cq_tail :: u64

definition cq_new :: "(u64 \<Rightarrow> 'a) \<Rightarrow> 'a CircularQueue" where
  "cq_new buffer0 = \<lparr>cq_buffer = buffer0, cq_head = 0, cq_tail = 0\<rparr>"

definition cq_push :: "u64 \<Rightarrow> 'a \<Rightarrow> 'a CircularQueue \<Rightarrow> bool \<times> 'a CircularQueue" where
  "cq_push capacity v q =
    (let current_tail = cq_tail q; next_tail = (current_tail + 1) AND (capacity - 1) in
     if next_tail = cq_head q then (False, q)
     else (True, q\<lparr>cq_buffer := (cq_buffer q)(current_tail := v), cq_tail := next_tail\<rparr>))"

definition cq_pop :: "u64 \<Rightarrow> 'a CircularQueue \<Rightarrow> 'a option \<times> 'a CircularQueue" where
  "cq_pop capacity q =
    (let current_head = cq_head q in
     if current_head = cq_tail q then (None, q)
     else (Some (cq_buffer q current_head), q\<lparr>cq_head := (current_head + 1) AND (capacity - 1)\<rparr>))"

text \<open>A capacity the \<open>static_assert\<close> accepts: a power of two; a queue of capacity 0 has no array.\<close>

definition cq_capacity :: "nat \<Rightarrow> u64" where
  "cq_capacity n = push_bit (n mod 64) 1"

definition cq_wf :: "u64 \<Rightarrow> 'a CircularQueue \<Rightarrow> bool" where
  "cq_wf cap q \<longleftrightarrow> cq_head q < cap \<and> cq_tail q < cap"

definition cq_content :: "u64 \<Rightarrow> 'a CircularQueue \<Rightarrow> 'a list" where
  "cq_content cap q = ring_content (unat cap) (\<lambda>i. cq_buffer q (of_nat i)) (unat (cq_head q)) (unat (cq_tail q))"

lemma cq_capacity_ok: "0 < cq_capacity n" "cq_capacity n AND (cq_capacity n - 1) = 0"
proof -
  let ?k = "n mod 64"
  have cap: "cq_capacity n = (2 :: u64) ^ ?k" by (simp add: cq_capacity_def push_bit_eq_mult)
  have k: "?k < 64" by simp
  then have "(2 :: nat) ^ ?k < 2 ^ 64" by (rule power_strict_increasing) simp
  then have "unat (of_nat (2 ^ ?k) :: u64) = 2 ^ ?k" by (simp only: unat_of_nat) simp
  then have "unat ((2 :: u64) ^ ?k) = 2 ^ ?k" by simp
  then show pos: "0 < cq_capacity n" unfolding cap word_less_nat_alt by simp
  have "(2 :: u64) ^ ?k AND (2 ^ ?k - 1) = take_bit ?k (2 ^ ?k)"
    by (simp add: take_bit_eq_mask mask_eq_exp_minus_1)
  then show "cq_capacity n AND (cq_capacity n - 1) = 0" unfolding cap by (simp add: take_bit_eq_mod)
qed

lemma ring_content_cong:
  assumes "0 < cap" "\<And>i. i < cap \<Longrightarrow> get i = get' i"
  shows "ring_content cap get h t = ring_content cap get' h t"
  using assms by (simp add: ring_content_def)

lemma u64_index: "i < unat (cap :: u64) \<Longrightarrow> of_nat i = (t :: u64) \<longleftrightarrow> i = unat t"
  using unsigned_less [of cap, where ?'a = nat] by (auto simp: unat_of_nat)

interpretation circular_queue: bounded_queue "cq_push (cq_capacity n)" "cq_pop (cq_capacity n)"
  "cq_wf (cq_capacity n)" "cq_content (cq_capacity n)" "unat (cq_capacity n) - 1" for n
proof unfold_locales
  fix q :: "'a CircularQueue" and v x xs
  let ?cap = "cq_capacity n" and ?h = "unat (cq_head q)" and ?t = "unat (cq_tail q)"
  let ?get = "\<lambda>i. cq_buffer q (of_nat i)"
  assume wf: "cq_wf ?cap q"
  then have ht: "?h < unat ?cap" "?t < unat ?cap" "cq_head q < ?cap" "cq_tail q < ?cap"
    by (simp_all add: cq_wf_def word_less_nat_alt)
  note mask = power_of_two_mask [OF cq_capacity_ok]
  have next_t: "unat ((cq_tail q + 1) AND (?cap - 1)) = Suc ?t mod unat ?cap" by (rule mask [OF ht(4)])
  have next_h: "unat ((cq_head q + 1) AND (?cap - 1)) = Suc ?h mod unat ?cap" by (rule mask [OF ht(3)])
  have full: "(cq_tail q + 1) AND (?cap - 1) = cq_head q \<longleftrightarrow> length (cq_content ?cap q) = unat ?cap - 1"
    unfolding cq_content_def ring_full [OF ht(1,2), symmetric] next_t [symmetric] by (simp only: word_unat_eq_iff)
  have empty: "cq_head q = cq_tail q \<longleftrightarrow> cq_content ?cap q = []"
    unfolding cq_content_def ring_empty [OF ht(1,2)] by (simp only: word_unat_eq_iff)
  show "length (cq_content ?cap q) \<le> unat ?cap - 1" unfolding cq_content_def by (rule ring_bound [OF ht(1,2)])
  show "cq_push ?cap v q = (False, q)" if "length (cq_content ?cap q) = unat ?cap - 1"
    using full that by (simp add: cq_push_def)
  show "cq_pop ?cap q = (None, q)" if "cq_content ?cap q = []"
    using empty that by (simp add: cq_pop_def)
  show "\<exists>q'. cq_push ?cap v q = (True, q') \<and> cq_wf ?cap q' \<and> cq_content ?cap q' = cq_content ?cap q @ [v]"
    if "length (cq_content ?cap q) < unat ?cap - 1"
  proof -
    let ?q = "q\<lparr>cq_buffer := (cq_buffer q)(cq_tail q := v), cq_tail := (cq_tail q + 1) AND (?cap - 1)\<rparr>"
    have no: "(cq_tail q + 1) AND (?cap - 1) \<noteq> cq_head q" using full that by simp
    then have "Suc ?t mod unat ?cap \<noteq> ?h" using next_t by (simp add: word_unat_eq_iff)
    from ring_push [OF ht(1,2) this, of ?get v]
    have "ring_content (unat ?cap) (?get(?t := v)) ?h (Suc ?t mod unat ?cap) = cq_content ?cap q @ [v]"
      by (simp add: cq_content_def)
    moreover have "cq_content ?cap ?q = ring_content (unat ?cap) (?get(?t := v)) ?h (Suc ?t mod unat ?cap)"
      unfolding cq_content_def using ht(1) u64_index [of _ ?cap "cq_tail q"]
      by (simp add: next_t) (rule ring_content_cong, auto)
    moreover have "cq_wf ?cap ?q"
      using ht ring_next(2) [OF ht(2)] by (simp add: cq_wf_def word_less_nat_alt next_t)
    ultimately show ?thesis using no by (intro exI [of _ ?q]) (simp add: cq_push_def Let_def)
  qed
  show "\<exists>q'. cq_pop ?cap q = (Some x, q') \<and> cq_wf ?cap q' \<and> cq_content ?cap q' = xs" if "cq_content ?cap q = x # xs"
  proof -
    let ?q = "q\<lparr>cq_head := (cq_head q + 1) AND (?cap - 1)\<rparr>"
    have no: "cq_head q \<noteq> cq_tail q" using empty that by simp
    then have "?h \<noteq> ?t" by (simp add: word_unat_eq_iff)
    from ring_pop [OF ht(1,2) this, of ?get] have "x = cq_buffer q (cq_head q)" "cq_content ?cap ?q = xs"
      using that by (simp_all add: cq_content_def next_h)
    moreover have "cq_wf ?cap ?q"
      using ht ring_next(2) [OF ht(1)] by (simp add: cq_wf_def word_less_nat_alt next_h)
    ultimately show ?thesis using no by (intro exI [of _ ?q]) (simp add: cq_pop_def Let_def)
  qed
qed

subsection \<open>LockFreeRingBuffer\<close>

record LockFreeRingBuffer =
  rb_buffer :: "u32 list"
  rb_read_pos :: u64
  rb_write_pos :: u64
  rb_capacity :: u64

definition rb_new :: "u64 \<Rightarrow> LockFreeRingBuffer" where
  "rb_new n_slots = \<lparr>rb_buffer = replicate (unat n_slots) 0, rb_read_pos = 0, rb_write_pos = 0, rb_capacity = n_slots\<rparr>"

definition try_push :: "u32 \<Rightarrow> LockFreeRingBuffer \<Rightarrow> bool \<times> LockFreeRingBuffer" where
  "try_push v q =
    (let current_write = rb_write_pos q; next_write = (current_write + 1) mod rb_capacity q in
     if next_write = rb_read_pos q then (False, q)
     else (True, q\<lparr>rb_buffer := (rb_buffer q)[unat current_write := v], rb_write_pos := next_write\<rparr>))"

definition try_pop :: "LockFreeRingBuffer \<Rightarrow> u32 option \<times> LockFreeRingBuffer" where
  "try_pop q =
    (let current_read = rb_read_pos q in
     if current_read = rb_write_pos q then (None, q)
     else (Some (rb_buffer q ! unat current_read), q\<lparr>rb_read_pos := (current_read + 1) mod rb_capacity q\<rparr>))"

definition rb_wf :: "u64 \<Rightarrow> LockFreeRingBuffer \<Rightarrow> bool" where
  "rb_wf cap q \<longleftrightarrow> rb_capacity q = cap \<and> length (rb_buffer q) = unat cap \<and> rb_read_pos q < cap \<and> rb_write_pos q < cap"

definition rb_content :: "LockFreeRingBuffer \<Rightarrow> u32 list" where
  "rb_content q =
    ring_content (unat (rb_capacity q)) (\<lambda>i. rb_buffer q ! i) (unat (rb_read_pos q)) (unat (rb_write_pos q))"

lemma unat_next_mod: "i < cap \<Longrightarrow> unat ((i + 1) mod cap :: u64) = Suc (unat i) mod unat cap"
proof -
  assume "i < cap"
  then have "Suc (unat i) < 18446744073709551616"
    using unsigned_less [of cap, where ?'a = nat] by (simp add: word_less_nat_alt)
  then show ?thesis by (simp add: unat_mod_distrib unat_word_ariths)
qed

interpretation ring_buffer: bounded_queue try_push try_pop "rb_wf cap" rb_content "unat cap - 1" for cap
proof unfold_locales
  fix q :: LockFreeRingBuffer and v x xs
  let ?h = "unat (rb_read_pos q)" and ?t = "unat (rb_write_pos q)" and ?get = "\<lambda>i. rb_buffer q ! i"
  assume wf: "rb_wf cap q"
  then have ht: "?h < unat cap" "?t < unat cap" "rb_read_pos q < cap" "rb_write_pos q < cap"
    and cap: "rb_capacity q = cap" "length (rb_buffer q) = unat cap"
    by (simp_all add: rb_wf_def word_less_nat_alt)
  note next_t = unat_next_mod [OF ht(4)] and next_h = unat_next_mod [OF ht(3)]
  have full: "(rb_write_pos q + 1) mod cap = rb_read_pos q \<longleftrightarrow> length (rb_content q) = unat cap - 1"
    unfolding rb_content_def cap ring_full [OF ht(1,2), symmetric] next_t [symmetric] by (simp only: word_unat_eq_iff)
  have empty: "rb_read_pos q = rb_write_pos q \<longleftrightarrow> rb_content q = []"
    unfolding rb_content_def cap ring_empty [OF ht(1,2)] by (simp only: word_unat_eq_iff)
  show "length (rb_content q) \<le> unat cap - 1" unfolding rb_content_def cap by (rule ring_bound [OF ht(1,2)])
  show "try_push v q = (False, q)" if "length (rb_content q) = unat cap - 1"
    using full that by (simp add: try_push_def cap)
  show "try_pop q = (None, q)" if "rb_content q = []"
    using empty that by (simp add: try_pop_def)
  show "\<exists>q'. try_push v q = (True, q') \<and> rb_wf cap q' \<and> rb_content q' = rb_content q @ [v]"
    if "length (rb_content q) < unat cap - 1"
  proof -
    let ?q = "q\<lparr>rb_buffer := (rb_buffer q)[?t := v], rb_write_pos := (rb_write_pos q + 1) mod cap\<rparr>"
    have no: "(rb_write_pos q + 1) mod cap \<noteq> rb_read_pos q" using full that by simp
    then have "Suc ?t mod unat cap \<noteq> ?h" using next_t by (simp add: word_unat_eq_iff)
    from ring_push [OF ht(1,2) this, of ?get v]
    have "ring_content (unat cap) (?get(?t := v)) ?h (Suc ?t mod unat cap) = rb_content q @ [v]"
      by (simp add: rb_content_def cap)
    moreover have "rb_content ?q = ring_content (unat cap) (?get(?t := v)) ?h (Suc ?t mod unat cap)"
      unfolding rb_content_def using ht(1) cap by (simp add: next_t) (rule ring_content_cong, auto)
    moreover have "rb_wf cap ?q"
      using ht cap ring_next(2) [OF ht(2)] by (simp add: rb_wf_def word_less_nat_alt next_t)
    ultimately show ?thesis using no cap by (intro exI [of _ ?q]) (simp add: try_push_def Let_def)
  qed
  show "\<exists>q'. try_pop q = (Some x, q') \<and> rb_wf cap q' \<and> rb_content q' = xs" if "rb_content q = x # xs"
  proof -
    let ?q = "q\<lparr>rb_read_pos := (rb_read_pos q + 1) mod cap\<rparr>"
    have no: "rb_read_pos q \<noteq> rb_write_pos q" using empty that by simp
    then have "?h \<noteq> ?t" by (simp add: word_unat_eq_iff)
    from ring_pop [OF ht(1,2) this, of ?get] have "x = rb_buffer q ! ?h" "rb_content ?q = xs"
      using that by (simp_all add: rb_content_def cap next_h)
    moreover have "rb_wf cap ?q"
      using ht cap ring_next(2) [OF ht(1)] by (simp add: rb_wf_def word_less_nat_alt next_h)
    ultimately show ?thesis using no cap by (intro exI [of _ ?q]) (simp add: try_pop_def Let_def)
  qed
qed

subsection \<open>Properties\<close>

text \<open>
  C25: A circular queue is a queue. In any sequence of operations on a new queue whose capacity is a power of two, the
  values taken, followed by the values left in it, are the values accepted, in order; and it never holds more than one
  less than its capacity.
\<close>

theorem circular_queue_fifo:
  "case queue_run (cq_push (cq_capacity n)) (cq_pop (cq_capacity n)) ops (cq_new buffer0) of (ins, outs, q) \<Rightarrow>
    ins = outs @ cq_content (cq_capacity n) q \<and> length (cq_content (cq_capacity n) q) \<le> unat (cq_capacity n) - 1"
proof -
  have pos: "0 < cq_capacity n" by (rule cq_capacity_ok)
  then have "cq_wf (cq_capacity n) (cq_new buffer0)" by (simp add: cq_wf_def cq_new_def)
  moreover have "cq_content (cq_capacity n) (cq_new buffer0) = []"
    using pos by (simp add: cq_content_def cq_new_def ring_empty word_less_nat_alt)
  ultimately show ?thesis
    using circular_queue.run_fifo [of n "cq_new buffer0" ops] circular_queue.bound [of n] by (auto split: prod.split)
qed

text \<open>
  So is the ring buffer of \<open>main.cpp\<close>, for every capacity but 0 (for which the code divides by zero).
\<close>

theorem ring_buffer_fifo:
  assumes "0 < n_slots"
  shows "case queue_run try_push try_pop ops (rb_new n_slots) of (ins, outs, q) \<Rightarrow>
    ins = outs @ rb_content q \<and> length (rb_content q) \<le> unat n_slots - 1"
proof -
  have "rb_wf n_slots (rb_new n_slots)" using assms by (simp add: rb_wf_def rb_new_def)
  moreover have "rb_content (rb_new n_slots) = []"
    using assms by (simp add: rb_content_def rb_new_def ring_empty word_less_nat_alt)
  ultimately show ?thesis
    using ring_buffer.run_fifo [of n_slots "rb_new n_slots" ops] ring_buffer.bound [of n_slots] by (auto split: prod.split)
qed

theorem ring_buffer_fifo_witness:
  "case queue_run try_push try_pop [Push 5, Push 6, Push 7, Pop, Push 8, Pop] (rb_new 3) of (ins, outs, q) \<Rightarrow>
    ins = [5, 6, 8] \<and> outs = [5, 6] \<and> ins = outs @ rb_content q"
  using ring_buffer_fifo [of 3 "[Push 5, Push 6, Push 7, Pop, Push 8, Pop]"]
  by (simp add: rb_new_def try_push_def try_pop_def Let_def numeral_3_eq_3)

end
