(* ===== verification/Segment_Hash.thy ===== *)
theory Segment_Hash
  imports Prelude
begin

text \<open>
  \<open>MemSegmentHashTable\<close> of \<open>mem_segment.hpp\<close>: a table from keys to positions that is emptied in constant time by
  moving to a new generation. The high bits of an entry are the generation that wrote it, the low \<open>hash_bits\<close> bits
  the position.
\<close>

unbundle bit_operations_syntax

subsection \<open>The interface\<close>

locale resettable_map =
  fixes get :: "'k \<Rightarrow> 'h \<Rightarrow> 'v option res" and set_key :: "'k \<Rightarrow> 'v \<Rightarrow> 'h \<Rightarrow> 'h res" and reset :: "'h \<Rightarrow> 'h"
    and wf :: "'h \<Rightarrow> bool" and key_ok :: "'h \<Rightarrow> 'k \<Rightarrow> bool" and val_ok :: "'h \<Rightarrow> 'v \<Rightarrow> bool"
  assumes get_ok: "wf h \<Longrightarrow> key_ok h k \<Longrightarrow> \<exists>r. get k h = Inr r"
    and set_ok: "wf h \<Longrightarrow> key_ok h k \<Longrightarrow> val_ok h v \<Longrightarrow>
      \<exists>h'. set_key k v h = Inr h' \<and> wf h' \<and> key_ok h' = key_ok h \<and> val_ok h' = val_ok h \<and>
        (\<forall>k'. key_ok h k' \<longrightarrow> get k' h' = (if k' = k then Inr (Some v) else get k' h))"
    and reset_ok: "wf h \<Longrightarrow> wf (reset h) \<and> key_ok (reset h) = key_ok h \<and> val_ok (reset h) = val_ok h \<and>
      (\<forall>k. key_ok h k \<longrightarrow> get k (reset h) = Inr None)"
begin

lemma sets_get:
  assumes "wf h" "\<forall>(k, v)\<in>set kvs. key_ok h k \<and> val_ok h v"
  shows "\<exists>h'. foldE (\<lambda>(k, v). set_key k v) kvs h = Inr h' \<and> wf h' \<and> key_ok h' = key_ok h \<and>
    (\<forall>k. key_ok h k \<longrightarrow> get k h' = (case map_of (rev kvs) k of None \<Rightarrow> get k h | Some v \<Rightarrow> Inr (Some v)))"
  using assms
proof (induction kvs arbitrary: h)
  case (Cons kv kvs)
  obtain k v where kv: "kv = (k, v)" by fastforce
  from set_ok [OF Cons.prems(1), of k v] Cons.prems(2)
  obtain h1 where 1: "set_key k v h = Inr h1" "wf h1" "key_ok h1 = key_ok h" "val_ok h1 = val_ok h"
    "\<forall>k'. key_ok h k' \<longrightarrow> get k' h1 = (if k' = k then Inr (Some v) else get k' h)" by (auto simp: kv)
  have "\<forall>(k, v)\<in>set kvs. key_ok h1 k \<and> val_ok h1 v" using Cons.prems(2) 1(3,4) by auto
  from Cons.IH [OF 1(2) this] obtain h2 where "foldE (\<lambda>(k, v). set_key k v) kvs h1 = Inr h2" "wf h2" "key_ok h2 = key_ok h1"
    "\<forall>k. key_ok h1 k \<longrightarrow> get k h2 = (case map_of (rev kvs) k of None \<Rightarrow> get k h1 | Some v \<Rightarrow> Inr (Some v))" by blast
  then show ?case
    using 1 by (intro exI [of _ h2]) (auto simp: kv map_add_def split: option.splits)
qed simp

text \<open>After a reset only what was set since then is found.\<close>

lemma reset_sets_get:
  assumes "wf h" "\<forall>(k, v)\<in>set kvs. key_ok h k \<and> val_ok h v" "key_ok h k"
  shows "\<exists>h'. foldE (\<lambda>(k, v). set_key k v) kvs (reset h) = Inr h' \<and> wf h' \<and> get k h' = Inr (map_of (rev kvs) k)"
proof -
  note r = reset_ok [OF assms(1)]
  then obtain h' where "foldE (\<lambda>(k, v). set_key k v) kvs (reset h) = Inr h'" "wf h'"
    "get k h' = (case map_of (rev kvs) k of None \<Rightarrow> get k (reset h) | Some v \<Rightarrow> Inr (Some v))"
    using sets_get [of "reset h" kvs] assms(2,3) by auto
  then show ?thesis using r assms(3) by (auto split: option.splits)
qed

end

subsection \<open>The table\<close>

record MemSegmentHashTable =
  hash_id :: u32
  hash_table :: "u32 \<Rightarrow> u32"
  hash_count :: u32
  hash_bits :: nat
  hash_mask :: u32

text \<open>\<open>while (key_size > 1) { key_size >>= 1; ++bits; }\<close>\<close>

function get_hash_bits :: "u32 \<Rightarrow> nat" where
  "get_hash_bits key_size = (if key_size > 1 then Suc (get_hash_bits (drop_bit 1 key_size)) else 0)"
  by auto

termination
proof (relation "measure unat")
  fix k :: u32
  assume "k > 1"
  then have "unat k > 1" by (simp add: word_less_nat_alt)
  then show "(drop_bit 1 k, k) \<in> measure unat" by (simp add: unat_drop_bit_u32)
qed simp

definition full_reset :: "MemSegmentHashTable \<Rightarrow> MemSegmentHashTable" where
  "full_reset h = h\<lparr>hash_id := push_bit (hash_bits h) 1, hash_table := (\<lambda>_. 0)\<rparr>"

definition hash_new :: "u32 \<Rightarrow> MemSegmentHashTable" where
  "hash_new key_size =
    (let bits = get_hash_bits key_size in
     full_reset \<lparr>hash_id = 0, hash_table = (\<lambda>_. 0), hash_count = key_size, hash_bits = bits,
       hash_mask = push_bit bits 1 - 1\<rparr>)"

definition get_new_hash_id :: "MemSegmentHashTable \<Rightarrow> (u32 \<times> MemSegmentHashTable) res" where
  "get_new_hash_id h =
    (if hash_id h \<ge> hash_count h then Inl Hash_id_out_of_bounds
     else Inr (hash_id h, h\<lparr>hash_id := hash_id h + 1\<rparr>))"

definition hash_set :: "u32 \<Rightarrow> u32 \<Rightarrow> MemSegmentHashTable \<Rightarrow> MemSegmentHashTable res" where
  "hash_set key pos h =
    (if key < hash_count h then Inr (h\<lparr>hash_table := (hash_table h)(key := hash_id h OR pos)\<rparr>) else Inl Out_of_bounds)"

definition KEY_NOT_FOUND :: u32 where
  "KEY_NOT_FOUND = 0xFFFFFFFF"

definition hash_get :: "u32 \<Rightarrow> MemSegmentHashTable \<Rightarrow> u32 res" where
  "hash_get key h =
    (if key < hash_count h then
       let val = hash_table h key in
       if val < hash_id h then Inr KEY_NOT_FOUND else Inr (val AND hash_mask h)
     else Inl Out_of_bounds)"

definition fast_reset :: "MemSegmentHashTable \<Rightarrow> MemSegmentHashTable" where
  "fast_reset h =
    (let h = h\<lparr>hash_id := hash_id h + push_bit (hash_bits h) 1\<rparr> in
     if hash_id h = 0 then full_reset h else h)"

subsection \<open>The invariant\<close>

text \<open>
  The generation is a multiple of \<open>2 ^ hash_bits\<close>, not 0, and no entry is of a later one. A position fits if it has
  at most \<open>hash_bits\<close> bits.
\<close>

definition hash_wf :: "MemSegmentHashTable \<Rightarrow> bool" where
  "hash_wf h \<longleftrightarrow> hash_bits h < 32 \<and> hash_mask h = mask (hash_bits h) \<and> hash_id h \<noteq> 0 \<and>
    (\<exists>g. unat (hash_id h) = g * 2 ^ hash_bits h) \<and>
    (\<forall>k. unat (hash_table h k) < unat (hash_id h) + 2 ^ hash_bits h)"

definition hash_find :: "u32 \<Rightarrow> MemSegmentHashTable \<Rightarrow> u32 option res" where
  "hash_find k h = bindE (hash_get k h) (\<lambda>p. Inr (if p = KEY_NOT_FOUND then None else Some p))"

definition pos_ok :: "MemSegmentHashTable \<Rightarrow> u32 \<Rightarrow> bool" where
  "pos_ok h p \<longleftrightarrow> unat p < 2 ^ hash_bits h"

lemma get_hash_bits_log: "0 < unat k \<Longrightarrow> 2 ^ get_hash_bits k \<le> unat k \<and> unat k < 2 ^ Suc (get_hash_bits k)"
proof (induction k rule: get_hash_bits.induct)
  case (1 k)
  show ?case
  proof (cases "k > 1")
    case True
    then have "unat k > 1" by (simp add: word_less_nat_alt)
    then have half: "0 < unat (drop_bit 1 k)" "unat (drop_bit 1 k) = unat k div 2" by (simp_all add: unat_drop_bit_u32)
    then show ?thesis
      using 1(1) [OF True half(1)] True by (subst (1 2) get_hash_bits.simps) (simp del: get_hash_bits.simps, linarith)
  next
    case False
    then have "unat k = 1" using 1(2) by (simp add: word_less_nat_alt)
    then show ?thesis using False by simp
  qed
qed

declare get_hash_bits.simps [simp del]

lemma pow_bits: "b < 32 \<Longrightarrow> unat (push_bit b 1 :: u32) = 2 ^ b"
proof -
  assume "b < 32"
  then have "(2 :: nat) ^ b < 2 ^ 32" by (rule power_strict_increasing) simp
  then have "unat (of_nat (2 ^ b) :: u32) = 2 ^ b" by (intro unat_of_nat_u32) simp
  then show ?thesis by (simp add: push_bit_eq_mult)
qed

lemma hash_new_bits:
  assumes "key_size \<noteq> 0"
  shows "get_hash_bits key_size < 32"
proof (rule ccontr)
  assume "\<not> get_hash_bits key_size < 32"
  then have "(2 :: nat) ^ 32 \<le> 2 ^ get_hash_bits key_size" by (intro power_increasing) simp_all
  moreover have "0 < unat key_size" using assms by (simp add: unat_gt_0)
  ultimately show False using get_hash_bits_log [of key_size] unat_u32_bound [of key_size] by simp
qed

lemma hash_wf_full_reset:
  assumes "hash_bits h < 32" "hash_mask h = mask (hash_bits h)"
  shows "hash_wf (full_reset h)"
  using assms pow_bits [OF assms(1)] unfolding hash_wf_def full_reset_def
  by (auto simp: unat_eq_0 [symmetric] intro!: exI [of _ 1])

lemma hash_wf_new: "key_size \<noteq> 0 \<Longrightarrow> hash_wf (hash_new key_size)"
  unfolding hash_new_def Let_def
  by (intro hash_wf_full_reset) (simp_all add: hash_new_bits mask_eq_exp_minus_1 push_bit_eq_mult)


lemma generation_or:
  fixes a p :: u32
  assumes "unat a = g * 2 ^ b" "unat p < 2 ^ b"
  shows "unat (a OR p) = unat a + unat p" and "(a OR p) AND mask b = p"
proof -
  have p: "p = take_bit b p"
    unfolding word_unat_eq_iff unsigned_take_bit_eq using assms(2) by (simp add: take_bit_nat_eq_self)
  have a: "take_bit b a = 0"
    unfolding word_unat_eq_iff unsigned_take_bit_eq assms(1) by (simp add: take_bit_eq_mod [of b "g * 2 ^ b"])
  have bits: "\<not> bit a n" if "n < b" for n
  proof -
    have "bit (take_bit b a) n = bit a n" using that by (simp add: bit_take_bit_iff)
    then show ?thesis by (simp add: a)
  qed
  have bits_p: "\<not> bit p n" if "\<not> n < b" for n
    using that by (subst p) (simp add: bit_take_bit_iff)
  have "a AND p = 0" using bits bits_p by (intro bit_word_eqI) (auto simp: bit_and_iff)
  have "int (unat (a OR p)) = int (unat a) OR int (unat p)" by (simp only: unsigned_or_eq of_nat_or_eq)
  also have "\<dots> = int (unat a) + int (unat p) - int (unat (a AND p))"
    using plus_and_or [of "int (unat a)" "int (unat p)"] by (simp add: unsigned_and_eq of_nat_and_eq)
  finally have "int (unat (a OR p)) = int (unat a + unat p)" using \<open>a AND p = 0\<close> by simp
  then show "unat (a OR p) = unat a + unat p" by (simp only: of_nat_eq_iff)
  show "(a OR p) AND mask b = p"
    using bits bits_p by (intro bit_word_eqI) (auto simp: bit_and_iff bit_or_iff bit_mask_iff)
qed

lemma hash_found:
  assumes "hash_wf h" "k < hash_count h"
  shows "hash_find k h = Inr (if hash_table h k < hash_id h then None else Some (hash_table h k AND hash_mask h))"
proof -
  have b: "hash_bits h < 32" "hash_mask h = mask (hash_bits h)" using assms(1) by (simp_all add: hash_wf_def)
  have "(2 :: nat) ^ hash_bits h \<le> 2 ^ 31" using b(1) by (intro power_increasing) simp_all
  then have le: "(2 :: nat) ^ hash_bits h \<le> 2147483648" by simp
  have small: "unat (x AND mask (hash_bits h)) < 4294967295" for x :: u32
  proof -
    have "unat (x AND mask (hash_bits h)) < 2 ^ hash_bits h" unfolding unat_and_mask_u32 by simp
    then show ?thesis using le by linarith
  qed
  have "x AND mask (hash_bits h) \<noteq> KEY_NOT_FOUND" for x :: u32
    using small [of x] by (auto simp: KEY_NOT_FOUND_def)
  then show ?thesis using assms(2) b by (simp add: hash_find_def hash_get_def Let_def)
qed


lemma fast_reset_same: "hash_count (fast_reset h) = hash_count h" "hash_bits (fast_reset h) = hash_bits h"
  by (simp_all add: fast_reset_def full_reset_def Let_def)

interpretation hash_map: resettable_map hash_find hash_set fast_reset hash_wf "\<lambda>h k. k < hash_count h" pos_ok
proof unfold_locales
  fix h :: MemSegmentHashTable and k v
  assume wf: "hash_wf h"
  note w = wf [unfolded hash_wf_def]
  show "\<exists>r. hash_find k h = Inr r" if "k < hash_count h" using hash_found [OF wf that] by simp
  show "\<exists>h'. hash_set k v h = Inr h' \<and> hash_wf h' \<and> (\<lambda>k. k < hash_count h') = (\<lambda>k. k < hash_count h) \<and> pos_ok h' = pos_ok h \<and>
      (\<forall>k'. k' < hash_count h \<longrightarrow> hash_find k' h' = (if k' = k then Inr (Some v) else hash_find k' h))"
    if k: "k < hash_count h" and v: "pos_ok h v"
  proof -
    let ?h = "h\<lparr>hash_table := (hash_table h)(k := hash_id h OR v)\<rparr>"
    obtain g where g: "unat (hash_id h) = g * 2 ^ hash_bits h" using w by blast
    have or: "unat (hash_id h OR v) = unat (hash_id h) + unat v" "(hash_id h OR v) AND hash_mask h = v"
      using generation_or [OF g, of v] v w by (simp_all add: pos_ok_def)
    have wf': "hash_wf ?h" using w or(1) v by (simp add: hash_wf_def pos_ok_def)
    have "\<not> hash_id h OR v < hash_id h" using or(1) by (simp add: word_less_nat_alt)
    then have "hash_find k' ?h = (if k' = k then Inr (Some v) else hash_find k' h)" if "k' < hash_count h" for k'
      using hash_found [OF wf', of k'] hash_found [OF wf that] that or(2) by simp
    then show ?thesis
      using k wf' by (intro exI [of _ ?h]) (simp add: hash_set_def pos_ok_def fun_eq_iff)
  qed
  show "hash_wf (fast_reset h) \<and> (\<lambda>k. k < hash_count (fast_reset h)) = (\<lambda>k. k < hash_count h) \<and>
      pos_ok (fast_reset h) = pos_ok h \<and> (\<forall>k. k < hash_count h \<longrightarrow> hash_find k (fast_reset h) = Inr None)"
  proof -
    let ?b = "hash_bits h" and ?id = "hash_id h + push_bit (hash_bits h) 1"
    have b: "unat (push_bit ?b 1 :: u32) = 2 ^ ?b" using w by (intro pow_bits) simp
    note same = fast_reset_same [of h]
    have "hash_wf (fast_reset h) \<and> (\<forall>k. hash_table (fast_reset h) k < hash_id (fast_reset h))"
    proof (cases "?id = 0")
      case True
      then have reset: "fast_reset h = full_reset (h\<lparr>hash_id := ?id\<rparr>)" by (simp add: fast_reset_def Let_def)
      show ?thesis
        unfolding reset using hash_wf_full_reset [of "h\<lparr>hash_id := ?id\<rparr>"] w b
        by (simp add: full_reset_def word_less_nat_alt)
    next
      case False
      then have reset: "fast_reset h = h\<lparr>hash_id := ?id\<rparr>" by (simp add: fast_reset_def Let_def)
      obtain g where g: "unat (hash_id h) = g * 2 ^ ?b" using w by blast
      have "unat (hash_id h) + 2 ^ ?b < 4294967296"
      proof (rule ccontr)
        assume "\<not> unat (hash_id h) + 2 ^ ?b < 4294967296"
        moreover have top: "(2 :: nat) ^ 32 = 2 ^ (32 - ?b) * 2 ^ ?b" using w by (simp flip: power_add)
        ultimately have "2 ^ (32 - ?b) * 2 ^ ?b \<le> Suc g * 2 ^ ?b" "g * 2 ^ ?b < 2 ^ (32 - ?b) * 2 ^ ?b"
          using g unat_u32_bound [of "hash_id h"] unfolding top [symmetric] by simp_all
        then have "2 ^ (32 - ?b) \<le> Suc g" "g < 2 ^ (32 - ?b)" by (simp_all only: mult_le_cancel2 mult_less_cancel2)
        then have "Suc g = 2 ^ (32 - ?b)" by simp
        then have "unat (hash_id h) + 2 ^ ?b = 2 ^ 32" using g \<open>2 ^ 32 = 2 ^ (32 - ?b) * 2 ^ ?b\<close> by (metis add.commute mult_Suc)
        then have "unat ?id = 0" using b by (simp add: unat_word_ariths)
        then show False using False by (simp add: unat_eq_0)
      qed
      then have id: "unat ?id = unat (hash_id h) + 2 ^ ?b" using b by (simp add: unat_plus_u32)
      have lt: "hash_table h k < ?id" for k using w id by (simp add: word_less_nat_alt)
      moreover have "hash_wf (h\<lparr>hash_id := ?id\<rparr>)"
      proof -
        have "\<forall>k. unat (hash_table h k) < unat ?id + 2 ^ ?b" using w unfolding id by (metis trans_less_add1)
        moreover have "unat ?id = Suc g * 2 ^ ?b" using g id by simp
        ultimately show ?thesis unfolding hash_wf_def using w False by (auto intro!: exI [of _ "Suc g"])
      qed
      ultimately show ?thesis unfolding reset by simp
    qed
    then show ?thesis
      using same hash_found [of "fast_reset h"] by (auto simp: pos_ok_def fun_eq_iff)
  qed
qed


subsection \<open>Properties\<close>

text \<open>
  C24: The hash table is a map with a constant-time reset. From any state of a table, \<open>fast_reset\<close> followed by any
  insertions of positions that fit leaves exactly those: \<open>get\<close> of a key finds the position inserted last, and
  \<open>KEY_NOT_FOUND\<close> for a key not inserted since the reset, also when the generation wraps around.
\<close>

theorem hash_table_is_map:
  assumes "hash_wf h" "\<forall>(k, p)\<in>set kps. k < hash_count h \<and> unat p < 2 ^ hash_bits h" "k < hash_count h"
  shows "\<exists>h'. foldE (\<lambda>(k, p). hash_set k p) kps (fast_reset h) = Inr h' \<and> hash_wf h' \<and>
    hash_get k h' = Inr (case map_of (rev kps) k of None \<Rightarrow> KEY_NOT_FOUND | Some p \<Rightarrow> p)"
proof -
  obtain h' where h': "foldE (\<lambda>(k, p). hash_set k p) kps (fast_reset h) = Inr h'" "hash_wf h'"
    "hash_find k h' = Inr (map_of (rev kps) k)"
    using hash_map.reset_sets_get [OF assms(1), of kps k] assms(2,3) by (auto simp: pos_ok_def)
  then show ?thesis
    by (intro exI [of _ h']) (auto simp: hash_find_def split: if_splits option.splits)
qed

theorem hash_table_is_map_witness:
  "\<exists>h'. foldE (\<lambda>(k, p). hash_set k p) [(3, 5), (4, 6), (3, 7)] (fast_reset (hash_new 8192)) = Inr h' \<and>
    hash_get 3 h' = Inr 7"
proof -
  have bits: "get_hash_bits 8192 = 13" by (simp add: get_hash_bits.simps)
  then have "hash_bits (hash_new 8192) = 13" "hash_count (hash_new 8192) = 8192"
    by (simp_all add: hash_new_def full_reset_def Let_def)
  then show ?thesis
    using hash_table_is_map [OF hash_wf_new [of 8192], of "[(3, 5), (4, 6), (3, 7)]" 3] by auto
qed

text \<open>
  \<open>get_new_hash_id\<close> cannot be used on a table whose number of keys is a power of two, such as the 8192 of the
  planners: it throws on a new table, and after any number of resets.
\<close>

theorem new_hash_id_throws:
  assumes "b < 32"
  shows "get_new_hash_id ((fast_reset ^^ n) (hash_new (push_bit b 1))) = Inl Hash_id_out_of_bounds"
proof -
  let ?size = "push_bit b 1 :: u32"
  have size: "unat ?size = 2 ^ b" by (rule pow_bits [OF assms])
  then have nz: "?size \<noteq> 0" by (auto simp: unat_eq_0 [symmetric])
  have log: "2 ^ get_hash_bits ?size \<le> (2 :: nat) ^ b" "(2 :: nat) ^ b < 2 ^ Suc (get_hash_bits ?size)"
    using get_hash_bits_log [of ?size] size by simp_all
  then have bits: "get_hash_bits ?size = b" 
    using power_less_imp_less_exp [OF _ log(2)] by simp
  have "hash_wf ((fast_reset ^^ n) (hash_new ?size)) \<and> hash_bits ((fast_reset ^^ n) (hash_new ?size)) = b \<and>
      hash_count ((fast_reset ^^ n) (hash_new ?size)) = ?size"
  proof (induction n)
    case 0
    then show ?case using hash_wf_new [OF nz] bits by (simp add: hash_new_def full_reset_def Let_def)
  next
    case (Suc n)
    then show ?case
      using hash_map.reset_ok [of "(fast_reset ^^ n) (hash_new ?size)"] by (simp add: fast_reset_same)
  qed
  then obtain g where g: "unat (hash_id ((fast_reset ^^ n) (hash_new ?size))) = g * 2 ^ b"
    "hash_id ((fast_reset ^^ n) (hash_new ?size)) \<noteq> 0" "hash_count ((fast_reset ^^ n) (hash_new ?size)) = ?size"
    unfolding hash_wf_def by metis
  then have "0 < g" by (auto simp: unat_eq_0 [symmetric] intro: gr0I)
  then have "1 * 2 ^ b \<le> g * (2 :: nat) ^ b" by (intro mult_le_mono1) simp
  then show ?thesis using g size by (simp add: get_new_hash_id_def word_le_nat_alt)
qed

theorem new_hash_id_throws_witness:
  "get_new_hash_id ((fast_reset ^^ 3) (hash_new (push_bit 13 1))) = Inl Hash_id_out_of_bounds"
  using new_hash_id_throws [of 13 3] by simp

end
