(* ===== verification/Mem_File.thy ===== *)
theory Mem_File
  imports Mem_Config
begin

text \<open>
  The files of the test driver: the trace files of the emulator (\<open>load_from_file\<close> of \<open>tools.cpp\<close>), their
  compact form (\<open>compact_and_save\<close>, \<open>convert_to_compact\<close>) and the reader of the compact form
  (\<open>load_from_compact_file\<close> of \<open>tools.hpp\<close>). What the operating system answers is an argument: whether a file
  can be opened, its size, the bytes \<open>read\<close> delivers and the bytes \<open>write\<close> accepts. Files may have any size, and the
  readers compute with it in \<open>int32_t\<close>, as the code does; a write is asked for no more than an \<open>int\<close> holds. Integers are
  stored with the low byte first.
\<close>

subsection \<open>Bytes\<close>

fun le_word :: "u8 list \<Rightarrow> 'a :: len word" where
  "le_word [] = 0"
| "le_word (b # bs) = ucast b OR push_bit 8 (le_word bs)"

definition le_bytes :: "nat \<Rightarrow> 'a :: len word \<Rightarrow> u8 list" where
  "le_bytes n w = map (\<lambda>k. ucast (drop_bit (8 * k) w)) [0..<n]"

definition pieces :: "nat \<Rightarrow> 'a list \<Rightarrow> 'a list list" where
  "pieces n xs = map (\<lambda>i. take n (drop (n * i) xs)) [0..<length xs div n]"

subsection \<open>Reading\<close>

text \<open>
  \<open>Failed\<close> is any of the errors after which the readers return -1. Otherwise \<open>Contents st_size bytes fresh\<close> holds
  the size \<open>fstat\<close> reports, the bytes of the file \<open>read\<close> has for it, and what the memory held before, from the address
  that \<open>malloc\<close> returns on: a short read only prints a warning.
\<close>

datatype file_read = Failed | Contents nat "u8 list" "u8 list"

definition received :: "nat \<Rightarrow> u8 list \<Rightarrow> u8 list \<Rightarrow> u8 list" where
  "received n bytes fresh = take n bytes @ drop (length (take n bytes)) fresh"

text \<open>A value stored in an \<open>int32_t\<close> or an \<open>int\<close>.\<close>

definition int32 :: "int \<Rightarrow> int" where
  "int32 k = sint (word_of_int k :: u32)"

text \<open>A record of the trace: seven words of 64 bits, \<open>MEM_BUS_DATA_SIZE\<close>.\<close>

record BusDataChunk =
  bdc_data :: "u64 list"

definition MEM_BUS_DATA_SIZE :: nat where "MEM_BUS_DATA_SIZE = 7"

text \<open>
  \<open>malloc\<close> has no memory for a negative \<open>size\<close>, which as a \<open>size_t\<close> is huge, and the callers take a negative number of
  records for a failure: both are \<open>None\<close>. When \<open>size\<close> wraps to a small number the callers go past the buffer, into what the
  memory held there.
\<close>

definition load_from_file :: "file_read \<Rightarrow> BusDataChunk list option" where
  "load_from_file file =
    (case file of
       Failed \<Rightarrow> None
     | Contents st_size bytes fresh \<Rightarrow>
         let chunk_size = int32 (int (st_size div (8 * MEM_BUS_DATA_SIZE)));
             size = int32 (int (8 * MEM_BUS_DATA_SIZE) * chunk_size) in
         if size < 0 \<or> chunk_size < 0 then None
         else Some (map (\<lambda>p. \<lparr>bdc_data = map le_word (pieces 8 p)\<rparr>)
           (pieces (8 * MEM_BUS_DATA_SIZE)
             (take (8 * MEM_BUS_DATA_SIZE * nat chunk_size) (received (nat size) bytes fresh)))))"

definition load_from_compact_file :: "file_read \<Rightarrow> MemChunk option" where
  "load_from_compact_file file =
    (case file of
       Failed \<Rightarrow> None
     | Contents st_size bytes fresh \<Rightarrow>
         let chunk_size = int32 (int (st_size div 8)); size = int32 (8 * chunk_size) in
         if size < 0 \<or> chunk_size < 0 then None
         else Some (map (\<lambda>p. \<lparr>bus_addr = le_word (take 4 p), bus_flags = le_word (drop 4 p)\<rparr>)
           (pieces 8 (take (8 * nat chunk_size) (received (nat size) bytes fresh)))))"

subsection \<open>Compacting\<close>

text \<open>
  A write: the file cannot be opened, the write fails, or it accepts that many bytes; the code does not compare. The byte
  count it is asked for is an \<open>int\<close>, which the theorems keep from wrapping (\<open>written\<close>).
\<close>

datatype file_write = Open_fails | Write_fails | Written nat

type_synonym directory = "nat \<Rightarrow> u8 list option"

definition compact_op :: "BusDataChunk \<Rightarrow> MemCountersBusData" where
  "compact_op b =
    \<lparr>bus_addr = ucast (bdc_data b ! 1),
     bus_flags = ucast (bdc_data b ! 3 + push_bit 16 (bdc_data b ! 0 - 1))\<rparr>"

definition op_file_bytes :: "MemCountersBusData \<Rightarrow> u8 list" where
  "op_file_bytes d = le_bytes 4 (bus_addr d) @ le_bytes 4 (bus_flags d)"

definition compact_and_save ::
  "file_write \<Rightarrow> nat \<Rightarrow> BusDataChunk list \<Rightarrow> directory \<Rightarrow> MemChunk option \<times> directory" where
  "compact_and_save w chunk chunk_data dir =
    (let out_data = map compact_op chunk_data in
     case w of
       Open_fails \<Rightarrow> (None, dir)
     | Write_fails \<Rightarrow> (None, dir(chunk \<mapsto> []))
     | Written n \<Rightarrow> (Some out_data, dir(chunk \<mapsto> take n (concat (map op_file_bytes out_data)))))"

function convert_loop :: "(nat \<Rightarrow> file_read) \<Rightarrow> (nat \<Rightarrow> file_write) \<Rightarrow> nat \<Rightarrow> nat \<Rightarrow> directory \<Rightarrow> nat \<times> nat \<times> directory" where
  "convert_loop traces ws chunks tot_chunks dir =
    (if chunks < unat MAX_CHUNKS then
       case load_from_file (traces chunks) of
         None \<Rightarrow> (chunks, tot_chunks, dir)
       | Some chunk_data \<Rightarrow>
           convert_loop traces ws (chunks + 1) (tot_chunks + length chunk_data)
             (snd (compact_and_save (ws chunks) chunks chunk_data dir))
     else (chunks, tot_chunks, dir))"
  by pat_completeness auto

termination by (relation "measure (\<lambda>(traces, ws, chunks, tot_chunks, dir). unat MAX_CHUNKS - chunks)") auto

declare convert_loop.simps [simp del]

definition convert_to_compact :: "(nat \<Rightarrow> file_read) \<Rightarrow> (nat \<Rightarrow> file_write) \<Rightarrow> directory \<Rightarrow> nat \<times> nat \<times> directory" where
  "convert_to_compact traces ws dir = convert_loop traces ws 0 0 dir"

subsection \<open>Bytes back to words\<close>

lemma length_le_bytes [simp]: "length (le_bytes n w) = n"
  by (simp add: le_bytes_def)

lemma bit_le_word:
  "bit (le_word bs :: 'a :: len word) j \<longleftrightarrow> j < LENGTH('a) \<and> j div 8 < length bs \<and> bit (bs ! (j div 8)) (j mod 8)"
proof (induction bs arbitrary: j)
  case (Cons b bs)
  show ?case
  proof (cases "j < 8")
    case True
    then show ?thesis by (auto simp: bit_simps)
  next
    case False
    then have "j div 8 = Suc ((j - 8) div 8)" "j mod 8 = (j - 8) mod 8"
      by (simp_all add: le_div_geq le_mod_geq)
    moreover have "\<not> bit b j" using False by (auto dest: bit_imp_le_length)
    ultimately show ?thesis using False by (auto simp: bit_simps Cons.IH)
  qed
qed simp

lemma le_word_le_bytes:
  assumes "LENGTH('a :: len) \<le> 8 * n"
  shows "le_word (le_bytes n w) = (w :: 'a word)"
proof (rule bit_word_eqI)
  fix j assume j: "j < LENGTH('a)"
  then have "j div 8 < n" using assms by (simp add: less_mult_imp_div_less)
  moreover have "j div 8 * 8 + j mod 8 = j" by simp
  ultimately show "bit (le_word (le_bytes n w) :: 'a word) j \<longleftrightarrow> bit w j"
    using j by (simp add: bit_le_word le_bytes_def bit_simps mult.commute)
qed

lemma pieces_concat:
  assumes "0 < n" "\<forall>x\<in>set xs. length (f x) = n"
  shows "pieces n (concat (map f xs)) = map f xs"
  using assms(2)
proof (induction xs)
  case (Cons x xs)
  let ?r = "concat (map f xs)"
  have len: "length (concat (map f (x # xs))) div n = Suc (length ?r div n)"
    using Cons.prems assms(1) by (simp add: div_add_self1 [of n] del: length_concat)
  have "pieces n (f x @ ?r) = f x # pieces n ?r"
    using Cons.prems len unfolding pieces_def
    by (simp add: upt_conv_Cons map_Suc_upt [symmetric] comp_def del: upt_Suc)
  then show ?case using Cons by simp
qed (simp add: pieces_def)

lemma length_op_file_bytes [simp]: "length (op_file_bytes d) = 8"
  by (simp add: op_file_bytes_def)

lemma op_from_bytes:
  "\<lparr>bus_addr = le_word (take 4 (op_file_bytes d)), bus_flags = le_word (drop 4 (op_file_bytes d))\<rparr> = d"
  by (simp add: op_file_bytes_def le_word_le_bytes)

lemma length_file_bytes: "length (concat (map op_file_bytes ds)) = 8 * length ds"
  by (induction ds) simp_all

lemma int32_small:
  assumes "0 \<le> k" "k < 2147483648"
  shows "int32 k = k"
  using assms by (simp add: int32_def signed_of_int signed_take_bit_int_eq_self)

text \<open>A compact file that was written and is read completely.\<close>

lemma load_complete:
  assumes "8 * length ds < 2147483648"
  shows "load_from_compact_file (Contents (8 * length ds) (concat (map op_file_bytes ds)) fresh) = Some ds"
proof -
  have "take (8 * length ds) (received (8 * length ds) (concat (map op_file_bytes ds)) fresh) = concat (map op_file_bytes ds)"
    by (simp add: received_def length_file_bytes)
  then show ?thesis
    using assms by (simp add: load_from_compact_file_def int32_small nat_mult_distrib length_file_bytes pieces_concat comp_def op_from_bytes)
qed

subsection \<open>The files that are there\<close>

text \<open>What a loop reads that opens the files 0, 1, ... below \<open>m\<close> and stops at the first it cannot read.\<close>

definition available_from :: "nat \<Rightarrow> nat \<Rightarrow> (nat \<Rightarrow> 'a option) \<Rightarrow> 'a list" where
  "available_from k m load = map the (takeWhile (\<lambda>x. x \<noteq> None) (map load [k..<m]))"

lemma available_from_simps:
  "available_from k m load =
    (if k < m then case load k of None \<Rightarrow> [] | Some x \<Rightarrow> x # available_from (Suc k) m load else [])"
  by (auto simp: available_from_def upt_conv_Cons split: option.split)

lemma available_nth:
  "j < length (available_from k m load) \<Longrightarrow> k + j < m \<and> load (k + j) = Some (available_from k m load ! j)"
proof (induction j arbitrary: k)
  case 0
  then show ?case by (subst (asm) available_from_simps, subst available_from_simps) (auto split: if_splits option.splits)
next
  case (Suc j)
  then obtain x where x: "k < m" "load k = Some x" "j < length (available_from (Suc k) m load)"
    by (subst (asm) (2) available_from_simps) (auto split: if_splits option.splits)
  then show ?case using Suc.IH [OF x(3)] by (subst available_from_simps) auto
qed

lemma available_length: "length (available_from 0 m load) \<le> m"
proof -
  have "length (available_from 0 m load) \<le> length (map load [0..<m])"
    unfolding available_from_def length_map [of the] by (rule length_takeWhile_le)
  then show ?thesis by simp
qed

lemma available_list:
  assumes "length xs \<le> m"
  shows "available_from 0 m (\<lambda>k. if k < length xs then Some (f (xs ! k)) else None) = map f xs"
proof -
  have "available_from k m (\<lambda>k. if k < length xs then Some (f (xs ! k)) else None) = map f (drop k xs)"
    if "k \<le> length xs" for k
    using that
  proof (induction "length xs - k" arbitrary: k)
    case 0
    then show ?case by (subst available_from_simps) simp
  next
    case (Suc n)
    then have "k < length xs" by simp
    then show ?case using Suc assms by (subst available_from_simps) (simp flip: Cons_nth_drop_Suc)
  qed
  then show ?thesis by simp
qed

text \<open>A complete write; it is asked for an \<open>int\<close>.\<close>

definition written :: "BusDataChunk list \<Rightarrow> file_write \<Rightarrow> bool" where
  "written ds w \<longleftrightarrow> (\<exists>n. w = Written n \<and> 8 * length ds \<le> n \<and> n < 2147483648)"

lemma convert_loop_saves:
  assumes "\<forall>j ds. load_from_file (traces j) = Some ds \<longrightarrow> written ds (ws j)"
  shows "convert_loop traces ws k tot dir =
    (let raw = available_from k (unat MAX_CHUNKS) (\<lambda>j. load_from_file (traces j)) in
     (k + length raw, tot + length (concat raw),
      \<lambda>j. if k \<le> j \<and> j < k + length raw then Some (concat (map op_file_bytes (map compact_op (raw ! (j - k))))) else dir j))"
  using assms
proof (induction traces ws k tot dir rule: convert_loop.induct)
  case (1 traces ws k tot dir)
  show ?case
  proof (cases "k < unat MAX_CHUNKS \<and> load_from_file (traces k) \<noteq> None")
    case False
    then have "available_from k (unat MAX_CHUNKS) (\<lambda>j. load_from_file (traces j)) = []"
      by (subst available_from_simps) auto
    then show ?thesis using False by (subst convert_loop.simps) (auto simp: Let_def fun_eq_iff)
  next
    case True
    then obtain ds where ds: "load_from_file (traces k) = Some ds" and k: "k < unat MAX_CHUNKS" by auto
    obtain n where n: "ws k = Written n" "8 * length ds \<le> n" using "1.prems" ds by (auto simp: written_def)
    let ?raw = "available_from (Suc k) (unat MAX_CHUNKS) (\<lambda>j. load_from_file (traces j))"
    have raw: "available_from k (unat MAX_CHUNKS) (\<lambda>j. load_from_file (traces j)) = ds # ?raw"
      using k ds by (subst available_from_simps) simp
    have saved: "snd (compact_and_save (ws k) k ds dir) = dir(k \<mapsto> concat (map op_file_bytes (map compact_op ds)))"
      using n by (simp add: compact_and_save_def Let_def length_file_bytes del: length_concat map_map)
    note IH = "1.IH" [OF k ds "1.prems", unfolded saved Let_def Suc_eq_plus1 [symmetric]]
    have "convert_loop traces ws k tot dir = convert_loop traces ws (Suc k) (tot + length ds)
        (dir(k \<mapsto> concat (map op_file_bytes (map compact_op ds))))"
      using k ds by (subst convert_loop.simps) (simp add: saved del: map_map config_values)
    then show ?thesis
      unfolding raw Let_def IH by (auto simp: fun_eq_iff nth_Cons' simp del: map_map)
  qed
qed

subsection \<open>Properties\<close>

text \<open>
  C30: Compacting and loading are inverse. If every write is complete, \<open>convert_to_compact\<close> goes through the trace
  files up to the first it cannot read and writes one compact file for each, no other; and
  \<open>load_from_compact_file\<close> reads from the file of a chunk exactly the compacted operations of its trace.
\<close>

theorem convert_roundtrip:
  assumes "\<forall>j ds. load_from_file (traces j) = Some ds \<longrightarrow> written ds (ws j)"
  shows "case convert_to_compact traces ws dir of (n, tot, dir') \<Rightarrow>
    let raw = available_from 0 (unat MAX_CHUNKS) (\<lambda>j. load_from_file (traces j)) in
    n = length raw \<and> tot = length (concat raw) \<and>
    (\<forall>k. if k < n
      then \<exists>bytes. dir' k = Some bytes \<and>
        (\<forall>fresh. load_from_compact_file (Contents (length bytes) bytes fresh) = Some (map compact_op (raw ! k)))
      else dir' k = dir k)"
proof -
  let ?raw = "available_from 0 (unat MAX_CHUNKS) (\<lambda>j. load_from_file (traces j))"
  have "8 * length (?raw ! k) < 2147483648" if "k < length ?raw" for k
    using available_nth [OF that] assms by (fastforce simp: written_def simp del: config_values)
  then show ?thesis
    using load_complete [of "map compact_op ds" for ds]
    by (simp add: convert_to_compact_def convert_loop_saves [OF assms] Let_def length_file_bytes
        del: length_concat map_map config_values)
qed

definition trace_bytes :: "BusDataChunk \<Rightarrow> u8 list" where
  "trace_bytes b = concat (map (le_bytes 8) (bdc_data b))"

lemma load_trace:
  assumes "\<forall>b\<in>set bs. length (bdc_data b) = 7" "56 * length bs < 2147483648"
  shows "load_from_file (Contents (56 * length bs) (concat (map trace_bytes bs)) fresh) = Some bs"
proof -
  have len: "length (concat (map (le_bytes 8) ws)) = 8 * length ws" for ws :: "u64 list"
    by (induction ws) simp_all
  have all: "length (trace_bytes b) = 56" if "b \<in> set bs" for b
    using assms(1) that len [of "bdc_data b"] by (simp add: trace_bytes_def del: length_concat)
  then have "length (concat (map trace_bytes bs)) = 56 * length bs" by (induction bs) simp_all
  then have "take (56 * length bs) (received (56 * length bs) (concat (map trace_bytes bs)) fresh) = concat (map trace_bytes bs)"
    by (simp add: received_def)
  moreover have "pieces 56 (concat (map trace_bytes bs)) = map trace_bytes bs"
    using all by (intro pieces_concat) simp_all
  moreover have "\<lparr>bdc_data = map le_word (pieces 8 (trace_bytes b))\<rparr> = b" if "b \<in> set bs" for b
    unfolding trace_bytes_def by (subst pieces_concat) (simp_all add: comp_def le_word_le_bytes)
  ultimately show ?thesis
    using assms(2) by (simp add: load_from_file_def MEM_BUS_DATA_SIZE_def int32_small nat_mult_distrib comp_def map_idI)
qed

definition trace_example :: "BusDataChunk list" where
  "trace_example = [\<lparr>bdc_data = [2, 0xA000000C, 0, 8, 5, 6, 7]\<rparr>, \<lparr>bdc_data = [1, 0xA0000000, 0, 4, 0, 0, 0]\<rparr>]"

definition trace_files :: "nat \<Rightarrow> file_read" where
  "trace_files k = (if k = 0 then Contents 112 (concat (map trace_bytes trace_example)) [] else Failed)"

lemma trace_files_load: "load_from_file (trace_files k) = (if k = 0 then Some trace_example else None)"
  using load_trace [of trace_example "[]"]
  by (simp add: trace_files_def trace_example_def load_from_file_def [of Failed])

theorem convert_roundtrip_witness:
  "case convert_to_compact trace_files (\<lambda>_. Written 20) (\<lambda>_. None) of (n, tot, dir') \<Rightarrow>
    n = 1 \<and> tot = 2 \<and> dir' 1 = None \<and>
    (\<exists>bytes. dir' 0 = Some bytes \<and> load_from_compact_file (Contents (length bytes) bytes []) =
      Some [\<lparr>bus_addr = 0xA000000C, bus_flags = 0x10008\<rparr>, \<lparr>bus_addr = 0xA0000000, bus_flags = 4\<rparr>])"
proof -
  have "\<forall>j ds. load_from_file (trace_files j) = Some ds \<longrightarrow> written ds (Written 20)"
    by (auto simp: trace_files_load trace_example_def written_def)
  note conv = convert_roundtrip [OF this, of "\<lambda>_. None"]
  have raw: "available_from 0 (unat MAX_CHUNKS) (\<lambda>j. load_from_file (trace_files j)) = [trace_example]"
    by (subst available_from_simps, simp add: trace_files_load, subst available_from_simps, simp)
  have ops: "map compact_op trace_example =
      [\<lparr>bus_addr = 0xA000000C, bus_flags = 0x10008\<rparr>, \<lparr>bus_addr = 0xA0000000, bus_flags = 4\<rparr>]"
    by (simp add: trace_example_def compact_op_def)
  have two: "length trace_example = 2" by (simp add: trace_example_def)
  obtain n tot dir' where run: "convert_to_compact trace_files (\<lambda>_. Written 20) (\<lambda>_. None) = (n, tot, dir')"
    by (cases "convert_to_compact trace_files (\<lambda>_. Written 20) (\<lambda>_. None)") auto
  have all: "n = 1 \<and> tot = 2 \<and> (\<forall>k. if k < n
      then \<exists>bytes. dir' k = Some bytes \<and>
        (\<forall>fresh. load_from_compact_file (Contents (length bytes) bytes fresh) = Some (map compact_op ([trace_example] ! k)))
      else dir' k = None)"
    using conv unfolding raw run prod.case Let_def two concat.simps append_Nil2 list.size One_nat_def add_0 .
  then have len: "n = 1" "tot = 2" by simp_all
  note all = all [unfolded len, THEN conjunct2, THEN conjunct2, THEN spec]
  from all [of 0] all [of 1] show ?thesis by (auto simp: run len ops)
qed

end
