(* ===== verification/Mem_Load.thy ===== *)
theory Mem_Load
  imports Mem_File Count_Run Mem_Align
begin

text \<open>
  The test driver: \<open>count_operations\<close> of \<open>tools.hpp\<close>, the tally the driver prints, and \<open>MemTest::load\<close> of
  \<open>mem_test.hpp\<close>, which reads the compact files, converts the old format of the flags, and keeps the chunks that
  \<open>MemTest::execute\<close> publishes. The totals \<open>load\<close> prints are part of its result; the lines it prints are those of \<open>Load_Log\<close>.
\<close>

unbundle bit_operations_syntax

subsection \<open>count_operations\<close>

definition operation_cost :: "MemCountersBusData \<Rightarrow> u32" where
  "operation_cost d =
    (let bytes = bus_flags d AND 0x0F; offset = bus_addr d AND 0x07; wr = bus_flags d AND 0x10000 \<noteq> 0 in
     if offset = 0 \<and> bytes = 8 then 1
     else if offset + bytes > 8 then (if wr then 4 else 2)
     else if wr then 2
     else 1)"

definition count_operations :: "MemChunk \<Rightarrow> u32" where
  "count_operations chunk_data = fold (\<lambda>d ops. ops + operation_cost d) chunk_data 0"

subsection \<open>MemTest::load\<close>

type_synonym MemTest = "MemChunk list"

definition convert_flags :: "u32 \<Rightarrow> u32" where
  "convert_flags flags = drop_bit 11 (flags AND 0x08000000) OR drop_bit 28 (flags AND 0xF0000000)"

definition convert_op :: "MemCountersBusData \<Rightarrow> MemCountersBusData" where
  "convert_op d = d\<lparr>bus_flags := convert_flags (bus_flags d)\<rparr>"

text \<open>
  One turn of the loop. The new chunk is in \<open>chunks\<close> before its flags are converted, but shares its array, so it is
  the converted operations that stay; the tally is taken before.
\<close>

record loader =
  ld_chunks :: MemTest
  ld_tot_ops :: u32
  ld_tot_chunks :: u32
  ld_convert :: bool

definition load_chunk :: "MemChunk \<Rightarrow> loader \<Rightarrow> loader res" where
  "load_chunk chunk_data l =
    (let chunk_id = length (ld_chunks l);
         l = l\<lparr>ld_tot_ops := ld_tot_ops l + count_operations chunk_data,
               ld_tot_chunks := ld_tot_chunks l + of_nat (length chunk_data)\<rparr> in
     bindE
       (if chunk_id = 0 then
          case chunk_data of
            [] \<Rightarrow> Inl Out_of_bounds
          | d # _ \<Rightarrow> Inr (if bus_flags d AND 0xF000000 \<noteq> 0 then l\<lparr>ld_convert := True\<rparr> else l)
        else Inr l)
       (\<lambda>l. Inr (l\<lparr>ld_chunks := ld_chunks l @ [if ld_convert l then map convert_op chunk_data else chunk_data]\<rparr>)))"

lemma load_chunk_length: "load_chunk d l = Inr l' \<Longrightarrow> length (ld_chunks l') = Suc (length (ld_chunks l))"
  by (auto simp: load_chunk_def Let_def split: if_splits list.splits)

function load_loop :: "(nat \<Rightarrow> file_read) \<Rightarrow> loader \<Rightarrow> loader res" where
  "load_loop files l =
    (let chunk_id = length (ld_chunks l) in
     if chunk_id < unat MAX_CHUNKS then
       case load_from_compact_file (files chunk_id) of
         None \<Rightarrow> Inr l
       | Some chunk_data \<Rightarrow>
           (case load_chunk chunk_data l of Inl e \<Rightarrow> Inl e | Inr l \<Rightarrow> load_loop files l)
     else Inr l)"
  by pat_completeness auto

termination
  by (relation "measure (\<lambda>(files, l). unat MAX_CHUNKS - length (ld_chunks l))")
    (auto dest: load_chunk_length)

declare load_loop.simps [simp del]

definition load :: "(nat \<Rightarrow> file_read) \<Rightarrow> loader res" where
  "load files = load_loop files \<lparr>ld_chunks = [], ld_tot_ops = 0, ld_tot_chunks = 0, ld_convert = False\<rparr>"

subsection \<open>The tally and the counters\<close>

lemma fold_count_operations: "fold (\<lambda>d ops. ops + operation_cost d) ds n = n + sum_list (map operation_cost ds)"
  by (induction ds arbitrary: n) simp_all

lemma count_operations_sum: "count_operations ds = sum_list (map operation_cost ds)"
  by (simp add: count_operations_def fold_count_operations)

definition plain_op :: "MemCountersBusData \<Rightarrow> bool" where
  "plain_op d \<longleftrightarrow> valid_bytes d \<and> drop_bit 16 (bus_flags d) \<le> 1"

lemma and_power: "f AND 2 ^ n = (if bit f n then 2 ^ n else 0 :: u32)"
  by (rule bit_word_eqI) (auto simp: bit_simps)

lemma write_bit:
  assumes "drop_bit 16 (f :: u32) \<le> 1"
  shows "drop_bit 16 f = (if f AND 0x10000 \<noteq> 0 then 1 else 0)"
proof -
  have "(0x10000 :: u32) = 2 ^ 16" by simp
  then have bit: "f AND 0x10000 \<noteq> 0 \<longleftrightarrow> bit (drop_bit 16 f) 0"
    by (simp only: and_power bit_drop_bit_eq) simp
  have "unat (drop_bit 16 f) \<le> 1" using assms by (simp add: word_le_nat_alt)
  then consider "drop_bit 16 f = 0" | "drop_bit 16 f = 1"
    by (metis le_Suc_eq le_zero_eq One_nat_def unat_1 word_unat_eq_iff unat_0)
  then show ?thesis unfolding bit by cases simp_all
qed

lemma operation_cost_accesses:
  assumes "plain_op d"
  shows "operation_cost d = sum_list (map snd (accesses d))"
proof -
  let ?f = "bus_flags d"
  have valid: "?f AND 0xFF \<in> {1, 2, 4, 8}" and wr: "drop_bit 16 ?f = (if ?f AND 0x10000 \<noteq> 0 then 1 else 0)"
    using assms write_bit by (auto simp: plain_op_def valid_bytes_def)
  have "?f AND 0x0F = (?f AND 0xFF) AND 0x0F" by (simp add: and.assoc)
  then have low: "?f AND 0x0F = ?f AND 0xFF" using valid by auto
  have ucast: "(ucast (ucast (?f AND 0xFF) :: u8) :: u32) = ?f AND 0xFF" using valid by auto
  have eight: "(ucast (?f AND 0xFF) :: u8) = 8 \<longleftrightarrow> ?f AND 0xFF = 8" using valid by auto
  show ?thesis
    unfolding operation_cost_def accesses_def crosses_def op_bytes_def ucast eight low wr Let_def
    by (auto simp: add.commute)
qed

lemma count_operations_accesses:
  assumes "\<forall>d\<in>set ds. plain_op d"
  shows "count_operations ds = sum_list (map snd (concat (map accesses ds)))"
  unfolding count_operations_sum using assms by (induction ds) (simp_all add: operation_cost_accesses)

lemma sum_list_point:
  assumes "distinct xs" "x \<in> set xs"
  shows "sum_list (map (\<lambda>y. if x = y then n else 0) xs) = (n :: u32)"
proof -
  have "sum_list (map (\<lambda>y. if x = y then n else 0) ys) = 0" if "x \<notin> set ys" for ys
    using that by (induction ys) auto
  then show ?thesis using assms by (induction xs) auto
qed

lemma sum_over_offsets:
  assumes "\<forall>(a, n)\<in>set xs. \<exists>off\<in>set offs. line a = Some off" "distinct offs"
  shows "sum_list (map (\<lambda>off. sum_list (line_counts xs off)) offs) = sum_list (map snd xs)"
  using assms(1)
proof (induction xs)
  case Nil
  show ?case by (simp add: line_counts_def)
next
  case (Cons x xs)
  obtain a n off where x: "x = (a, n)" "line a = Some off" "off \<in> set offs" using Cons.prems by (cases x) auto
  have "sum_list (line_counts (x # xs) o') = (if off = o' then n else 0) + sum_list (line_counts xs o')" for o'
    using x by (simp add: line_counts_def)
  then show ?case
    using Cons x sum_list_point [OF assms(2) x(3), of n] by (simp add: sum_list_addf)
qed

lemma sum_concat: "sum_list (map g (concat (map f xs))) = sum_list (map (\<lambda>x. sum_list (map g (f x)) :: u32) xs)"
  by (induction xs) simp_all

text \<open>All a counter has counted.\<close>

definition total_count :: "MemCounter \<Rightarrow> u32" where
  "total_count w = sum_list (map (\<lambda>off. case get_count_table w off of Inl e \<Rightarrow> 0 | Inr n \<Rightarrow> n) (words 0 (unat ADDR_TABLE_SIZE)))"

lemma execute_total_count:
  assumes "context_holds ctx chs" "chunks_completed ctx" "i < MAX_THREADS"
    and "execute ctx (mem_counter_new slots0 chunk0 i) = Some (Inr w')"
  shows "total_count w' = sum_list (map snd (run_accesses i chs))"
proof -
  let ?offs = "words 0 (unat ADDR_TABLE_SIZE)"
  have offs: "off \<in> set ?offs \<longleftrightarrow> off < ADDR_TABLE_SIZE" for off
    unfolding in_words by (auto simp: word_less_nat_alt intro: exI [of _ "unat off"])
  obtain B where rep: "rep w' B (chunk_log i chs)" using execute_log(1) [OF assms] by (auto simp: holds_log_def)
  have "get_count_table w' off = Inr (sum_list (line_counts (run_accesses i chs) off))" if "off \<in> set ?offs" for off
    using rep_count_table [OF rep] that unfolding offs by (simp add: chunk_log_sum)
  then have "total_count w' = sum_list (map (\<lambda>off. sum_list (line_counts (run_accesses i chs) off)) ?offs)"
    unfolding total_count_def by (intro arg_cong [where f = sum_list] map_cong) simp_all
  also have "\<dots> = sum_list (map snd (run_accesses i chs))"
  proof (rule sum_over_offsets)
    show "distinct ?offs" by (rule distinct_words) simp
    show "\<forall>(a, n)\<in>set (run_accesses i chs). \<exists>off\<in>set ?offs. line a = Some off"
      using execute_mapped [OF assms] addr_to_offset_bound [of _ 0] unfolding Bex_def offs
      by (auto simp: line_eq_Some [of _ _ 0] simp del: config_values)
  qed
  finally show ?thesis .
qed

subsection \<open>The loop of load\<close>

definition keep_ops :: "bool \<Rightarrow> MemChunk \<Rightarrow> MemChunk" where
  "keep_ops convert data = (if convert then map convert_op data else data)"

abbreviation compact_files :: "(nat \<Rightarrow> file_read) \<Rightarrow> nat \<Rightarrow> MemChunk list" where
  "compact_files files k \<equiv> available_from k (unat MAX_CHUNKS) (\<lambda>j. load_from_compact_file (files j))"

lemma load_loop_rest:
  assumes "ld_chunks l \<noteq> []"
  shows "load_loop files l =
    (let raw = compact_files files (length (ld_chunks l)) in
     Inr (l\<lparr>ld_chunks := ld_chunks l @ map (keep_ops (ld_convert l)) raw,
       ld_tot_ops := ld_tot_ops l + sum_list (map count_operations raw),
       ld_tot_chunks := ld_tot_chunks l + of_nat (length (concat raw))\<rparr>))"
  using assms
proof (induction files l rule: load_loop.induct)
  case (1 files l)
  let ?k = "length (ld_chunks l)"
  show ?case
  proof (cases "?k < unat MAX_CHUNKS \<and> load_from_compact_file (files ?k) \<noteq> None")
    case False
    then have "compact_files files ?k = []" by (subst available_from_simps) auto
    then show ?thesis using False by (subst load_loop.simps) (auto simp: Let_def)
  next
    case True
    then obtain d where k: "?k < unat MAX_CHUNKS" and d: "load_from_compact_file (files ?k) = Some d" by auto
    define l' where "l' = l\<lparr>ld_chunks := ld_chunks l @ [keep_ops (ld_convert l) d],
      ld_tot_ops := ld_tot_ops l + count_operations d, ld_tot_chunks := ld_tot_chunks l + of_nat (length d)\<rparr>"
    have step: "load_chunk d l = Inr l'"
      using "1.prems" by (simp add: load_chunk_def l'_def keep_ops_def Let_def)
    have raw: "compact_files files ?k = d # compact_files files (Suc ?k)"
      using k d by (subst available_from_simps) simp
    have "load_loop files l = load_loop files l'"
      using k d by (subst load_loop.simps) (simp add: step Let_def)
    also have "\<dots> = (let raw = compact_files files (Suc ?k) in
        Inr (l'\<lparr>ld_chunks := ld_chunks l' @ map (keep_ops (ld_convert l')) raw,
          ld_tot_ops := ld_tot_ops l' + sum_list (map count_operations raw),
          ld_tot_chunks := ld_tot_chunks l' + of_nat (length (concat raw))\<rparr>))"
      using "1.IH" [OF refl k d step] by (simp add: l'_def)
    finally show ?thesis
      unfolding raw by (simp add: l'_def Let_def ac_simps)
  qed
qed

lemma load_result_eq:
  "load files =
    (case compact_files files 0 of
       [] \<Rightarrow> Inr \<lparr>ld_chunks = [], ld_tot_ops = 0, ld_tot_chunks = 0, ld_convert = False\<rparr>
     | [] # _ \<Rightarrow> Inl Out_of_bounds
     | (d # ds) # rest \<Rightarrow>
         let raw = (d # ds) # rest; convert = bus_flags d AND 0xF000000 \<noteq> 0 in
         Inr \<lparr>ld_chunks = map (keep_ops convert) raw, ld_tot_ops = sum_list (map count_operations raw),
           ld_tot_chunks = of_nat (length (concat raw)), ld_convert = convert\<rparr>)"
proof -
  let ?l = "\<lparr>ld_chunks = [], ld_tot_ops = 0, ld_tot_chunks = 0, ld_convert = False\<rparr> :: loader"
  show ?thesis
  proof (cases "load_from_compact_file (files 0)")
    case None
    then have "compact_files files 0 = []" by (subst available_from_simps) simp
    then show ?thesis using None by (simp add: load_def load_loop.simps [of files ?l])
  next
    case (Some first)
    then have raw: "compact_files files 0 = first # compact_files files 1"
      by (subst available_from_simps) simp
    show ?thesis
    proof (cases first)
      case Nil
      then show ?thesis
        using Some unfolding raw by (simp add: load_def load_loop.simps [of files ?l] load_chunk_def Let_def)
    next
      case (Cons d ds)
      define l' where "l' = \<lparr>ld_chunks = [keep_ops (bus_flags d AND 0xF000000 \<noteq> 0) first],
        ld_tot_ops = count_operations first, ld_tot_chunks = of_nat (length first),
        ld_convert = (bus_flags d AND 0xF000000 \<noteq> 0)\<rparr>"
      have "load_chunk first ?l = Inr l'"
        by (simp add: load_chunk_def l'_def Cons keep_ops_def Let_def)
      then have "load files = load_loop files l'"
        using Some by (simp add: load_def load_loop.simps [of files ?l])
      then show ?thesis
        unfolding raw Cons
        by (simp add: load_loop_rest l'_def Cons Let_def del: length_concat)
    qed
  qed
qed

subsection \<open>Properties\<close>

text \<open>
  C29: What \<open>MemTest::load\<close> keeps. It reads the files 0, 1, ... up to the first it cannot read, at most
  \<open>MAX_CHUNKS\<close>; it converts the flags of all chunks or of none, by the first operation of the first; the totals it
  prints are those of the files; and it reads past the first chunk if that is empty.
\<close>

theorem load_result:
  "load files =
    (case compact_files files 0 of
       [] \<Rightarrow> Inr \<lparr>ld_chunks = [], ld_tot_ops = 0, ld_tot_chunks = 0, ld_convert = False\<rparr>
     | [] # _ \<Rightarrow> Inl Out_of_bounds
     | (d # ds) # rest \<Rightarrow>
         let raw = (d # ds) # rest; convert = bus_flags d AND 0xF000000 \<noteq> 0 in
         Inr \<lparr>ld_chunks = map (if convert then map convert_op else id) raw,
           ld_tot_ops = sum_list (map count_operations raw), ld_tot_chunks = of_nat (length (concat raw)),
           ld_convert = convert\<rparr>)"
proof -
  have keep: "keep_ops c = (if c then map convert_op else id)" for c by (auto simp: keep_ops_def fun_eq_iff)
  show ?thesis unfolding load_result_eq keep by (rule refl)
qed

text \<open>
  C27: The tally and the counters agree. After the eight threads have counted a completed context, all the counts in
  their tables add up to what \<open>count_operations\<close> adds up over the chunks (modulo \<open>2 ^ 32\<close>, as both do).
\<close>

theorem operations_all_counted:
  assumes "context_holds ctx chs" "chunks_completed ctx" "\<forall>ds\<in>set chs. \<forall>d\<in>set ds. plain_op d"
    and "\<forall>i<MAX_THREADS. execute ctx (mem_counter_new slots0 chunk0 i) = Some (Inr (ws i))"
  shows "sum_list (map (\<lambda>i. total_count (ws i)) (words 0 8)) = sum_list (map count_operations chs)"
proof -
  have lanes: "i \<in> set (words 0 8) \<Longrightarrow> i < MAX_THREADS" for i
    by (auto simp: in_words word_less_nat_alt)
  have "sum_list (map (\<lambda>i. total_count (ws i)) (words 0 8)) =
      sum_list (map (\<lambda>i. sum_list (map snd (run_accesses i chs))) (words 0 8))"
    using execute_total_count [OF assms(1,2) lanes] assms(4) lanes
    by (intro arg_cong [where f = sum_list] map_cong refl) blast
  also have "\<dots> = sum_list (map count_operations chs)"
    using assms(3)
  proof (induction chs)
    case Nil
    show ?case by (simp add: run_accesses_def)
  next
    case (Cons ds chs)
    have "sum_list (map (\<lambda>i. sum_list (map snd (lane_accesses i ds))) (words 0 8)) =
        sum_list (map snd (concat (map (\<lambda>i. lane_accesses i ds) (words 0 8))))"
      by (rule sum_concat [symmetric])
    also have "\<dots> = sum_list (map snd (concat (map accesses ds)))"
      using arg_cong [where f = "\<lambda>M. sum_mset (image_mset snd M)", OF lanes_partition [of ds]]
      by (simp only: mset_map [symmetric] sum_mset_sum_list)
    also have "\<dots> = count_operations ds" using Cons.prems by (simp add: count_operations_accesses)
    finally show ?case using Cons by (simp add: run_accesses_def sum_list_addf)
  qed
  finally show ?thesis .
qed

theorem operations_all_counted_witness:
  "\<exists>ws. (\<forall>i<MAX_THREADS. execute ctx8 (mem_counter_new (\<lambda>_. 7) 0 i) = Some (Inr (ws i))) \<and>
    sum_list (map (\<lambda>i. total_count (ws i)) (words 0 8)) = 8"
proof -
  let ?chs = "replicate 8 [\<lparr>bus_addr = 0xA0000000, bus_flags = 8\<rparr>]"
  have acc: "accesses \<lparr>bus_addr = 0xA0000000, bus_flags = 8\<rparr> = [(0xA0000000, 1)]"
    by (simp add: accesses_def op_bytes_def)
  have "\<exists>w'. execute ctx8 (mem_counter_new (\<lambda>_. 7) 0 i) = Some (Inr w')" if "i < MAX_THREADS" for i
  proof (cases "i = 0")
    case False
    then have none: "run_accesses i ?chs = []"
      using acc by (simp add: run_accesses_def lane_accesses_def lane_def)
    then have "blocks_needed i ?chs = 0" by (simp add: blocks_needed_def touched_def)
    with that none show ?thesis by (intro execute_total [OF ctx8_holds]) (simp_all flip: blocks_needed_eq)
  qed (use ctx8_returns in simp)
  then obtain ws where ws: "\<forall>i<MAX_THREADS. execute ctx8 (mem_counter_new (\<lambda>_. 7) 0 i) = Some (Inr (ws i))" by metis
  have plain: "\<forall>ds\<in>set ?chs. \<forall>d\<in>set ds. plain_op d"
    by (simp add: plain_op_def valid_bytes_def)
  have "sum_list (map count_operations ?chs) = 8"
    by (simp add: count_operations_def operation_cost_def sum_list_replicate)
  then show ?thesis using operations_all_counted [OF ctx8_holds plain ws] ws by (intro exI [of _ ws]) simp
qed

text \<open>
  The conversion of the old format: the width of a converted operation is the top four bits of its old flags,
  it is a write if bit 27 was set, and it has a width the counters accept exactly if those four bits are one.
\<close>

theorem converted_ops:
  "unat (op_bytes (convert_op d)) = unat (drop_bit 28 (bus_flags d)) \<and>
    drop_bit 16 (bus_flags (convert_op d)) = (if bit (bus_flags d) 27 then 1 else 0) \<and>
    (plain_op (convert_op d) \<longleftrightarrow> drop_bit 28 (bus_flags d) \<in> {1, 2, 4, 8})"
proof -
  let ?f = "bus_flags d"
  have old: "?f AND 0x08000000 = (if bit ?f 27 then 0x08000000 else 0)" using and_power [of ?f 27] by simp
  have masks: "(0xF0000000 :: u32) = NOT (mask 28)" "(0xFF :: u32) = mask 8" by (simp_all add: mask_eq_exp_minus_1)
  have top: "n < 4" if "bit ?f (28 + n)" for n using bit_imp_le_length [OF that] by simp
  have "drop_bit 28 (?f AND 0xF0000000) = drop_bit 28 ?f"
    unfolding masks by (rule bit_word_eqI) (auto simp: bit_simps dest: top)
  then have conv: "convert_flags ?f = (if bit ?f 27 then 0x10000 else 0) OR drop_bit 28 ?f"
    by (simp add: convert_flags_def old)
  have "drop_bit 28 ?f AND 0xFF = drop_bit 28 ?f"
    unfolding masks by (rule bit_word_eqI) (auto simp: bit_simps dest: top)
  then have low: "convert_flags ?f AND 0xFF = drop_bit 28 ?f"
    by (simp add: conv bit.conj_disj_distrib2)
  have "drop_bit 16 (drop_bit 28 ?f) = 0" by (rule bit_word_eqI) (auto simp: bit_simps dest: top)
  then have high: "drop_bit 16 (convert_flags ?f) = (if bit ?f 27 then 1 else 0)"
    by (simp add: conv drop_bit_or del: drop_bit_drop_bit)
  show ?thesis
    using byte_value [of "convert_op d"] by (auto simp: op_bytes_def convert_op_def plain_op_def valid_bytes_def low high)
qed

text \<open>
  The old format is recognised by its write bit only: when the first operation of the first chunk is a read of an
  accepted width, \<open>load\<close> converts nothing, although converted the operation would be accepted, and the alignment
  counter fails on that chunk.
\<close>

theorem old_reads_missed:
  assumes "load_from_compact_file (files 0) = Some (d # ds)"
    and "bus_flags d = push_bit 28 width" "width \<in> {1, 2, 4, 8}"
  shows "\<exists>l. load files = Inr l \<and> \<not> ld_convert l \<and> hd (ld_chunks l) = d # ds \<and> plain_op (convert_op d) \<and>
    align_execute_chunk 0 (hd (ld_chunks l)) m = Inl Assertion_failed"
proof -
  have raw: "compact_files files 0 = (d # ds) # compact_files files 1"
    using assms(1) by (subst available_from_simps) simp
  have "bus_flags d AND 0xF000000 = 0" using assms(2,3) by auto
  moreover have "plain_op (convert_op d)"
    using assms(2,3) by (auto simp: plain_op_def valid_bytes_def convert_op_def convert_flags_def)
  moreover have "\<not> valid_bytes d" using assms(2,3) by (auto simp: valid_bytes_def)
  then have "align_execute_chunk 0 (d # ds) m = Inl Assertion_failed"
    by (simp add: align_execute_chunk_def align_op_invalid result_simps)
  ultimately show ?thesis
    unfolding load_result_eq raw by (simp add: Let_def keep_ops_def del: length_concat)
qed

theorem old_reads_missed_witness:
  "\<exists>l. load (\<lambda>k. if k = 0 then Contents 8 (op_file_bytes \<lparr>bus_addr = 0xA0000000, bus_flags = 0x80000000\<rparr>) [] else Failed)
    = Inr l \<and> \<not> ld_convert l \<and> hd (ld_chunks l) = [\<lparr>bus_addr = 0xA0000000, bus_flags = 0x80000000\<rparr>]"
proof -
  let ?d = "\<lparr>bus_addr = 0xA0000000, bus_flags = 0x80000000\<rparr>"
  let ?files = "\<lambda>k :: nat. if k = 0 then Contents 8 (op_file_bytes ?d) [] else Failed"
  have "load_from_compact_file (?files 0) = Some [?d]"
    using load_complete [of "[?d]" "[]"] by simp
  then obtain l where "load ?files = Inr l" "\<not> ld_convert l" "hd (ld_chunks l) = [?d]"
    using old_reads_missed [of ?files ?d "[]" 8 "align_new 16"] by auto
  then show ?thesis by blast
qed

subsection \<open>From the traces to the chunks\<close>

text \<open>A record of the trace as the emulator writes it: operation 1 or 2, a 32-bit address, an accepted width.\<close>

definition trace_op :: "BusDataChunk \<Rightarrow> bool" where
  "trace_op b \<longleftrightarrow> bdc_data b ! 0 \<in> {1, 2} \<and> bdc_data b ! 1 \<le> 0xFFFFFFFF \<and> bdc_data b ! 3 \<in> {1, 2, 4, 8}"

lemma trace_op_compact:
  assumes "trace_op b"
  shows "plain_op (compact_op b)" "bus_flags (compact_op b) AND 0xF000000 = 0"
  using assms by (auto simp: trace_op_def compact_op_def plain_op_def valid_bytes_def)

text \<open>The directory of compact files, all read completely.\<close>

definition directory_files :: "directory \<Rightarrow> nat \<Rightarrow> file_read" where
  "directory_files dir k = (case dir k of None \<Rightarrow> Failed | Some bytes \<Rightarrow> Contents (length bytes) bytes [])"

text \<open>
  C28: The tool chain. Convert traces as the emulator writes them to compact files, in an empty directory and with
  complete writes, and load these: \<open>load\<close> keeps the compacted operations of every trace up to the first that
  cannot be read, all of them operations the counters accept, takes none of them for the old format, and counts them.
\<close>

theorem converted_traces_load:
  assumes "\<forall>j ds. load_from_file (traces j) = Some ds \<longrightarrow> written ds (ws j) \<and> (\<forall>b\<in>set ds. trace_op b)"
    and "convert_to_compact traces ws (\<lambda>_. None) = (n, tot, dir)"
    and "load_from_file (traces 0) = Some (b # bs)"
  shows "\<exists>l. load (directory_files dir) = Inr l \<and> \<not> ld_convert l \<and> length (ld_chunks l) = n \<and>
    (\<forall>k<n. \<exists>ds. load_from_file (traces k) = Some ds \<and> ld_chunks l ! k = map compact_op ds) \<and>
    (\<forall>ds\<in>set (ld_chunks l). \<forall>d\<in>set ds. plain_op d) \<and> ld_tot_chunks l = of_nat tot"
proof -
  let ?raw = "available_from 0 (unat MAX_CHUNKS) (\<lambda>j. load_from_file (traces j))"
  have w: "\<forall>j ds. load_from_file (traces j) = Some ds \<longrightarrow> written ds (ws j)" using assms(1) by blast
  have n: "n = length ?raw" "tot = length (concat ?raw)" and dir: "dir = (\<lambda>k. if k < length ?raw
      then Some (concat (map op_file_bytes (map compact_op (?raw ! k)))) else None)"
    using assms(2) unfolding convert_to_compact_def convert_loop_saves [OF w] by (auto simp: Let_def)
  have le: "length ?raw \<le> unat MAX_CHUNKS" by (rule available_length)
  have small: "8 * length (?raw ! k) < 2147483648" if "k < length ?raw" for k
    using available_nth [OF that] w by (fastforce simp: written_def simp del: config_values)
  have read: "load_from_compact_file (directory_files dir k) =
      (if k < length ?raw then Some (map compact_op (?raw ! k)) else None)" for k
    using load_complete [of "map compact_op (?raw ! k)" "[]"] small [of k]
    by (simp add: directory_files_def dir length_file_bytes load_from_compact_file_def [of Failed] del: length_concat map_map)
  have files: "compact_files (directory_files dir) 0 = map (map compact_op) ?raw"
    unfolding read by (rule available_list [OF le])
  have nth: "load_from_file (traces k) = Some (?raw ! k)" if "k < length ?raw" for k
    using available_nth [OF that] by simp
  obtain rest where first: "?raw = (b # bs) # rest"
    using assms(3) available_from_simps [of 0 "unat MAX_CHUNKS" "\<lambda>j. load_from_file (traces j)"] by simp
  have keep: "keep_ops False = (\<lambda>ds. ds)" by (simp add: keep_ops_def fun_eq_iff)
  have ops: "trace_op c" if ds: "ds \<in> set ?raw" "c \<in> set ds" for ds c
  proof -
    obtain k where "k < length ?raw" "?raw ! k = ds" using ds(1) by (auto simp: in_set_conv_nth)
    then show ?thesis using nth assms(1) ds(2) by blast
  qed
  have "bus_flags (compact_op b) AND 0xF000000 = 0"
    using ops [of "b # bs" b] first by (intro trace_op_compact) auto
  then have load: "load (directory_files dir) = Inr \<lparr>ld_chunks = map (map compact_op) ?raw,
      ld_tot_ops = sum_list (map count_operations (map (map compact_op) ?raw)),
      ld_tot_chunks = of_nat (length (concat (map (map compact_op) ?raw))), ld_convert = False\<rparr>"
    unfolding load_result_eq files first by (simp add: Let_def keep del: length_concat)
  show ?thesis
    using nth ops trace_op_compact(1) unfolding load
    by (auto simp: n length_concat comp_def in_set_conv_nth)
qed

theorem converted_traces_load_witness:
  "\<exists>n tot dir l. convert_to_compact trace_files (\<lambda>_. Written 16) (\<lambda>_. None) = (n, tot, dir) \<and>
    load (directory_files dir) = Inr l \<and> length (ld_chunks l) = n \<and> (\<forall>ds\<in>set (ld_chunks l). \<forall>d\<in>set ds. plain_op d)"
proof -
  obtain n tot dir where conv: "convert_to_compact trace_files (\<lambda>_. Written 16) (\<lambda>_. None) = (n, tot, dir)"
    by (cases "convert_to_compact trace_files (\<lambda>_. Written 16) (\<lambda>_. None)") auto
  have ok: "\<forall>j ds. load_from_file (trace_files j) = Some ds \<longrightarrow> written ds (Written 16) \<and> (\<forall>b\<in>set ds. trace_op b)"
    by (auto simp: trace_files_load trace_example_def written_def trace_op_def)
  have "load_from_file (trace_files 0) = Some (hd trace_example # tl trace_example)"
    by (simp add: trace_files_load trace_example_def)
  from converted_traces_load [OF ok conv this] conv show ?thesis by blast
qed

end
