(* ===== verification/Counted_Stream.thy ===== *)
theory Counted_Stream
  imports Ram_Pipeline Immutable_Plan Mem_Load
begin

text \<open>
  From the chunks to the stream the planners read: the counters after the eight threads have run, read as the logs of
  the chunks, with the bounds the planners need (no entry without rows, and few enough rows for the locators).
\<close>

subsection \<open>Sums without wrap-around\<close>

definition nat_sum :: "u32 list \<Rightarrow> nat" where
  "nat_sum ns = sum_list (map unat ns)"

lemma nat_sum_simps [simp]:
  "nat_sum [] = 0" "nat_sum (n # ns) = unat n + nat_sum ns" "nat_sum (ms @ ns) = nat_sum ms + nat_sum ns"
  by (simp_all add: nat_sum_def)

lemma unat_sum_le: "unat (sum_list ns) \<le> nat_sum ns"
proof (induction ns)
  case (Cons n ns)
  have "unat (n + sum_list ns) \<le> unat n + unat (sum_list ns)" by (simp add: unat_word_ariths)
  then show ?case using Cons by simp
qed simp

lemma unat_sum: "nat_sum ns < 4294967296 \<Longrightarrow> unat (sum_list ns) = nat_sum ns"
  by (induction ns) (simp_all add: unat_plus_u32)

lemma nat_sum_filter: "nat_sum (map g (filter Q xs)) \<le> nat_sum (map g xs)"
  by (induction xs) auto

lemma nat_sum_bound: "\<forall>n\<in>set ns. unat n \<le> b \<Longrightarrow> nat_sum ns \<le> length ns * b"
  by (induction ns) auto

lemma nat_sum_drop: "nat_sum (drop k ns) \<le> nat_sum ns"
  by (metis append_take_drop_id le_add2 nat_sum_simps(3))

lemma sum_list_swap: "sum_list (map (\<lambda>x. sum_list (map (f x) ys)) xs) = sum_list (map (\<lambda>y. sum_list (map (\<lambda>x. f x y) xs)) ys)"
  for f :: "'a \<Rightarrow> 'b \<Rightarrow> nat"
  by (induction xs) (simp_all add: sum_list_addf)

text \<open>The counts of one offset are those of some of the accesses, and no access belongs to two.\<close>

lemma line_counts_point:
  assumes "distinct offs"
  shows "sum_list (map (\<lambda>off. nat_sum (line_counts xs off)) offs) \<le> nat_sum (map snd xs)"
proof (induction xs)
  case Nil
  show ?case by (simp add: line_counts_def)
next
  case (Cons x xs)
  have "nat_sum (line_counts (x # xs) off) = (if line (fst x) = Some off then unat (snd x) else 0) + nat_sum (line_counts xs off)" for off
    by (simp add: line_counts_def case_prod_unfold)
  moreover have "sum_list (map (\<lambda>off. if line (fst x) = Some off then unat (snd x) else 0) offs) \<le> unat (snd x)"
    using assms
  proof (induction offs)
    case (Cons off offs)
    have "sum_list (map (\<lambda>off. if line (fst x) = Some off then unat (snd x) else 0) offs) = 0" if "line (fst x) = Some off"
      using that Cons.prems by (induction offs) auto
    then show ?case using Cons by auto
  qed simp
  ultimately show ?case using Cons by (simp add: sum_list_addf)
qed

subsection \<open>The logs\<close>

definition run_cells :: "MemChunk list \<Rightarrow> (u32 \<times> u32) per_cell" where
  "run_cells chs i = seen (first_line None (run_accesses i chs)) (chunk_log i chs)"

lemma chunk_log_nat_sum: "nat_sum (map snd (chunk_log i chs off)) \<le> nat_sum (line_counts (run_accesses i chs) off)"
proof (induction chs rule: rev_induct)
  case Nil
  show ?case by (simp add: chunk_log_def)
next
  case (snoc d chs)
  have "line_counts (run_accesses i (chs @ [d])) off = line_counts (run_accesses i chs) off @ line_counts (lane_accesses i d) off"
    by (simp add: run_accesses_def line_counts_def)
  moreover have "nat_sum (map snd (chunk_entry i off (of_nat (length chs), d))) \<le> nat_sum (line_counts (lane_accesses i d) off)"
    using unat_sum_le by (simp add: chunk_entry_def Let_def)
  ultimately show ?case using snoc by (simp add: chunk_log_def numbered_snoc)
qed

lemma run_cells_nat_sum: "nat_sum (map snd (run_cells chs i off)) \<le> nat_sum (line_counts (run_accesses i chs) off)"
  using chunk_log_nat_sum [of i chs off] nat_sum_drop [of 7 "map snd (chunk_log i chs off)"]
  by (auto simp: run_cells_def seen_def drop_map)

text \<open>
  The memory operations of the chunks, counted without wrap-around, and the runs the program has room for: operations of
  accepted widths, at most \<open>ADDR_SLOTS\<close> blocks of entries in every lane, and a number of memory operations that fits in
  the 32 bits of the counts.
\<close>

definition run_operations :: "MemChunk list \<Rightarrow> nat" where
  "run_operations chs = nat_sum (map snd (concat (map accesses (concat chs))))"

definition bounded_run :: "MemChunk list \<Rightarrow> bool" where
  "bounded_run chs \<longleftrightarrow> (\<forall>ds\<in>set chs. \<forall>d\<in>set ds. plain_op d) \<and>
    (\<forall>i<MAX_THREADS. blocks_needed i chs \<le> unat ADDR_SLOTS) \<and> run_operations chs < 4294967296"

lemma nat_sum_mset: "mset xs = mset ys \<Longrightarrow> nat_sum (map snd xs) = nat_sum (map snd ys)"
proof -
  assume "mset xs = mset ys"
  then have "mset (map (\<lambda>x. unat (snd x)) xs) = mset (map (\<lambda>x. unat (snd x)) ys)" by simp
  then show ?thesis unfolding nat_sum_def map_map comp_def by (metis sum_mset_sum_list)
qed

lemma nat_sum_concat: "nat_sum (concat nss) = sum_list (map nat_sum nss)"
  by (induction nss) simp_all

text \<open>The lanes share the operations out.\<close>

lemma run_operations_lanes: "sum_list (map (\<lambda>i. nat_sum (map snd (run_accesses i chs))) (words 0 8)) = run_operations chs"
proof (induction chs)
  case Nil
  show ?case by (simp add: run_operations_def run_accesses_def)
next
  case (Cons ds chs)
  have "nat_sum (map snd (concat (map (\<lambda>i. lane_accesses i ds) (words 0 8)))) = nat_sum (map snd (concat (map accesses ds)))"
    by (rule nat_sum_mset [OF lanes_partition])
  then show ?case using Cons
    by (simp add: run_operations_def run_accesses_def sum_list_addf map_concat nat_sum_concat comp_def)
qed

lemma run_accesses_operations:
  assumes "i < 8"
  shows "nat_sum (map snd (run_accesses i chs)) \<le> run_operations chs"
proof -
  have "i \<in> set (words 0 8)" using assms by (auto simp: in_words word_less_nat_alt intro!: exI [of _ "unat i"])
  then show ?thesis
    unfolding run_operations_lanes [symmetric] by (intro member_le_sum_list) auto
qed

lemma access_counts:
  assumes "plain_op d" "(a, n) \<in> set (accesses d)"
  shows "1 \<le> unat n"
proof -
  have "unat (drop_bit 16 (bus_flags d)) \<le> 1" using assms(1) by (simp add: plain_op_def word_le_nat_alt)
  then have "unat (1 + drop_bit 16 (bus_flags d)) = 1 + unat (drop_bit 16 (bus_flags d))"
    by (subst unat_plus_u32) simp_all
  then show "1 \<le> unat n"
    using assms(2) \<open>unat (drop_bit 16 (bus_flags d)) \<le> 1\<close> by (auto simp: accesses_def Let_def split: if_splits)
qed

lemma run_access_counts:
  assumes "bounded_run chs" "(a, n) \<in> set (run_accesses i chs)"
  shows "1 \<le> unat n"
proof -
  obtain ds d where "ds \<in> set chs" "d \<in> set ds" "(a, n) \<in> set (accesses d)"
    using assms(2) by (auto simp: run_accesses_def lane_accesses_def)
  moreover from this have "plain_op d" using assms(1) by (auto simp: bounded_run_def)
  ultimately show ?thesis using access_counts by blast
qed

text \<open>No entry is empty.\<close>

lemma run_cells_nonzero:
  assumes "bounded_run chs" "i < 8" "(c, n) \<in> set (run_cells chs i off)"
  shows "n \<noteq> 0"
proof -
  have "(c, n) \<in> set (chunk_log i chs off)"
    using assms(3) by (auto simp: run_cells_def seen_def split: if_splits dest: in_set_dropD)
  then obtain k d where "(k, d) \<in> set (numbered chs)" and n: "(c, n) \<in> set (chunk_entry i off (k, d))"
    by (auto simp: chunk_log_def)
  then have "d \<in> set chs" using numbered_bound [of k d chs] by auto
  with n have d: "d \<in> set chs" "n = sum_list (line_counts (lane_accesses i d) off)" "line_counts (lane_accesses i d) off \<noteq> []"
    by (auto simp: chunk_entry_def Let_def split: if_splits)
  let ?ns = "line_counts (lane_accesses i d) off"
  obtain as bs where "chs = as @ d # bs" using d(1) by (meson split_list)
  then have "nat_sum (map snd (lane_accesses i d)) \<le> nat_sum (map snd (run_accesses i chs))"
    by (simp add: run_accesses_def)
  moreover have "nat_sum ?ns \<le> nat_sum (map snd (lane_accesses i d))"
    unfolding line_counts_def by (rule nat_sum_filter)
  ultimately have "nat_sum ?ns < 4294967296"
    using run_accesses_operations [OF assms(2), of chs] assms(1) by (simp add: bounded_run_def)
  then have sum: "unat n = nat_sum ?ns" using d(2) unat_sum by simp
  obtain m where m: "m \<in> set ?ns" using d(3) by (meson last_in_set)
  then obtain a where "(a, m) \<in> set (lane_accesses i d)" by (auto simp: line_counts_def)
  then have "(a, m) \<in> set (run_accesses i chs)" using d(1) by (auto simp: run_accesses_def)
  then have "1 \<le> unat m" by (rule run_access_counts [OF assms(1)])
  moreover have "unat m \<le> nat_sum ?ns" using m by (induction ?ns) (auto simp: nat_sum_def intro: member_le_sum_list)
  ultimately show ?thesis using sum by auto
qed

subsection \<open>The stream\<close>

lemma zip_counts: "length ps = length vs \<Longrightarrow> sum_list (map (\<lambda>x. unat (snd (snd x))) (zip ps vs)) = nat_sum (map snd vs)"
  by (induction ps vs rule: list_induct2) simp_all

lemma sum_row_cells: "sum_list (map f (concat (map row_cells offs))) =
    sum_list (map (\<lambda>off. sum_list (map (\<lambda>i. f (off, i)) (words 0 8))) offs)"
  by (induction offs) (simp_all add: row_cells_def comp_def)

lemma rows_total_cells:
  assumes "workers_read ws P V" "n \<le> 20"
  shows "rows_total (stream P V m n) = sum_list (map (\<lambda>(off, i). nat_sum (map snd (V i off))) (cells m n))"
proof -
  have cell: "rows_total (cell_entries P V (off, i)) = nat_sum (map snd (V i off))" if "i < 8" for off i
  proof -
    have "length (P i off) = length (V i off)"
      using counter_reader.positions [OF workers_readD(2) [OF assms(1) that], of off] by blast
    then show ?thesis by (simp add: rows_total_def comp_def case_prod_unfold zip_counts)
  qed
  have "rows_total (concat (map (cell_entries P V) cs)) = sum_list (map (\<lambda>(off, i). nat_sum (map snd (V i off))) cs)"
    if "\<forall>(off, i)\<in>set cs. i < 8" for cs
    using that cell by (induction cs) (auto simp del: cell_entries.simps)
  then show ?thesis using in_cells [OF assms(2)] unfolding stream_def by blast
qed

lemma rows_total_run:
  assumes "workers_read ws P (run_cells chs)" "m \<le> n" "n \<le> 20"
  shows "rows_total (stream P (run_cells chs) m n) \<le> run_operations chs"
proof -
  let ?offs = "words (m * 1048576) (n * 1048576)"
  let ?c = "\<lambda>i off. nat_sum (map snd (run_cells chs i off))"
  have "n * 1048576 \<le> 4294967296" using assms(3) by simp
  then have dist: "distinct ?offs" by (rule distinct_words)
  have "rows_total (stream P (run_cells chs) m n) = sum_list (map (\<lambda>off. sum_list (map (\<lambda>i. ?c i off) (words 0 8))) ?offs)"
    unfolding rows_total_cells [OF assms(1,3)] cells_rows [OF assms(2)] by (simp add: sum_row_cells)
  also have "\<dots> = sum_list (map (\<lambda>i. sum_list (map (?c i) ?offs)) (words 0 8))" by (rule sum_list_swap)
  also have "\<dots> \<le> sum_list (map (\<lambda>i. nat_sum (map snd (run_accesses i chs))) (words 0 8))"
  proof (rule sum_list_mono)
    fix i
    have "sum_list (map (?c i) ?offs) \<le> sum_list (map (\<lambda>off. nat_sum (line_counts (run_accesses i chs) off)) ?offs)"
      by (intro sum_list_mono run_cells_nat_sum)
    also have "\<dots> \<le> nat_sum (map snd (run_accesses i chs))" by (rule line_counts_point [OF dist])
    finally show "sum_list (map (?c i) ?offs) \<le> nat_sum (map snd (run_accesses i chs))" .
  qed
  finally show ?thesis unfolding run_operations_lanes .
qed

text \<open>A planner of the RAM needs at most one locator per \<open>RAM_ROWS\<close> operations, half of the locators there are.\<close>

lemma run_locators:
  assumes "workers_read ws P (run_cells chs)" "bounded_run chs" "m \<le> n" "n \<le> 20"
  shows "rows_total (stream P (run_cells chs) m n) div 4194304 < 1024"
proof -
  have "rows_total (stream P (run_cells chs) m n) < 4294967296"
    using rows_total_run [OF assms(1,3,4)] assms(2) by (simp add: bounded_run_def)
  then show ?thesis by (simp add: div_less_iff_less_mult)
qed

lemma stream_nonzero:
  assumes "workers_read ws P (run_cells chs)" "bounded_run chs" "n \<le> 20"
  shows "\<forall>e\<in>set (stream P (run_cells chs) m n). e_count e \<noteq> 0"
proof
  fix e assume "e \<in> set (stream P (run_cells chs) m n)"
  then obtain off i where "(off, i) \<in> set (cells m n)" "e \<in> set (cell_entries P (run_cells chs) (off, i))"
    by (auto simp: stream_def simp del: cell_entries.simps)
  then obtain p where "i < 8" "(e_chunk e, e_count e) \<in> set (run_cells chs i off)"
    using in_cells [OF assms(3)] by (fastforce dest: set_zip_rightD)
  then show "e_count e \<noteq> 0" by (rule run_cells_nonzero [OF assms(2)])
qed

subsection \<open>The counters\<close>

lemma run_workers:
  assumes "context_holds ctx chs" "chunks_completed ctx"
    and "\<forall>i<8. execute ctx (mem_counter_new (slots0 i) (chunk0 i) i) = Some (Inr (ws ! unat i))" "length ws = 8"
  obtains P where "workers_read ws P (run_cells chs)"
proof -
  have "\<exists>P. reads_as (ws ! unat i) P (run_cells chs i)" if "i < 8" for i
  proof -
    have i: "i < MAX_THREADS" using that by simp
    from assms(3) that have "execute ctx (mem_counter_new (slots0 i) (chunk0 i) i) = Some (Inr (ws ! unat i))" by blast
    from holds_log_reads [OF execute_log(1) [OF assms(1,2) i this]] show ?thesis by (simp add: run_cells_def)
  qed
  then obtain P where "\<forall>i<8. reads_as (ws ! unat i) (P i) (run_cells chs i)" by metis
  then show ?thesis using assms(4) that by (simp add: workers_read_def)
qed

end
