(* ===== verification/Count_And_Plan.thy ===== *)
theory Count_And_Plan
  imports Counted_Stream
begin

text \<open>
  \<open>MemCountAndPlan\<close> of \<open>mem_count_and_plan.hpp\<close> and the run of the driver, \<open>MemTest::execute\<close>: the counters,
  the planners and the context, the two phases, and the segments they end with. Here the threads of a phase run one
  after the other, the counting after the last chunk is published; \<open>Count_Schedule\<close> and \<open>Plan_Schedule\<close> have the other orders.
\<close>

subsection \<open>State\<close>

text \<open>What the memory of the new objects holds where their constructors leave it alone.\<close>

record memory =
  mem_chunks :: "u32 \<Rightarrow> MemChunk"
  mem_locators :: "nat \<Rightarrow> MemLocator"
  mem_slots :: "u32 \<Rightarrow> u32 \<Rightarrow> u32"
  mem_current_chunk :: "u32 \<Rightarrow> u32"
  mem_last_addr :: u32

text \<open>\<open>locators\<close> is the member of that name of the context.\<close>

record MemCountAndPlan =
  cp_context :: MemContext
  cp_locators :: MemLocators
  count_workers :: "MemCounter list"
  mem_align_counter :: MemAlignCounter
  quick_mem_planner :: MemPlanner
  rom_data_planner :: ImmutableMemPlanner
  input_data_planner :: ImmutableMemPlanner
  plan_workers :: "MemPlanner list"

record plan_result =
  ram_segments :: MemSegments
  rom_segments :: MemSegments
  input_segments :: MemSegments

subsection \<open>Operations\<close>

definition prepare :: "memory \<Rightarrow> MemContext \<Rightarrow> MemLocators \<Rightarrow> MemCountAndPlan res" where
  "prepare mem ctx locators =
    (let workers = map (\<lambda>i. mem_counter_new (mem_slots mem i) (mem_current_chunk mem i) i) (words 0 (unat MAX_THREADS)) in
     bindE (immutable_new (mem_last_addr mem) ROM_ROWS 0x80000000 128) (\<lambda>rom.
     bindE (immutable_new (mem_last_addr mem) INPUT_ROWS 0x90000000 128) (\<lambda>input.
     bindE (mem_planner_new 0 RAM_ROWS 0xA0000000 512) (\<lambda>quick.
     bindE (foldE (\<lambda>i planners. bindE (mem_planner_new (i + 1) RAM_ROWS 0xA0000000 512) (\<lambda>pl. Inr (planners @ [pl])))
         (words 0 MAX_MEM_PLANNERS) []) (\<lambda>planners.
     Inr \<lparr>cp_context = ctx, cp_locators = locators, count_workers = workers, mem_align_counter = align_new MEM_ALIGN_ROWS,
       quick_mem_planner = quick, rom_data_planner = rom, input_data_planner = input, plan_workers = planners\<rparr>)))))"

definition create_mem_count_and_plan :: "memory \<Rightarrow> MemCountAndPlan res" where
  "create_mem_count_and_plan mem = prepare mem (context_new (mem_chunks mem)) (locators_new (mem_locators mem))"

definition cp_clear :: "MemCountAndPlan \<Rightarrow> MemCountAndPlan" where
  "cp_clear cp = cp\<lparr>cp_context := context_clear (cp_context cp)\<rparr>"

definition cp_add_chunk :: "MemChunk \<Rightarrow> MemCountAndPlan \<Rightarrow> MemCountAndPlan res" where
  "cp_add_chunk chunk cp = bindE (add_chunk chunk (cp_context cp)) (\<lambda>ctx. Inr (cp\<lparr>cp_context := ctx\<rparr>))"

definition cp_set_completed :: "MemCountAndPlan \<Rightarrow> MemCountAndPlan" where
  "cp_set_completed cp = cp\<lparr>cp_context := context_set_completed (cp_context cp)\<rparr>"

definition count_worker :: "MemContext \<Rightarrow> MemCounter \<Rightarrow> MemCounter list \<Rightarrow> MemCounter list run" where
  "count_worker ctx w counted = bindR (execute ctx w) (\<lambda>w. Some (Inr (counted @ [w])))"

definition count_phase :: "MemCountAndPlan \<Rightarrow> MemCountAndPlan run" where
  "count_phase cp =
    bindR (foldR (count_worker (cp_context cp)) (count_workers cp) []) (\<lambda>workers.
    bindR (align_execute (cp_context cp) (mem_align_counter cp)) (\<lambda>align.
    Some (Inr (cp\<lparr>count_workers := workers, mem_align_counter := align\<rparr>))))"

definition plan_worker ::
  "MemCounter list \<Rightarrow> MemPlanner \<Rightarrow> MemLocators \<times> MemSegments \<times> MemPlanner list \<Rightarrow>
    (MemLocators \<times> MemSegments \<times> MemPlanner list) run" where
  "plan_worker workers pl = (\<lambda>(locators, segments, planned).
    bindR (execute_from_locators workers locators segments pl) (\<lambda>(locators, segments, pl).
    Some (Inr (locators, segments, planned @ [pl]))))"

definition plan_phase :: "MemCountAndPlan \<Rightarrow> (plan_result \<times> MemCountAndPlan) run" where
  "plan_phase cp =
    (let workers = count_workers cp in
     bindR (generate_locators workers (cp_locators cp) (quick_mem_planner cp)) (\<lambda>(locators, quick).
     bindR (immutable_execute workers (rom_data_planner cp)) (\<lambda>rom.
     bindR (immutable_execute workers (input_data_planner cp)) (\<lambda>input.
     bindR (foldR (plan_worker workers) (plan_workers cp) (locators, Map.empty, [])) (\<lambda>(locators, ram, planners).
     let (rom_segs, rom) = collect_segments Map.empty rom; (input_segs, input) = collect_segments Map.empty input in
     Some (Inr (\<lparr>ram_segments = ram, rom_segments = rom_segs, input_segments = input_segs\<rparr>,
       cp\<lparr>cp_locators := locators, quick_mem_planner := quick, rom_data_planner := rom, input_data_planner := input,
         plan_workers := planners\<rparr>)))))))"

definition detach_execute :: "MemCountAndPlan \<Rightarrow> (plan_result \<times> MemCountAndPlan) run" where
  "detach_execute cp = bindR (count_phase cp) plan_phase"

text \<open>\<open>MemTest::execute\<close> on the chunks \<open>load\<close> kept.\<close>

definition mem_test_execute :: "memory \<Rightarrow> MemTest \<Rightarrow> (plan_result \<times> MemCountAndPlan) run" where
  "mem_test_execute mem chs =
    bindR (Some (create_mem_count_and_plan mem)) (\<lambda>cp.
    bindR (Some (foldE cp_add_chunk chs cp)) (\<lambda>cp.
    detach_execute (cp_set_completed cp)))"

text \<open>\<open>main\<close>: load the compact files, and run.\<close>

definition main :: "memory \<Rightarrow> (nat \<Rightarrow> file_read) \<Rightarrow> (plan_result \<times> MemCountAndPlan) run" where
  "main mem files = bindR (Some (load files)) (\<lambda>l. mem_test_execute mem (ld_chunks l))"

subsection \<open>The phases\<close>

lemma immutable_pages: "planner_pages 0x80000000 128 = Inr (0, 1)" "planner_pages 0x90000000 128 = Inr (2, 3)"
  by (simp_all add: planner_pages_def addr_to_page_eq window_page_def page_to_addr_def)

lemma foldE_collect:
  assumes "\<And>x. f x = Inr (g x)"
  shows "foldE (\<lambda>x ys. bindE (f x) (\<lambda>y. Inr (ys @ [y]))) xs ys = Inr (ys @ map g xs)"
  using assms by (induction xs arbitrary: ys) simp_all

text \<open>Preparing never fails: the pages of the RAM, the ROM and the input are there.\<close>

lemma prepare_returns:
  obtains cp where "prepare mem ctx locators = Inr cp" "cp_context cp = ctx" "cp_locators cp = locators"
    "count_workers cp = map (\<lambda>i. mem_counter_new (mem_slots mem i) (mem_current_chunk mem i) i) (words 0 8)"
    "mem_align_counter cp = align_new (of_nat 4194304)"
    "mem_planner_new 0 (of_nat 4194304) 0xA0000000 512 = Inr (quick_mem_planner cp)"
    "immutable_new (mem_last_addr mem) (of_nat 2097152) 0x80000000 128 = Inr (rom_data_planner cp)"
    "immutable_new (mem_last_addr mem) (of_nat 2097152) 0x90000000 128 = Inr (input_data_planner cp)"
    "\<forall>pl\<in>set (plan_workers cp). \<exists>j. mem_planner_new j (of_nat 4194304) 0xA0000000 512 = Inr pl"
    "length (plan_workers cp) = 16"
proof -
  obtain p where p: "\<And>j. mem_planner_new j RAM_ROWS 0xA0000000 512 = Inr (p j)"
    by (simp add: mem_planner_new_def ram_pages)
  obtain r0 r1 where r: "immutable_new (mem_last_addr mem) ROM_ROWS 0x80000000 128 = Inr r0"
    "immutable_new (mem_last_addr mem) INPUT_ROWS 0x90000000 128 = Inr r1"
    by (simp add: immutable_new_def immutable_pages)
  let ?cp = "\<lparr>cp_context = ctx, cp_locators = locators,
    count_workers = map (\<lambda>i. mem_counter_new (mem_slots mem i) (mem_current_chunk mem i) i) (words 0 8),
    mem_align_counter = align_new MEM_ALIGN_ROWS, quick_mem_planner = p 0, rom_data_planner = r0,
    input_data_planner = r1, plan_workers = map (\<lambda>i. p (i + 1)) (words 0 MAX_MEM_PLANNERS)\<rparr>"
  have "prepare mem ctx locators = Inr ?cp"
    unfolding prepare_def Let_def p r bindE.simps
    using foldE_collect [of "\<lambda>i. Inr (p (i + 1))" "\<lambda>i. p (i + 1)" "words 0 MAX_MEM_PLANNERS" "[]"] by simp
  then show ?thesis
    using p r by (intro that [of ?cp]) (auto simp: words_def)
qed

subsection \<open>The count phase\<close>

lemma foldR_collect:
  assumes "\<And>x. x \<in> set xs \<Longrightarrow> f x = Some (Inr (g x))"
  shows "foldR (\<lambda>x ys. bindR (f x) (\<lambda>y. Some (Inr (ys @ [y])))) xs ys = Some (Inr (ys @ map g xs))"
  using assms by (induction xs arbitrary: ys) simp_all

definition mapped_chunks :: "MemChunk list \<Rightarrow> bool" where
  "mapped_chunks chs \<longleftrightarrow> (\<forall>ds\<in>set chs. \<forall>d\<in>set ds. \<forall>(a, n)\<in>set (accesses d). mapped a)"

lemma run_accesses_mapped:
  assumes "mapped_chunks chs"
  shows "\<forall>(a, n)\<in>set (run_accesses i chs). line a \<noteq> None"
proof -
  have "mapped a" if "(a, n) \<in> set (run_accesses i chs)" for a n
    using that assms by (fastforce simp: run_accesses_def lane_accesses_def mapped_chunks_def)
  then show ?thesis by (fastforce simp: line_def mapped_iff addr_to_offset_eq split: option.splits)
qed

lemma count_phase_returns:
  assumes "context_holds (cp_context cp) chs" "chunks_completed (cp_context cp)"
    and "count_workers cp = map (\<lambda>i. mem_counter_new (slots0 i) (chunk0 i) i) (words 0 8)"
    and "mem_align_counter cp = align_new (of_nat R)" "5 \<le> R" "R < 4294967296"
    and "bounded_run chs" "mapped_chunks chs"
  shows "\<exists>ws m G P. count_phase cp = Some (Inr (cp\<lparr>count_workers := ws, mem_align_counter := m\<rparr>)) \<and>
    workers_read ws P (run_cells chs) \<and>
    (\<forall>i<8. execute (cp_context cp) (mem_counter_new (slots0 i) (chunk0 i) i) = Some (worker ws i)) \<and>
    packs R m G \<and> concat (concat G) = items chs"
proof -
  let ?w = "\<lambda>i. mem_counter_new (slots0 i) (chunk0 i) i"
  have "\<exists>w'. execute (cp_context cp) (?w i) = Some (Inr w')" if "i < 8" for i
    using assms(7) that by (intro execute_total [OF assms(1,2) _ run_accesses_mapped [OF assms(8)]])
      (auto simp: bounded_run_def simp flip: blocks_needed_eq)
  then obtain w' where w': "\<forall>i<8. execute (cp_context cp) (?w i) = Some (Inr (w' i))" by metis
  let ?ws = "map w' (words 0 8)"
  have "i < 8" if "i \<in> set (words 0 8)" for i using that by (auto simp: in_words word_less_nat_alt)
  then have workers: "foldR (count_worker (cp_context cp)) (count_workers cp) [] = Some (Inr ?ws)"
    using foldR_collect [of "words 0 8" "\<lambda>i. execute (cp_context cp) (?w i)" w' "[]"] w'
    by (simp add: assms(3) foldR_map count_worker_def [abs_def])
  have nth: "?ws ! unat i = w' i" if "i < 8" for i :: u32
    using that by (simp add: words_def word_less_nat_alt)
  then have ran: "\<forall>i<8. execute (cp_context cp) (?w i) = Some (worker ?ws i)"
    using w' by (simp add: worker_def word_less_nat_alt words_def)
  obtain P where P: "workers_read ?ws P (run_cells chs)"
    by (rule run_workers [OF assms(1,2), of slots0 chunk0 ?ws]) (use w' nth in \<open>simp_all add: words_def\<close>)
  obtain m G where align: "align_execute (cp_context cp) (align_new (of_nat R)) = Some (Inr m)" "packs R m G"
    "concat (concat G) = items chs"
    using align_execute_packs [OF assms(1,2,5,6)] assms(7) by (auto simp: bounded_run_def plain_op_def)
  then show ?thesis
    using P ran by (intro exI [of _ ?ws] exI [of _ m] exI [of _ G] exI [of _ P])
      (simp add: count_phase_def workers assms(4))
qed

subsection \<open>The plan phase\<close>

text \<open>\<open>collect_segments\<close> numbers the segments.\<close>

definition segments_numbered :: "MemSegment list \<Rightarrow> MemSegments" where
  "segments_numbered ss = map_of (rev (numbered (map Some ss)))"

lemma collect_segments_numbered:
  "collect_segments Map.empty pl = (segments_numbered (im_segments pl), pl\<lparr>im_segments := []\<rparr>)"
proof -
  have "fold (\<lambda>s (ss, k). (segments_set k (Some s) ss, k + 1)) xs (Map.empty, 0) =
      (segments_numbered xs, of_nat (length xs))" for xs
    by (induction xs rule: rev_induct)
      (simp_all add: segments_numbered_def numbered_snoc segments_set_def add.commute)
  then show ?thesis by (simp add: collect_segments_def)
qed

text \<open>Planners that find the queue empty and complete leave everything as it is.\<close>

lemma plan_workers_idle:
  assumes "read_pos q = length (pushed q)" "loc_completed q"
  shows "foldR (plan_worker ws) pls (q, segs, planned) = Some (Inr (q, segs, planned @ pls))"
proof -
  have "execute_from_locators ws q segs pl = Some (Inr (q, segs, pl))" for pl
    using get_next_locator_none [OF assms] by (subst execute_from_locators.simps) simp
  then show ?thesis by (induction pls arbitrary: planned) (simp_all add: plan_worker_def)
qed

text \<open>What the plan of a region of the ROM or the input contains.\<close>

definition region_plan :: "nat \<Rightarrow> u32 \<Rightarrow> stream_entry list \<Rightarrow> MemSegments \<Rightarrow> bool" where
  "region_plan R a es segs \<longleftrightarrow> (\<exists>G. segs = segments_numbered (map (segment_spec 0) G) \<and>
    length G = (length (tape a es) + R - 1) div R \<and> map groups_rows G = map (segment_rows R (tape a es)) [0..<length G] \<and>
    somes (tape a es) = stream_rows es)"

lemma region_returns:
  assumes "workers_read ws P (run_cells chs)" "bounded_run chs" "immutable_new last0 (of_nat R) a mb = Inr pl"
    and "planner_pages a mb = Inr (of_nat m, of_nat n)" "m \<le> n" "n \<le> 20" "0 < R" "R < 4294967296"
  shows "\<exists>pl'. immutable_execute ws pl = Some (Inr pl') \<and>
    region_plan R a (stream P (run_cells chs) m n) (segments_numbered (im_segments pl'))"
proof -
  have pages: "unat (im_from_page pl) = m" "unat (im_to_page pl) = n"
    using assms(3-6) by (auto simp: immutable_new_def)
  have "\<forall>e\<in>set (stream P (run_cells chs) m n). e_count e \<noteq> 0"
    using assms(1,2,6) by (rule stream_nonzero)
  then show ?thesis
    using immutable_plan [OF assms(1,7,8,3) refl] unfolding pages region_plan_def by fastforce
qed

lemma plan_phase_returns:
  assumes "workers_read (count_workers cp) P (run_cells chs)" "bounded_run chs" "cp_locators cp = locators_new tbl"
    and "mem_planner_new 0 (of_nat 4194304) 0xA0000000 512 = Inr (quick_mem_planner cp)"
    and "immutable_new l0 (of_nat 2097152) 0x80000000 128 = Inr (rom_data_planner cp)"
    and "immutable_new l0 (of_nat 2097152) 0x90000000 128 = Inr (input_data_planner cp)"
    and "\<forall>pl\<in>set (plan_workers cp). \<exists>j. mem_planner_new j (of_nat 4194304) 0xA0000000 512 = Inr pl"
    and "length (plan_workers cp) = 16"
  shows "\<exists>r cp'. plan_phase cp = Some (Inr (r, cp')) \<and> mem_align_counter cp' = mem_align_counter cp \<and>
    cp_context cp' = cp_context cp \<and> count_workers cp' = count_workers cp \<and>
    ram_plan 4194304 (stream P (run_cells chs) 4 11) (ram_segments r) \<and>
    region_plan 2097152 0x80000000 (stream P (run_cells chs) 0 1) (rom_segments r) \<and>
    region_plan 2097152 0x90000000 (stream P (run_cells chs) 2 3) (input_segments r)"
proof -
  let ?ws = "count_workers cp" and ?es = "stream P (run_cells chs) 4 11"
  obtain pl pls where pls: "plan_workers cp = pl # pls" using assms(8) by (cases "plan_workers cp") auto
  then obtain j where j: "mem_planner_new j (of_nat 4194304) 0xA0000000 512 = Inr pl" using assms(7) by auto
  have pages: "unat (pl_from_page (quick_mem_planner cp)) = 4" "unat (pl_to_page (quick_mem_planner cp)) = 11"
    using mem_planner_newD(3) [OF assms(4)] by (simp_all add: ram_pages)
  have fits: "rows_total ?es div 4194304 < MAX_LOCATORS" using run_locators [OF assms(1,2), of 4 11] by simp
  obtain q quick q' pl' segs where gen: "generate_locators ?ws (cp_locators cp) (quick_mem_planner cp) = Some (Inr (q, quick))"
    and run: "execute_from_locators ?ws q Map.empty pl = Some (Inr (q', segs, pl'))"
    and fin: "read_pos q' = length (pushed q')" "loc_completed q'" and ram: "ram_plan 4194304 ?es segs"
    using ram_plan_segments [OF assms(1) _ _ assms(4) j refl, of tbl] fits
    unfolding pages assms(3) by fastforce
  obtain rom where rom: "immutable_execute ?ws (rom_data_planner cp) = Some (Inr rom)"
    "region_plan 2097152 0x80000000 (stream P (run_cells chs) 0 1) (segments_numbered (im_segments rom))"
    using region_returns [OF assms(1,2,5), of 0 1] by (auto simp: immutable_pages)
  obtain input where input: "immutable_execute ?ws (input_data_planner cp) = Some (Inr input)"
    "region_plan 2097152 0x90000000 (stream P (run_cells chs) 2 3) (segments_numbered (im_segments input))"
    using region_returns [OF assms(1,2,6), of 2 3] by (auto simp: immutable_pages)
  have "foldR (plan_worker ?ws) (plan_workers cp) (q, Map.empty, []) = Some (Inr (q', segs, [pl'] @ pls))"
    using plan_workers_idle [OF fin, of ?ws pls segs "[pl']"] by (simp add: pls plan_worker_def run)
  then show ?thesis
    using gen rom input ram by (simp add: plan_phase_def Let_def collect_segments_numbered)
qed

subsection \<open>The run\<close>

lemma add_chunks:
  assumes "context_holds (cp_context cp) pre" "length pre + length chs \<le> 8192"
  shows "\<exists>ctx. foldE cp_add_chunk chs cp = Inr (cp\<lparr>cp_context := ctx\<rparr>) \<and> context_holds ctx (pre @ chs)"
  using assms
proof (induction chs arbitrary: cp pre)
  case Nil
  then show ?case by (intro exI [of _ "cp_context cp"]) simp
next
  case (Cons d chs)
  then obtain ctx where 1: "add_chunk d (cp_context cp) = Inr ctx" "context_holds ctx (pre @ [d])"
    using context_holds_add [of "cp_context cp" pre d] by auto
  then obtain ctx' where "foldE cp_add_chunk chs (cp\<lparr>cp_context := ctx\<rparr>) = Inr (cp\<lparr>cp_context := ctx'\<rparr>)"
    "context_holds ctx' (pre @ d # chs)"
    using Cons.IH [of "cp\<lparr>cp_context := ctx\<rparr>" "pre @ [d]"] Cons.prems(2) by auto
  moreover have "cp_add_chunk d cp = Inr (cp\<lparr>cp_context := ctx\<rparr>)" using 1 by (simp add: cp_add_chunk_def)
  ultimately show ?case by (intro exI [of _ ctx']) simp
qed

lemma count_and_plan_details:
  assumes "length chs \<le> unat MAX_CHUNKS" "bounded_run chs" "mapped_chunks chs"
  shows "\<exists>r cp P G. mem_test_execute mem chs = Some (Inr (r, cp)) \<and>
    context_holds (cp_context cp) chs \<and> chunks_completed (cp_context cp) \<and>
    (\<forall>i<8. execute (cp_context cp) (mem_counter_new (mem_slots mem i) (mem_current_chunk mem i) i) =
      Some (worker (count_workers cp) i)) \<and> workers_read (count_workers cp) P (run_cells chs) \<and>
    ram_plan (unat RAM_ROWS) (stream P (run_cells chs) 4 11) (ram_segments r) \<and>
    region_plan (unat ROM_ROWS) 0x80000000 (stream P (run_cells chs) 0 1) (rom_segments r) \<and>
    region_plan (unat INPUT_ROWS) 0x90000000 (stream P (run_cells chs) 2 3) (input_segments r) \<and>
    division (unat MEM_ALIGN_ROWS) G \<and> concat (concat G) = items chs \<and>
    align_checkpoints (mem_align_counter cp) = checkpoints_of G"
proof -
  obtain cp where cp: "prepare mem (context_new (mem_chunks mem)) (locators_new (mem_locators mem)) = Inr cp"
    "cp_context cp = context_new (mem_chunks mem)" "cp_locators cp = locators_new (mem_locators mem)"
    and workers: "count_workers cp = map (\<lambda>i. mem_counter_new (mem_slots mem i) (mem_current_chunk mem i) i) (words 0 8)"
      "mem_align_counter cp = align_new (of_nat 4194304)"
    and planners: "mem_planner_new 0 (of_nat 4194304) 0xA0000000 512 = Inr (quick_mem_planner cp)"
      "immutable_new (mem_last_addr mem) (of_nat 2097152) 0x80000000 128 = Inr (rom_data_planner cp)"
      "immutable_new (mem_last_addr mem) (of_nat 2097152) 0x90000000 128 = Inr (input_data_planner cp)"
      "\<forall>pl\<in>set (plan_workers cp). \<exists>j. mem_planner_new j (of_nat 4194304) 0xA0000000 512 = Inr pl"
      "length (plan_workers cp) = 16" by (rule prepare_returns)
  have "context_holds (cp_context cp) []" by (simp add: cp(2) context_holds_new)
  then obtain ctx where ctx: "foldE cp_add_chunk chs cp = Inr (cp\<lparr>cp_context := ctx\<rparr>)" "context_holds ctx chs"
    using add_chunks [of cp "[]" chs] assms(1) by auto
  let ?cp = "cp_set_completed (cp\<lparr>cp_context := ctx\<rparr>)"
  have held: "context_holds (cp_context ?cp) chs" "chunks_completed (cp_context ?cp)"
    using ctx(2) by (simp_all add: cp_set_completed_def context_set_completed_def context_holds_def)
  have same: "count_workers ?cp = count_workers cp" "mem_align_counter ?cp = mem_align_counter cp"
    by (simp_all add: cp_set_completed_def)
  from count_phase_returns [OF held, unfolded same, OF workers _ _ assms(2,3)]
  obtain ws m G P where count: "count_phase ?cp = Some (Inr (?cp\<lparr>count_workers := ws, mem_align_counter := m\<rparr>))"
    and ran: "\<forall>i<8. execute (cp_context ?cp) (mem_counter_new (mem_slots mem i) (mem_current_chunk mem i) i) =
      Some (worker ws i)"
    and ws: "workers_read ws P (run_cells chs)" and G: "packs 4194304 m G" "concat (concat G) = items chs" by auto
  let ?cp2 = "?cp\<lparr>count_workers := ws, mem_align_counter := m\<rparr>"
  have fields: "cp_context ?cp2 = cp_context ?cp" "count_workers ?cp2 = ws" "mem_align_counter ?cp2 = m" "cp_locators ?cp2 = cp_locators cp"
    "quick_mem_planner ?cp2 = quick_mem_planner cp" "rom_data_planner ?cp2 = rom_data_planner cp"
    "input_data_planner ?cp2 = input_data_planner cp" "plan_workers ?cp2 = plan_workers cp"
    by (simp_all add: cp_set_completed_def)
  obtain r cp' where plan: "plan_phase ?cp2 = Some (Inr (r, cp'))" "mem_align_counter cp' = m" "cp_context cp' = cp_context ?cp" "count_workers cp' = ws"
    "ram_plan 4194304 (stream P (run_cells chs) 4 11) (ram_segments r)"
    "region_plan 2097152 0x80000000 (stream P (run_cells chs) 0 1) (rom_segments r)"
    "region_plan 2097152 0x90000000 (stream P (run_cells chs) 2 3) (input_segments r)"
    using plan_phase_returns [of ?cp2 P chs "mem_locators mem" "mem_last_addr mem", unfolded fields, OF ws assms(2) cp(3) planners]
    by blast
  have "mem_test_execute mem chs = Some (Inr (r, cp'))"
    by (simp add: mem_test_execute_def create_mem_count_and_plan_def cp(1) ctx(1) detach_execute_def count plan(1))
  then show ?thesis
    using ws held ran G plan(2-7) by (intro exI [of _ r] exI [of _ cp'] exI [of _ P] exI [of _ G]) (simp add: packs_def)
qed

lemma count_and_plan_run:
  assumes "length chs \<le> unat MAX_CHUNKS" "bounded_run chs" "mapped_chunks chs"
  shows "\<exists>r cp P G. mem_test_execute mem chs = Some (Inr (r, cp)) \<and> workers_read (count_workers cp) P (run_cells chs) \<and>
    ram_plan (unat RAM_ROWS) (stream P (run_cells chs) 4 11) (ram_segments r) \<and>
    region_plan (unat ROM_ROWS) 0x80000000 (stream P (run_cells chs) 0 1) (rom_segments r) \<and>
    region_plan (unat INPUT_ROWS) 0x90000000 (stream P (run_cells chs) 2 3) (input_segments r) \<and>
    division (unat MEM_ALIGN_ROWS) G \<and> concat (concat G) = items chs \<and>
    align_checkpoints (mem_align_counter cp) = checkpoints_of G"
  using count_and_plan_details [OF assms, of mem] by meson

subsection \<open>Properties\<close>

text \<open>
  C1: The whole program. For at most \<open>MAX_CHUNKS\<close> chunks of operations of accepted widths at mapped addresses, whose
  entries fit in the blocks of each thread and whose number fits in 32 bits, the run ends without an error: the counters hold what the planners
  see of the chunks (\<open>run_cells\<close>), the segments of the RAM hold the rows of its planned pages, once, in order and
  \<open>RAM_ROWS\<close> per segment, those of the ROM and of the input lay out theirs with the gaps, and the check points of the
  alignment counter divide the unaligned operations.
\<close>

theorem count_and_plan_result:
  assumes "length chs \<le> unat MAX_CHUNKS" "bounded_run chs" "mapped_chunks chs"
  shows "\<exists>r cp P G. mem_test_execute mem chs = Some (Inr (r, cp)) \<and> workers_read (count_workers cp) P (run_cells chs) \<and>
    ram_plan (unat RAM_ROWS) (stream P (run_cells chs) 4 11) (ram_segments r) \<and>
    region_plan (unat ROM_ROWS) 0x80000000 (stream P (run_cells chs) 0 1) (rom_segments r) \<and>
    region_plan (unat INPUT_ROWS) 0x90000000 (stream P (run_cells chs) 2 3) (input_segments r) \<and>
    division (unat MEM_ALIGN_ROWS) G \<and> concat (concat G) = items chs \<and>
    align_checkpoints (mem_align_counter cp) = checkpoints_of G"
  using assms by (rule count_and_plan_run)

definition zero_memory :: memory where
  "zero_memory = \<lparr>mem_chunks = (\<lambda>_. []), mem_locators = (\<lambda>_. loc1), mem_slots = (\<lambda>_ _. 0), mem_current_chunk = (\<lambda>_. 0),
    mem_last_addr = 0\<rparr>"

text \<open>A chunk of one read of the first word of the RAM.\<close>

lemma one_access_run:
  "bounded_run [[\<lparr>bus_addr = 0xA0000000, bus_flags = 8\<rparr>]]" "mapped_chunks [[\<lparr>bus_addr = 0xA0000000, bus_flags = 8\<rparr>]]"
  "run_cells [[\<lparr>bus_addr = 0xA0000000, bus_flags = 8\<rparr>]] = one_entry 0x400000 0 1"
proof -
  let ?chs = "[[\<lparr>bus_addr = 0xA0000000, bus_flags = 8\<rparr>]] :: MemChunk list"
  have acc: "accesses \<lparr>bus_addr = 0xA0000000, bus_flags = 8\<rparr> = [(0xA0000000, 1)]"
    by (simp add: accesses_def op_bytes_def)
  have lane: "lane_accesses i (hd ?chs) = (if i = 0 then [(0xA0000000, 1)] else [])" for i
    by (auto simp: lane_accesses_def acc lane_def)
  show "bounded_run ?chs"
    using lane ctx8_line
    by (auto simp: bounded_run_def plain_op_def valid_bytes_def run_accesses_def run_operations_def acc blocks_needed_def
        touched_def chunk_log_def numbered_def chunk_entry_def line_counts_def Let_def)
  show "mapped_chunks ?chs" by (simp add: mapped_chunks_def acc mapped_def)
  show "run_cells ?chs = one_entry 0x400000 0 1"
    using lane ctx8_line
    by (auto simp: run_cells_def seen_def chunk_log_def numbered_def chunk_entry_def line_counts_def Let_def fun_eq_iff)
qed

lemma one_access_stream:
  assumes "workers_read ws P (one_entry 0x400000 0 1)"
  obtains p where "stream P (one_entry 0x400000 0 1) 4 11 =
    [\<lparr>e_thread = 0, e_offset = 0x400000, e_pos = p, e_chunk = 0, e_count = 1\<rparr>]"
proof -
  have "offset_to_page 0x400000 = of_nat 4" by (simp add: offset_to_page_words)
  then show ?thesis using stream_one_entry [OF assms, of 11 4] that by force
qed

lemma one_access_plan:
  assumes "workers_read ws P (one_entry 0x400000 0 1)"
    and "ram_plan (unat RAM_ROWS) (stream P (one_entry 0x400000 0 1) 4 11) segs"
  shows "\<exists>gs x. segs 0 = Some (Some (segment_spec x gs)) \<and> groups_rows gs = [(0, 0xA0000000, 0)]"
proof -
  obtain p where st: "stream P (one_entry 0x400000 0 1) 4 11 =
      [\<lparr>e_thread = 0, e_offset = 0x400000, e_pos = p, e_chunk = 0, e_count = 1\<rparr>]"
    using one_access_stream [OF assms(1)] .
  have addr: "cell_addr (0x400000, 0) = 0xA0000000"
    by (simp add: cell_addr.simps offset_to_addr_def page_to_addr_def)
  from assms(2) [unfolded ram_plan_def st] obtain G x where
    G: "segs = (\<lambda>w. if unat w < length G then Some (Some (segment_spec (x (unat w)) (G ! unat w))) else None)"
    "length G = 1" "concat (map groups_rows G) = [(0, 0xA0000000, 0)]"
    by (auto simp: stream_rows_def groups_rows_def group_rows_def group_of_def addr)
  then obtain gs where "G = [gs]" by (auto simp: length_Suc_conv)
  then show ?thesis using G by (intro exI [of _ gs] exI [of _ "x 0"]) simp
qed

theorem count_and_plan_result_witness:
  "\<exists>r cp gs x. mem_test_execute zero_memory [[\<lparr>bus_addr = 0xA0000000, bus_flags = 8\<rparr>]] = Some (Inr (r, cp)) \<and>
    ram_segments r 0 = Some (Some (segment_spec x gs)) \<and> groups_rows gs = [(0, 0xA0000000, 0)]"
proof -
  let ?chs = "[[\<lparr>bus_addr = 0xA0000000, bus_flags = 8\<rparr>]] :: MemChunk list"
  obtain r cp P where run: "mem_test_execute zero_memory ?chs = Some (Inr (r, cp))"
    and ws: "workers_read (count_workers cp) P (one_entry 0x400000 0 1)"
    and ram: "ram_plan (unat RAM_ROWS) (stream P (one_entry 0x400000 0 1) 4 11) (ram_segments r)"
    using count_and_plan_result [OF _ one_access_run(1,2), of zero_memory] unfolding one_access_run by auto
  from one_access_plan [OF ws ram] run show ?thesis by blast
qed

text \<open>
  C31: From the files to the plan. If the compact files hold operations of accepted widths at mapped addresses (the first
  of them has one, and it does not look like the old format), the program ends without an error, and its segments are
  those of the operations in the files, up to the first file that cannot be read.
\<close>

theorem main_plans_files:
  assumes "compact_files files 0 = (d # ds) # rest" "bus_flags d AND 0xF000000 = 0"
    and "bounded_run ((d # ds) # rest)" "mapped_chunks ((d # ds) # rest)"
  shows "\<exists>r cp P. main mem files = Some (Inr (r, cp)) \<and> workers_read (count_workers cp) P (run_cells ((d # ds) # rest)) \<and>
    ram_plan (unat RAM_ROWS) (stream P (run_cells ((d # ds) # rest)) 4 11) (ram_segments r) \<and>
    region_plan (unat ROM_ROWS) 0x80000000 (stream P (run_cells ((d # ds) # rest)) 0 1) (rom_segments r) \<and>
    region_plan (unat INPUT_ROWS) 0x90000000 (stream P (run_cells ((d # ds) # rest)) 2 3) (input_segments r)"
proof -
  let ?chs = "(d # ds) # rest"
  have keep: "keep_ops False = (\<lambda>ds. ds)" by (simp add: keep_ops_def fun_eq_iff)
  have load: "\<exists>l. load files = Inr l \<and> ld_chunks l = ?chs"
    unfolding load_result_eq assms(1) by (simp add: assms(2) keep Let_def del: length_concat)
  have "length ?chs \<le> unat MAX_CHUNKS" using available_length unfolding assms(1) [symmetric] .
  from count_and_plan_run [OF this assms(3,4), of mem] load show ?thesis by (auto simp: main_def)
qed

theorem main_plans_files_witness:
  "\<exists>r cp. main zero_memory
    (\<lambda>k. if k = 0 then Contents 8 (op_file_bytes \<lparr>bus_addr = 0xA0000000, bus_flags = 8\<rparr>) [] else Failed) = Some (Inr (r, cp))"
proof -
  let ?d = "\<lparr>bus_addr = 0xA0000000, bus_flags = 8\<rparr>"
  let ?files = "\<lambda>k :: nat. if k = 0 then Contents 8 (op_file_bytes ?d) [] else Failed"
  have "load_from_compact_file (?files k) = (if k < length [[?d]] then Some (id ([[?d]] ! k)) else None)" for k
    using load_complete [of "[?d]" "[]"] by (simp add: load_from_compact_file_def [of Failed])
  then have files: "compact_files ?files 0 = [[?d]]"
    using available_list [of "[[?d]]" "unat MAX_CHUNKS" id] by simp
  have "bounded_run [[?d]]" "mapped_chunks [[?d]]" by (rule one_access_run)+
  then show ?thesis using main_plans_files [OF files, of zero_memory] by (simp del: config_values) blast
qed

text \<open>
  C32: The locators always fit. On the counters of a run that fits the blocks and the 32-bit counts, the planner of the
  RAM pushes at most half of the \<open>MAX_LOCATORS\<close> locators.
\<close>

theorem locators_fit:
  assumes "workers_read ws P (run_cells chs)" "bounded_run chs" "mem_planner_new i RAM_ROWS 0xA0000000 512 = Inr pl"
  shows "\<exists>q pl'. generate_locators ws (locators_new tbl) pl = Some (Inr (q, pl')) \<and> length (pushed q) \<le> 1024 \<and> loc_completed q"
proof -
  have new: "mem_planner_new i (of_nat 4194304) 0xA0000000 512 = Inr pl" using assms(3) by simp
  note pl = mem_planner_newD [OF new]
  have pages: "unat (pl_from_page pl) = 4" "unat (pl_to_page pl) = 11" using pl(3) by (simp_all add: ram_pages)
  let ?es = "stream P (run_cells chs) 4 11"
  have fits: "rows_total ?es div 4194304 < 1024" using run_locators [OF assms(1,2), of 4 11] by simp
  have "length (locators_of P 4194304 ?es) \<le> 1024" using length_locators_of [of 4194304 P ?es] fits by (simp split: if_splits)
  then show ?thesis
    using generate_locators_stream [OF assms(1), of pl 4194304 ?es "locators_new tbl"] pl(1) fits
    by (auto simp: pages ready_def simp del: length_pushed)
qed

theorem locators_fit_witness:
  "\<exists>ws pl q pl'. mem_planner_new 0 RAM_ROWS 0xA0000000 512 = Inr pl \<and>
    generate_locators ws (locators_new (\<lambda>_. loc1)) pl = Some (Inr (q, pl')) \<and> length (pushed q) \<le> 1024"
proof -
  have "addr_to_offset 0xA0000000 0 = Inr 0x400000" by (simp add: addr_to_offset_eq window_page_def)
  then obtain ws P where "workers_read ws P (one_entry 0x400000 0 1)" by (rule one_entry_workers)
  then have ws: "workers_read ws P (run_cells [[\<lparr>bus_addr = 0xA0000000, bus_flags = 8\<rparr>]])"
    unfolding one_access_run .
  obtain pl where pl: "mem_planner_new 0 RAM_ROWS 0xA0000000 512 = Inr pl" by (simp add: mem_planner_new_def ram_pages)
  from locators_fit [OF ws one_access_run(1) pl] pl show ?thesis by blast
qed

end
