(* ===== verification/Run_Handle.thy ===== *)
theory Run_Handle
  imports Count_And_Plan
begin

text \<open>
  The object behind the C functions of \<open>mem_count_and_plan.hpp\<close>, with what \<open>MemCountAndPlan\<close> of \<open>Count_And_Plan\<close> leaves
  out: the pointer to the thread that \<open>execute\<close> starts and \<open>wait\<close> joins, and \<open>plan_threads\<close>, the member with the planners'
  threads, which nothing clears. The driver's calls on it are the run of \<open>Count_And_Plan\<close>; a second run on the same object
  cannot succeed. The thread does its work at the \<open>wait\<close>, as in that theory.
\<close>

subsection \<open>State\<close>

datatype thread_pointer = Unset | Null | Thread

text \<open>\<open>plan_threads\<close> has for each thread whether it can still be joined.\<close>

record run_handle =
  rh_cp :: MemCountAndPlan
  parallel_execute :: thread_pointer
  plan_threads :: "bool list"

subsection \<open>Operations\<close>

fun join_all :: "bool list \<Rightarrow> bool list res" where
  "join_all [] = Inr []"
| "join_all (joinable # ts) = (if joinable then bindE (join_all ts) (\<lambda>ts. Inr (False # ts)) else Inl Not_joinable)"

definition rh_create :: "memory \<Rightarrow> run_handle res" where
  "rh_create mem = bindE (create_mem_count_and_plan mem) (\<lambda>cp.
    Inr \<lparr>rh_cp = cp, parallel_execute = Unset, plan_threads = []\<rparr>)"

text \<open>\<open>prepare\<close> on an object that was used before: new counters and planners, the old context and threads.\<close>

definition rh_prepare :: "memory \<Rightarrow> run_handle \<Rightarrow> run_handle res" where
  "rh_prepare mem h = bindE (prepare mem (cp_context (rh_cp h)) (cp_locators (rh_cp h))) (\<lambda>cp. Inr (h\<lparr>rh_cp := cp\<rparr>))"

definition rh_clear :: "run_handle \<Rightarrow> run_handle" where
  "rh_clear h = h\<lparr>rh_cp := cp_clear (rh_cp h)\<rparr>"

definition rh_add_chunk :: "MemChunk \<Rightarrow> run_handle \<Rightarrow> run_handle res" where
  "rh_add_chunk chunk h = bindE (cp_add_chunk chunk (rh_cp h)) (\<lambda>cp. Inr (h\<lparr>rh_cp := cp\<rparr>))"

definition rh_set_completed :: "run_handle \<Rightarrow> run_handle" where
  "rh_set_completed h = h\<lparr>rh_cp := cp_set_completed (rh_cp h)\<rparr>"

definition rh_execute :: "run_handle \<Rightarrow> run_handle" where
  "rh_execute h = h\<lparr>parallel_execute := Thread\<rparr>"

text \<open>\<open>plan_phase\<close> with its three planners in \<open>plan_threads\<close>, joined with whatever is there.\<close>

definition rh_plan_phase :: "run_handle \<Rightarrow> (plan_result \<times> run_handle) run" where
  "rh_plan_phase h =
    bindR (plan_phase (rh_cp h)) (\<lambda>(r, cp).
    bindR (Some (join_all (plan_threads h @ [True, True, True]))) (\<lambda>ts.
    Some (Inr (r, h\<lparr>rh_cp := cp, plan_threads := ts\<rparr>))))"

definition rh_detach_execute :: "run_handle \<Rightarrow> (plan_result \<times> run_handle) run" where
  "rh_detach_execute h = bindR (count_phase (rh_cp h)) (\<lambda>cp. rh_plan_phase (h\<lparr>rh_cp := cp\<rparr>))"

text \<open>\<open>wait\<close> on a pointer that is null or was never set is the error \<open>Null_pointer\<close>.\<close>

definition rh_wait :: "run_handle \<Rightarrow> (plan_result \<times> run_handle) run" where
  "rh_wait h =
    (if parallel_execute h = Thread
     then bindR (rh_detach_execute h) (\<lambda>(r, h). Some (Inr (r, h\<lparr>parallel_execute := Null\<rparr>)))
     else Some (Inl Null_pointer))"

text \<open>\<open>MemTest::execute\<close> through these functions.\<close>

definition rh_test_execute :: "memory \<Rightarrow> MemTest \<Rightarrow> (plan_result \<times> run_handle) run" where
  "rh_test_execute mem chs =
    bindR (Some (rh_create mem)) (\<lambda>h.
    bindR (Some (foldE rh_add_chunk chs (rh_execute h))) (\<lambda>h.
    rh_wait (rh_set_completed h)))"

subsection \<open>The driver\<close>

lemma bindR_return: "bindR (m :: 'a run) (\<lambda>x. Some (Inr x)) = m"
  by (cases "(m, \<lambda>x. Some (Inr x) :: 'a run)" rule: bindR.cases) auto

lemma rh_add_chunks: "foldE rh_add_chunk chs h = bindE (foldE cp_add_chunk chs (rh_cp h)) (\<lambda>cp. Inr (h\<lparr>rh_cp := cp\<rparr>))"
proof (induction chs arbitrary: h)
  case (Cons c chs)
  have step: "rh_add_chunk c h = bindE (cp_add_chunk c (rh_cp h)) (\<lambda>cp. Inr (h\<lparr>rh_cp := cp\<rparr>))"
    by (simp add: rh_add_chunk_def)
  show ?case by (cases "cp_add_chunk c (rh_cp h)") (simp_all add: step Cons.IH)
qed simp

lemma rh_run:
  assumes "plan_threads h = []" "parallel_execute h = Thread"
  shows "rh_wait h = bindR (detach_execute (rh_cp h)) (\<lambda>(r, cp).
    Some (Inr (r, h\<lparr>rh_cp := cp, plan_threads := [False, False, False], parallel_execute := Null\<rparr>)))"
proof -
  have plan: "rh_plan_phase h = bindR (plan_phase (rh_cp h)) (\<lambda>(r, cp).
    Some (Inr (r, h\<lparr>rh_cp := cp, plan_threads := [False, False, False]\<rparr>)))" if "plan_threads h = []" for h
    using that by (simp add: rh_plan_phase_def)
  have "rh_detach_execute h = bindR (detach_execute (rh_cp h)) (\<lambda>(r, cp).
    Some (Inr (r, h\<lparr>rh_cp := cp, plan_threads := [False, False, False]\<rparr>)))"
    by (simp add: rh_detach_execute_def detach_execute_def bindR_assoc plan assms(1))
  then show ?thesis
    by (simp add: rh_wait_def assms(2) bindR_assoc case_prod_unfold)
qed

text \<open>The driver's run is the one of \<open>Count_And_Plan\<close>, whose theorems so hold for it.\<close>

theorem handle_runs_mem_test:
  "bindR (rh_test_execute mem chs) (\<lambda>(r, h). Some (Inr (r, rh_cp h))) = mem_test_execute mem chs"
proof (cases "create_mem_count_and_plan mem")
  case (Inr cp)
  show ?thesis
    by (cases "foldE cp_add_chunk chs cp")
      (simp_all add: rh_test_execute_def mem_test_execute_def rh_create_def rh_execute_def rh_set_completed_def
        Inr rh_add_chunks rh_run bindR_assoc case_prod_unfold bindR_return)
qed (simp add: rh_test_execute_def mem_test_execute_def rh_create_def)

subsection \<open>A second run\<close>

lemma join_all_eq: "join_all ts = (if False \<in> set ts then Inl Not_joinable else Inr (map (\<lambda>_. False) ts))"
  by (induction ts) auto

text \<open>What a run leaves: no thread to wait for, and joined threads that the next run joins again.\<close>

lemma rh_wait_leaves:
  assumes "rh_wait h = Some (Inr (r, h'))"
  shows "parallel_execute h' = Null" "plan_threads h' = map (\<lambda>_. False) (plan_threads h) @ [False, False, False]"
    "False \<notin> set (plan_threads h)"
  using assms by (auto simp: rh_wait_def rh_detach_execute_def rh_plan_phase_def join_all_eq split: if_splits prod.splits)

theorem second_wait_null: "rh_wait h = Some (Inr (r, h')) \<Longrightarrow> rh_wait h' = Some (Inl Null_pointer)"
  by (simp add: rh_wait_leaves rh_wait_def [of h'])

text \<open>However the object is cleared, prepared and filled again (\<open>h''\<close> has its \<open>plan_threads\<close>).\<close>

theorem second_run_fails:
  assumes "rh_wait h = Some (Inr (r, h'))" and "plan_threads h'' = plan_threads h'"
    and "detach_execute (rh_cp h'') = Some (Inr res)"
  shows "rh_wait (rh_execute h'') = Some (Inl Not_joinable)"
proof -
  have "join_all (plan_threads h'' @ [True, True, True]) = Inl Not_joinable"
    by (simp add: join_all_eq assms(2) rh_wait_leaves(2) [OF assms(1)])
  then show ?thesis
    using assms(3) by (auto simp: rh_wait_def rh_execute_def rh_detach_execute_def detach_execute_def rh_plan_phase_def)
qed

theorem second_run_never_returns:
  assumes "rh_wait h = Some (Inr (r, h'))" and "plan_threads h'' = plan_threads h'"
  shows "rh_wait (rh_execute h'') \<noteq> Some (Inr x)"
  using rh_wait_leaves(3) [of "rh_execute h''" "fst x" "snd x"]
  by (auto simp: assms(2) rh_execute_def rh_wait_leaves(2) [OF assms(1)])

lemma reuse_keeps_threads [simp]:
  "plan_threads (rh_clear h) = plan_threads h" "plan_threads (rh_set_completed h) = plan_threads h"
  "plan_threads (rh_execute h) = plan_threads h"
  "rh_prepare mem h = Inr h' \<Longrightarrow> plan_threads h' = plan_threads h"
  "rh_add_chunk c h = Inr h' \<Longrightarrow> plan_threads h' = plan_threads h"
  by (auto simp: rh_clear_def rh_set_completed_def rh_execute_def rh_prepare_def rh_add_chunk_def)

end
