(* ===== verification/Count_Schedule.thy ===== *)
theory Count_Schedule
  imports Count_And_Plan Context_Protocol
begin

text \<open>
  The count phase as it runs: \<open>count_phase\<close> starts eight counters and the alignment counter while the chunks are
  still being published, and joins them. A state pairs the protocol of \<open>Context_Protocol\<close> with what each thread has
  computed; a thread that receives a chunk runs its body on it, on its own tables. Whatever the order of the steps, a
  thread has computed what the sequential loop computes of the chunks it received, so the threads end with the result
  of \<open>count_phase\<close> in \<open>Count_And_Plan\<close>, unless one of them leaves without the last chunks.
\<close>

subsection \<open>Steps\<close>

text \<open>Thread \<open>t\<close> counts the lane \<open>t\<close>; the thread behind them is that of the alignment counter.\<close>

abbreviation align_thread :: nat where
  "align_thread \<equiv> unat MAX_THREADS"

record count_state =
  protocol :: protocol_state
  counters :: "nat \<Rightarrow> MemCounter res"
  aligner :: "MemAlignCounter res"

definition fresh_counter :: "memory \<Rightarrow> nat \<Rightarrow> MemCounter" where
  "fresh_counter mem t = mem_counter_new (mem_slots mem (of_nat t)) (mem_current_chunk mem (of_nat t)) (of_nat t)"

definition count_start :: "memory \<Rightarrow> count_state" where
  "count_start mem = \<lparr>protocol = protocol_start (mem_chunks mem), counters = (\<lambda>t. Inr (fresh_counter mem t)),
    aligner = Inr (align_new MEM_ALIGN_ROWS)\<rparr>"

text \<open>The step in which \<open>get_chunk\<close> gives thread \<open>t\<close> chunk \<open>k\<close>.\<close>

inductive fetches :: "protocol_state \<Rightarrow> nat \<Rightarrow> u32 \<Rightarrow> protocol_state \<Rightarrow> bool" where
  "readers p t = Fetch k \<Longrightarrow> k < chunks_count (ctx p) \<Longrightarrow>
    fetches p t k (p\<lparr>readers := (readers p)(t := Fetch (k + 1)),
      received := (received p)(t := received p t @ [chunks (ctx p) k])\<rparr>)"

inductive_cases fetchesE: "fetches p t k p'"

inductive count_step :: "count_state \<Rightarrow> count_state \<Rightarrow> bool" where
  moves: "protocol_step (protocol s) p \<Longrightarrow> received p = received (protocol s) \<Longrightarrow> count_step s (s\<lparr>protocol := p\<rparr>)"
| counts: "t < align_thread \<Longrightarrow> counters s t = Inr w \<Longrightarrow> fetches (protocol s) t k p \<Longrightarrow>
    count_step s (s\<lparr>protocol := p, counters := (counters s)(t := execute_chunk k (chunks (ctx p) k) w)\<rparr>)"
| aligns: "aligner s = Inr m \<Longrightarrow> fetches (protocol s) align_thread k p \<Longrightarrow>
    count_step s (s\<lparr>protocol := p, aligner := align_execute_chunk k (chunks (ctx p) k) m\<rparr>)"

text \<open>Every step is one of the protocol.\<close>

lemma fetches_step: "fetches p t k p' \<Longrightarrow> protocol_step p p'"
  by (auto elim!: fetchesE intro: fetch_chunk)

lemma count_step_protocol: "count_step s s' \<Longrightarrow> protocol_step (protocol s) (protocol s')"
  by (cases rule: count_step.cases) (auto intro: fetches_step)

subsection \<open>The invariant\<close>

definition counted_so_far :: "memory \<Rightarrow> MemChunk list \<Rightarrow> nat \<Rightarrow> MemCounter res" where
  "counted_so_far mem chs t = foldE (\<lambda>(k, d). execute_chunk k d) (numbered chs) (fresh_counter mem t)"

definition aligned_so_far :: "MemChunk list \<Rightarrow> MemAlignCounter res" where
  "aligned_so_far chs = foldE (\<lambda>(k, d). align_execute_chunk k d) (numbered chs) (align_new MEM_ALIGN_ROWS)"

definition count_inv :: "memory \<Rightarrow> count_state \<Rightarrow> bool" where
  "count_inv mem s \<longleftrightarrow>
    (\<forall>t<align_thread. counters s t = counted_so_far mem (received (protocol s) t) t) \<and>
    aligner s = aligned_so_far (received (protocol s) align_thread)"

lemma fetches_received:
  assumes "fetches p t k p'" "protocol_inv p"
  shows "k = of_nat (length (received p t))" "received p' = (received p)(t := received p t @ [chunks (ctx p) k])"
    "ctx p' = ctx p"
proof -
  from assms(1) have k: "readers p t = Fetch k"
    and p': "received p' = (received p)(t := received p t @ [chunks (ctx p) k])" "ctx p' = ctx p"
    by (auto elim!: fetchesE)
  have "length (received p t) = unat k" using reader_inv(2) [OF assms(2)] k by (simp add: words_def)
  then show "k = of_nat (length (received p t))" by simp
  show "received p' = (received p)(t := received p t @ [chunks (ctx p) k])" "ctx p' = ctx p" by (fact p')+
qed

lemma foldE_snoc: "foldE f (xs @ [x]) s = bindE (foldE f xs s) (f x)"
  by (cases "foldE f xs s") (simp_all add: foldE_append)

lemma counted_so_far_snoc:
  "counted_so_far mem (chs @ [d]) t = bindE (counted_so_far mem chs t) (execute_chunk (of_nat (length chs)) d)"
  by (simp add: counted_so_far_def numbered_snoc foldE_snoc)

lemma aligned_so_far_snoc:
  "aligned_so_far (chs @ [d]) = bindE (aligned_so_far chs) (align_execute_chunk (of_nat (length chs)) d)"
  by (simp add: aligned_so_far_def numbered_snoc foldE_snoc)

lemma so_far_single: "counted_so_far mem [d] t = execute_chunk 0 d (fresh_counter mem t)"
  "aligned_so_far [d] = align_execute_chunk 0 d (align_new MEM_ALIGN_ROWS)"
  by (simp_all add: counted_so_far_def aligned_so_far_def numbered_def)

lemma count_inv_start: "count_inv mem (count_start mem)"
  by (simp add: count_inv_def count_start_def counted_so_far_def aligned_so_far_def) (simp add: protocol_start_def)

lemma count_inv_step:
  assumes p: "protocol_inv (protocol s)" and inv: "count_inv mem s" and step: "count_step s s'"
  shows "count_inv mem s'"
  using step
proof (cases rule: count_step.cases)
  case (moves p')
  then show ?thesis using inv by (simp add: count_inv_def)
next
  case (counts t w k p')
  note f = fetches_received [OF counts(4) p]
  have "counted_so_far mem (received (protocol s) t) t = Inr w"
    using inv counts(2,3) unfolding count_inv_def by metis
  then have "counted_so_far mem (received p' t) t = execute_chunk k (chunks (ctx p') k) w"
    unfolding f(2,3) f(1) by (simp add: counted_so_far_snoc)
  then show ?thesis using inv counts(1,2) f(2) by (simp add: count_inv_def)
next
  case (aligns m k p')
  note f = fetches_received [OF aligns(3) p]
  have "aligned_so_far (received (protocol s) align_thread) = Inr m" using inv aligns(2) by (simp add: count_inv_def)
  then have "aligned_so_far (received p' align_thread) = align_execute_chunk k (chunks (ctx p') k) m"
    unfolding f(2,3) f(1) by (simp add: aligned_so_far_snoc)
  then show ?thesis using inv aligns(1) f(2) by (simp add: count_inv_def)
qed

interpretation count_threads:
  protocol_extension protocol_step protocol_start protocol_inv count_step protocol "count_inv mem" for mem
  by unfold_locales (use count_step_protocol count_inv_step in blast)+

lemma count_reachable:
  assumes "reachable count_step (count_start mem) s"
  shows "protocol_inv (protocol s)" "count_inv mem s"
  using count_threads.reachable_xinv [OF assms _ count_inv_start] by (simp_all add: count_start_def)

subsection \<open>The results\<close>

lemma bounded_take:
  assumes "bounded_run chs"
  shows "bounded_run (take n chs)"
proof -
  have "blocks_needed i (take n chs) \<le> blocks_needed i chs" for i
    unfolding blocks_needed_eq by (intro blocks_mono) (metis append_take_drop_id chunk_log_append)
  moreover have "run_operations (take n chs) \<le> run_operations chs"
  proof -
    have "run_operations chs = run_operations (take n chs) + run_operations (drop n chs)"
      unfolding run_operations_def by (simp flip: nat_sum_simps(3) map_append concat_append)
    then show ?thesis by simp
  qed
  ultimately show ?thesis
    using assms unfolding bounded_run_def by (meson in_set_takeD order_trans le_less_trans)
qed

lemma mapped_take: "mapped_chunks chs \<Longrightarrow> mapped_chunks (take n chs)"
  unfolding mapped_chunks_def by (meson in_set_takeD)

text \<open>A counter that has received \<open>chs\<close> shows the planners \<open>run_cells chs\<close>.\<close>

lemma counted_so_far_reads:
  assumes "length chs \<le> 8192" "bounded_run chs" "mapped_chunks chs" "t < align_thread"
  shows "\<exists>w P. counted_so_far mem chs t = Inr w \<and> reads_as w P (run_cells chs (of_nat t))"
proof -
  have t: "of_nat t < MAX_THREADS" using assms(4) by (simp add: word_less_nat_alt unat_of_nat)
  let ?w = "fresh_counter mem t"
  have w: "addr_mask ?w = of_nat t * 8" "holds_log ?w None (\<lambda>_. [])"
    by (simp_all add: fresh_counter_def holds_log_new) (simp_all add: mem_counter_new_def)
  have "blocks (chunk_log (of_nat t) chs) \<le> 4194304" using assms(2) t by (simp add: bounded_run_def flip: blocks_needed_eq)
  then obtain w' where w': "counted_so_far mem chs t = Inr w'"
    using run_total [OF w(1) t w(2) assms(1) run_accesses_mapped [OF assms(3)]] by (auto simp: counted_so_far_def)
  then show ?thesis
    using run_log [OF w(1) t w(2) assms(1), of w'] holds_log_reads unfolding counted_so_far_def run_cells_def by blast
qed

lemma aligned_so_far_packs:
  assumes "length chs \<le> 8192" "bounded_run chs"
  shows "\<exists>m G. aligned_so_far chs = Inr m \<and> packs (unat MEM_ALIGN_ROWS) m G \<and> concat (concat G) = items chs"
  using align_chunks_packs [OF packs_new, of "unat MEM_ALIGN_ROWS" chs] assms
  by (auto simp: aligned_so_far_def bounded_run_def plain_op_def)

lemma length_published: "protocol_inv p \<Longrightarrow> length (published p) \<le> 8192"
  by (simp add: protocol_inv_def published_def words_def word_le_nat_alt)

lemma published_held: "protocol_inv p \<Longrightarrow> context_holds (ctx p) (published p)"
  by (simp add: context_holds_def published_def words_def protocol_inv_def word_le_nat_alt)

text \<open>The sequential phase on a completed context, thread by thread.\<close>

lemma count_phase_threads:
  assumes "prepare mem ctx0 locators = Inr cp" "context_holds ctx0 chs" "chunks_completed ctx0"
  shows "count_phase cp = bindR (foldR (\<lambda>t ws. bindR (Some (counted_so_far mem chs t)) (\<lambda>w. Some (Inr (ws @ [w])))) [0..<align_thread] [])
    (\<lambda>ws. bindR (Some (aligned_so_far chs)) (\<lambda>m. Some (Inr (cp\<lparr>count_workers := ws, mem_align_counter := m\<rparr>))))"
proof -
  have cp: "cp_context cp = ctx0" "mem_align_counter cp = align_new MEM_ALIGN_ROWS"
    and workers: "count_workers cp = map (\<lambda>i. mem_counter_new (mem_slots mem i) (mem_current_chunk mem i) i) (words 0 8)"
    by (rule prepare_returns [of mem ctx0 locators], use assms(1) in simp)+
  have workers: "count_workers cp = map (fresh_counter mem) [0..<align_thread]"
    unfolding workers by (simp add: words_def fresh_counter_def)
  have "execute ctx0 w = Some (foldE (\<lambda>(k, d). execute_chunk k d) (numbered chs) w)" for w
    using context_source.chunk_loop_all [of ctx0 chs execute_chunk w] assms(2,3) by (simp add: execute_def)
  moreover have "align_execute ctx0 m = Some (foldE (\<lambda>(k, d). align_execute_chunk k d) (numbered chs) m)" for m
    using context_source.chunk_loop_all [of ctx0 chs align_execute_chunk m] assms(2,3) by (simp add: align_execute_def)
  ultimately show ?thesis
    unfolding count_phase_def cp workers foldR_map count_worker_def [abs_def] counted_so_far_def aligned_so_far_def by simp
qed

lemma foldR_collect_iff:
  "foldR (\<lambda>x ys. bindR (Some (f x)) (\<lambda>y. Some (Inr (ys @ [y])))) xs ys = Some (Inr zs) \<longleftrightarrow>
    (\<exists>vs. zs = ys @ vs \<and> list_all2 (\<lambda>x v. f x = Inr v) xs vs)"
proof (induction xs arbitrary: ys)
  case (Cons x xs)
  show ?case
  proof (cases "f x")
    case (Inr y)
    then show ?thesis using Cons [of "ys @ [y]"] by (auto simp: list_all2_Cons1)
  qed (simp add: list_all2_Cons1)
qed auto

subsection \<open>Runs of one chunk\<close>

text \<open>As long as nobody receives a chunk, the protocol runs on its own.\<close>

lemma reach_protocol:
  assumes "reachable protocol_step (protocol (count_start mem)) p" "received p = (\<lambda>_. [])"
  shows "reachable count_step (count_start mem) ((count_start mem)\<lparr>protocol := p\<rparr>)"
  using assms
proof (induction rule: reachable.induct)
  case reachable_start
  have "(count_start mem)\<lparr>protocol := protocol (count_start mem)\<rparr> = count_start mem" by simp
  then show ?case by (simp add: reachable.reachable_start)
next
  case (reachable_step p p')
  from reachable_step.hyps(2) reachable_step.prems have same: "received p' = received p"
  proof (cases rule: protocol_step.cases)
    case (fetch_chunk t k)
    then have "received p' t \<noteq> []" by simp
    then show ?thesis using reachable_step.prems by simp
  qed simp_all
  then have "reachable count_step (count_start mem) ((count_start mem)\<lparr>protocol := p\<rparr>)"
    using reachable_step by simp
  from reachable.reachable_step [OF this, OF moves [of _ p']] reachable_step.hyps(2) same
  show ?case by simp
qed

lemma protocol_count_start: "protocol (count_start mem) = no_chunk (mem_chunks mem) (\<lambda>_. Fetch 0)"
  by (simp add: count_start_def start_no_chunk)

text \<open>The nine threads look for a chunk that is not there yet; then it is published, and they leave.\<close>

lemma reach_checking:
  "reachable protocol_step (no_chunk chunks0 (\<lambda>_. Fetch 0)) (no_chunk chunks0 (\<lambda>t. if t < n then Check 0 else Fetch 0))"
proof (induction n)
  case (Suc n)
  have "(\<lambda>t. if t < n then Check 0 else Fetch 0)(n := Check 0) = (\<lambda>t. if t < Suc n then Check 0 else Fetch 0)"
    by (auto simp: fun_eq_iff)
  with reachable_step [OF Suc, OF fetch_none [of _ n 0]] show ?case by (simp add: no_chunk_def context_new_def)
qed (simp add: reachable_start)

lemma reach_left:
  assumes "m \<le> n"
  shows "reachable protocol_step (no_chunk chunks0 (\<lambda>_. Fetch 0))
    (one_chunk chunks0 d (\<lambda>t. if t < m then Left else if t < n then Check 0 else Fetch 0) (\<lambda>_. []))"
  using assms
proof (induction m)
  case 0
  then show ?case using reach_one_chunk [OF reach_checking] by simp
next
  case (Suc m)
  have "(\<lambda>t. if t < m then Left else if t < n then Check 0 else Fetch 0)(m := Left) =
      (\<lambda>t. if t < Suc m then Left else if t < n then Check 0 else Fetch 0)"
    by (auto simp: fun_eq_iff)
  moreover have "reachable protocol_step (no_chunk chunks0 (\<lambda>_. Fetch 0))
      (one_chunk chunks0 d (\<lambda>t. if t < m then Left else if t < n then Check 0 else Fetch 0) (\<lambda>_. []))"
    using Suc by simp
  note reachable_step [OF this, OF check_completed [of _ m 0]]
  ultimately show ?case using Suc.prems by (simp add: one_chunk_def)
qed

text \<open>The chunk is published, and the first \<open>n\<close> counters count it.\<close>

definition counting :: "memory \<Rightarrow> MemChunk \<Rightarrow> nat \<Rightarrow> count_state" where
  "counting mem d n = \<lparr>protocol = one_chunk (mem_chunks mem) d (\<lambda>t. if t < n then Fetch 1 else Fetch 0) (\<lambda>t. if t < n then [d] else []),
    counters = (\<lambda>t. if t < n then counted_so_far mem [d] t else Inr (fresh_counter mem t)),
    aligner = Inr (align_new MEM_ALIGN_ROWS)\<rparr>"

lemma reach_counting: "n \<le> align_thread \<Longrightarrow> reachable count_step (count_start mem) (counting mem d n)"
proof (induction n)
  case 0
  have "reachable protocol_step (protocol (count_start mem)) (one_chunk (mem_chunks mem) d (\<lambda>_. Fetch 0) (\<lambda>_. []))"
    unfolding protocol_count_start by (rule reach_one_chunk [OF reachable_start])
  from reach_protocol [OF this] show ?case by (simp add: one_chunk_def counting_def count_start_def)
next
  case (Suc n)
  let ?s = "counting mem d n" and ?s' = "counting mem d (Suc n)"
  have upd: "(\<lambda>t. if t < n then a t else b t)(n := a n) = (\<lambda>t. if t < Suc n then a t else b t)" for a b :: "nat \<Rightarrow> 'z"
    by (auto simp: fun_eq_iff)
  have f: "fetches (protocol ?s) n 0 (protocol ?s')"
    using fetches.intros [of "protocol ?s" n 0]
    by (simp add: counting_def one_chunk_def upd [of "\<lambda>_. Fetch 1" "\<lambda>_. Fetch 0"] upd [of "\<lambda>_. [d]" "\<lambda>_. []"])
  have "n < align_thread" "counters ?s n = Inr (fresh_counter mem n)"
    using Suc.prems by (simp_all add: counting_def)
  from counts [OF this f] have "count_step ?s ?s'"
    by (simp add: counting_def one_chunk_def upd [symmetric] so_far_single)
  then show ?case using reachable_step Suc by simp
qed

definition counted :: "memory \<Rightarrow> MemChunk \<Rightarrow> count_state" where
  "counted mem d = \<lparr>protocol = one_chunk (mem_chunks mem) d (\<lambda>t. if t < 9 then Fetch 1 else Fetch 0) (\<lambda>t. if t < 9 then [d] else []),
    counters = (\<lambda>t. if t < align_thread then counted_so_far mem [d] t else Inr (fresh_counter mem t)),
    aligner = aligned_so_far [d]\<rparr>"

lemma reach_counted: "reachable count_step (count_start mem) (counted mem d)"
proof -
  let ?s = "counting mem d align_thread"
  have upd: "(\<lambda>t :: nat. if t < 8 then a else b)(8 := a) = (\<lambda>t. if t < 9 then a else b)" for a b :: 'z
    by (auto simp: fun_eq_iff)
  have "fetches (protocol ?s) align_thread 0 (protocol (counted mem d))"
    using fetches.intros [of "protocol ?s" align_thread 0] by (simp add: counting_def counted_def one_chunk_def upd)
  moreover have "aligner ?s = Inr (align_new MEM_ALIGN_ROWS)" by (simp add: counting_def)
  ultimately have step: "count_step ?s (?s\<lparr>protocol := protocol (counted mem d),
      aligner := align_execute_chunk 0 (chunks (ctx (protocol (counted mem d))) 0) (align_new MEM_ALIGN_ROWS)\<rparr>)"
    by (intro aligns)
  have d: "chunks (ctx (protocol (counted mem d))) 0 = d" by (simp add: counted_def one_chunk_def)
  have "?s\<lparr>protocol := protocol (counted mem d), aligner := aligned_so_far [d]\<rparr> = counted mem d"
    unfolding counting_def counted_def by (simp only: count_state.simps count_state.update_convs cong: if_cong)
  with step have "count_step ?s (counted mem d)" unfolding d so_far_single by (rule back_subst)
  then show ?thesis by (rule reachable_step [OF reach_counting [OF order_refl]])
qed

subsection \<open>Properties\<close>

text \<open>
  C4: The count phase under any interleaving. Whatever steps the publishing thread and the nine counting threads have
  made, no thread has failed; counter \<open>t\<close> shows the planners the cells of its lane for the prefix of the published
  chunks it has received, and the check points of the alignment counter divide the unaligned operations of its prefix.
\<close>

theorem counters_any_interleaving:
  assumes "reachable count_step (count_start mem) s"
    and "bounded_run (published (protocol s))" "mapped_chunks (published (protocol s))"
  shows "(\<forall>t<align_thread. \<exists>n w P. received (protocol s) t = take n (published (protocol s)) \<and> counters s t = Inr w \<and>
      reads_as w P (run_cells (take n (published (protocol s))) (of_nat t))) \<and>
    (\<exists>n m G. received (protocol s) align_thread = take n (published (protocol s)) \<and> aligner s = Inr m \<and>
      packs (unat MEM_ALIGN_ROWS) m G \<and> concat (concat G) = items (take n (published (protocol s))))"
proof -
  let ?chs = "published (protocol s)"
  note p = count_reachable(1) [OF assms(1)] and inv = count_reachable(2) [OF assms(1)]
  have len: "length (take n ?chs) \<le> 8192" for n using length_published [OF p] by simp
  have "\<exists>n w P. received (protocol s) t = take n ?chs \<and> counters s t = Inr w \<and> reads_as w P (run_cells (take n ?chs) (of_nat t))"
    if t: "t < align_thread" for t
  proof -
    obtain n where n: "received (protocol s) t = take n ?chs" using received_prefix [OF p] by blast
    have "counters s t = counted_so_far mem (take n ?chs) t" using inv t n by (simp add: count_inv_def)
    then show ?thesis
      using n counted_so_far_reads [OF len bounded_take [OF assms(2)] mapped_take [OF assms(3)] t] by metis
  qed
  moreover obtain n where n: "received (protocol s) align_thread = take n ?chs" using received_prefix [OF p] by blast
  moreover have "aligner s = aligned_so_far (take n ?chs)" using inv n by (simp add: count_inv_def)
  ultimately show ?thesis using aligned_so_far_packs [OF len bounded_take [OF assms(2)]] by metis
qed

text \<open>One chunk, received by all.\<close>

lemma counted_facts:
  "published (protocol (counted mem d)) = [d]" "chunks_completed (ctx (protocol (counted mem d)))"
  "\<forall>t\<le>align_thread. received (protocol (counted mem d)) t = [d]"
  "t < align_thread \<Longrightarrow> counters (counted mem d) t = counted_so_far mem [d] t" "aligner (counted mem d) = aligned_so_far [d]"
  by (simp_all add: counted_def one_chunk_def published_def words_def)

theorem counters_any_interleaving_witness:
  "\<exists>s w P. reachable count_step (count_start zero_memory) s \<and> counters s 0 = Inr w \<and> reads_as w P (one_entry 0x400000 0 1 0)"
proof -
  let ?d = "[\<lparr>bus_addr = 0xA0000000, bus_flags = 8\<rparr>]" and ?s = "counted zero_memory [\<lparr>bus_addr = 0xA0000000, bus_flags = 8\<rparr>]"
  have pub: "published (protocol ?s) = [?d]" "received (protocol ?s) 0 = [?d]" by (simp_all add: counted_facts)
  obtain n w P where "received (protocol ?s) 0 = take n [?d]" "counters ?s 0 = Inr w"
    "reads_as w P (run_cells (take n [?d]) (of_nat 0))"
    using counters_any_interleaving [OF reach_counted, unfolded counted_facts(1), OF one_access_run(1,2)] by fastforce
  with pub(2) have "counters ?s 0 = Inr w" "reads_as w P (run_cells [?d] 0)" by simp_all
  then show ?thesis using reach_counted unfolding one_access_run(3) by blast
qed

text \<open>
  C3: The interleaved phase implements the sequential one. When the chunks are completed and every thread has received
  them all, the threads have computed the counters \<open>ws\<close> and \<open>m\<close> if and only if \<open>count_phase\<close>, run on the
  completed context, returns with them: no schedule changes a counter, and the two fail together.
\<close>

theorem count_phase_any_schedule:
  assumes "reachable count_step (count_start mem) s" "chunks_completed (ctx (protocol s))"
    and "\<forall>t\<le>align_thread. received (protocol s) t = published (protocol s)"
    and "prepare mem (ctx (protocol s)) locators = Inr cp"
  shows "(\<forall>t<align_thread. counters s t = Inr (ws ! t)) \<and> length ws = align_thread \<and> aligner s = Inr m \<longleftrightarrow>
    count_phase cp = Some (Inr (cp\<lparr>count_workers := ws, mem_align_counter := m\<rparr>))"
proof -
  let ?chs = "published (protocol s)"
  note inv = count_reachable(2) [OF assms(1)]
  have threads: "counters s t = counted_so_far mem ?chs t" if "t < align_thread" for t
    using inv that assms(3) by (simp add: count_inv_def)
  have align: "aligner s = aligned_so_far ?chs" using inv assms(3) by (simp add: count_inv_def)
  have "context_holds (ctx (protocol s)) ?chs" by (rule published_held [OF count_reachable(1) [OF assms(1)]])
  note phase = count_phase_threads [OF assms(4) this assms(2)]
  have "(\<forall>t<align_thread. counters s t = Inr (ws ! t)) \<and> length ws = align_thread \<longleftrightarrow>
      list_all2 (\<lambda>t w. counted_so_far mem ?chs t = Inr w) [0..<align_thread] ws"
    using threads by (auto simp: list_all2_conv_all_nth)
  then have "(\<forall>t<align_thread. counters s t = Inr (ws ! t)) \<and> length ws = align_thread \<longleftrightarrow>
      foldR (\<lambda>t ws. bindR (Some (counted_so_far mem ?chs t)) (\<lambda>w. Some (Inr (ws @ [w])))) [0..<align_thread] [] = Some (Inr ws)"
    unfolding foldR_collect_iff by simp
  moreover have "bindR F (\<lambda>ws. bindR (Some A) (\<lambda>m. Some (Inr (cp\<lparr>count_workers := ws, mem_align_counter := m\<rparr>)))) =
      Some (Inr (cp\<lparr>count_workers := ws, mem_align_counter := m\<rparr>)) \<longleftrightarrow> F = Some (Inr ws) \<and> A = Inr m" for F A
    by (cases F rule: run_cases; cases A; cases cp) auto
  ultimately show ?thesis unfolding phase align by blast
qed

theorem count_phase_any_schedule_witness:
  "\<exists>s ws m cp. reachable count_step (count_start zero_memory) s \<and> published (protocol s) = [[\<lparr>bus_addr = 0xA0000000, bus_flags = 8\<rparr>]] \<and>
    counters s 0 = Inr (ws ! 0) \<and> aligner s = Inr m \<and> count_phase cp = Some (Inr (cp\<lparr>count_workers := ws, mem_align_counter := m\<rparr>))"
proof -
  let ?d = "[\<lparr>bus_addr = 0xA0000000, bus_flags = 8\<rparr>]" and ?s = "counted zero_memory [\<lparr>bus_addr = 0xA0000000, bus_flags = 8\<rparr>]"
  obtain cp where cp: "prepare zero_memory (ctx (protocol ?s)) (locators_new (\<lambda>_. loc1)) = Inr cp" by (rule prepare_returns)
  have "\<forall>t<align_thread. \<exists>w. counted_so_far zero_memory [?d] t = Inr w"
    using counted_so_far_reads [OF _ one_access_run(1,2)] by fastforce
  then obtain f where f: "\<forall>t<align_thread. counted_so_far zero_memory [?d] t = Inr (f t)" by metis
  obtain m where m: "aligned_so_far [?d] = Inr m" using aligned_so_far_packs [OF _ one_access_run(1)] by fastforce
  have received: "\<forall>t\<le>align_thread. received (protocol ?s) t = published (protocol ?s)"
    unfolding counted_facts(1) by (rule counted_facts(3))
  let ?ws = "map f [0..<align_thread]"
  have "(\<forall>t<align_thread. counters ?s t = Inr (?ws ! t)) \<and> length ?ws = align_thread \<and> aligner ?s = Inr m"
    using f m by (simp add: counted_facts(4,5))
  moreover from this have "count_phase cp = Some (Inr (cp\<lparr>count_workers := ?ws, mem_align_counter := m\<rparr>))"
    by (rule iffD1 [OF count_phase_any_schedule [OF reach_counted counted_facts(2) received cp]])
  ultimately show ?thesis
    using reach_counted [of zero_memory ?d] counted_facts(1) [of zero_memory ?d]
    by (intro exI [of _ ?s] exI [of _ ?ws] exI [of _ m] exI [of _ cp]) simp
qed

text \<open>
  C23: A whole chunk can be lost. There is a run of the count phase, from any memory, in which a chunk is published and
  the completion set, all nine threads have left, and every counter and the alignment counter are as they were made:
  each thread loaded the number of chunks before the chunk was published and the completion flag after it was set.
\<close>

theorem count_phase_loses_chunk:
  "\<exists>s. reachable count_step (count_start mem) s \<and> published (protocol s) = [d] \<and> chunks_completed (ctx (protocol s)) \<and>
    map (readers (protocol s)) [0..<Suc align_thread] = map (\<lambda>_. Left) [0..<Suc align_thread] \<and>
    map (counters s) [0..<align_thread] = map (\<lambda>t. Inr (fresh_counter mem t)) [0..<align_thread] \<and>
    aligner s = Inr (align_new MEM_ALIGN_ROWS)"
proof -
  let ?p = "one_chunk (mem_chunks mem) d (\<lambda>t. if t < 9 then Left else if t < 9 then Check 0 else Fetch 0) (\<lambda>_. [])"
  have "reachable protocol_step (protocol (count_start mem)) ?p"
    unfolding protocol_count_start by (rule reach_left) simp
  from reach_protocol [OF this] have "reachable count_step (count_start mem) ((count_start mem)\<lparr>protocol := ?p\<rparr>)"
    by (simp add: one_chunk_def)
  then show ?thesis
    by (intro exI conjI) (assumption, simp_all add: count_start_def one_chunk_def published_def words_def)
qed

end
