(* ===== verification/Locator_Protocol.thy ===== *)
theory Locator_Protocol
  imports Mem_Locators "HOL-Library.Sublist"
begin

text \<open>
  \<open>MemLocators\<close> as its threads use it: one producer that calls \<open>push_locator\<close>, any number of planners that run
  \<open>get_next_locator\<close> and load the fields of the locator they get through its pointer. The producer's stores to the fields are
  plain and its store to \<open>write_pos\<close> is relaxed, so nothing orders them: a store waits \<open>in_flight\<close> until it reaches the memory
  the planners load from. The machine is a parameter. \<open>Reordering\<close> lets every access be as late as C++ lets it; \<open>In_order\<close>
  is code that runs in program order, as what compilers usually make of it does on x86.
\<close>

subsection \<open>State\<close>

datatype machine = In_order | Reordering

datatype locator_field = Skip | Offset | Thread_index | Cpos

fun get_field :: "locator_field \<Rightarrow> MemLocator \<Rightarrow> u32" where
  "get_field Skip l = loc_skip l"
| "get_field Offset l = loc_offset l"
| "get_field Thread_index l = loc_thread l"
| "get_field Cpos l = loc_cpos l"

fun set_field :: "locator_field \<Rightarrow> u32 \<Rightarrow> MemLocator \<Rightarrow> MemLocator" where
  "set_field Skip x l = l\<lparr>loc_skip := x\<rparr>"
| "set_field Offset x l = l\<lparr>loc_offset := x\<rparr>"
| "set_field Thread_index x l = l\<lparr>loc_thread := x\<rparr>"
| "set_field Cpos x l = l\<lparr>loc_cpos := x\<rparr>"

datatype locator_store = Store_field locator_field nat u32 | Store_write_pos nat | Store_completed

text \<open>
  A planner is before a call of \<open>get_locator\<close> (\<open>Enter retry\<close>; \<open>retry\<close> says whether the call is in the polling loop), at the
  head of its loop with the read position it has loaded (\<open>Head\<close>), past the emptiness test and before the compare-and-exchange
  (\<open>Swap\<close>), loading the fields of the locator it got, with those it has not loaded yet (\<open>Reads\<close>), before the load of
  \<open>completed\<close> that decides to stop (\<open>Poll\<close>), or stopped (\<open>Gone\<close>).
\<close>

datatype consumer = Enter bool | Head bool nat | Swap bool nat | Reads nat "locator_field list" MemLocator | Poll | Gone

text \<open>
  \<open>queue\<close> is what has reached memory, \<open>sent\<close> what the producer has pushed; its own load of \<open>write_pos\<close> gives the number of
  those. \<open>handed\<close> is the history of what the planners have got: thread, segment, locator as loaded. \<open>early\<close> are the positions
  of which a field was loaded before its store had reached memory.
\<close>

record locator_state =
  queue :: MemLocators
  in_flight :: "locator_store list"
  sent :: "MemLocator list"
  done_pushing :: bool
  consumers :: "nat \<Rightarrow> consumer"
  handed :: "(nat \<times> nat \<times> MemLocator) list"
  early :: "nat set"

definition locator_start :: "(nat \<Rightarrow> MemLocator) \<Rightarrow> locator_state" where
  "locator_start table0 = \<lparr>queue = locators_new table0, in_flight = [], sent = [], done_pushing = False,
    consumers = (\<lambda>_. Enter False), handed = [], early = {}\<rparr>"

subsection \<open>Steps\<close>

text \<open>The stores of \<open>push_locator\<close>, in program order, and a store that reaches memory.\<close>

definition push_stores :: "nat \<Rightarrow> MemLocator \<Rightarrow> locator_store list" where
  "push_stores pos l = [Store_field Thread_index pos (loc_thread l), Store_field Offset pos (loc_offset l),
    Store_field Cpos pos (loc_cpos l), Store_field Skip pos (loc_skip l), Store_write_pos (pos + 1)]"

fun commit_store :: "locator_store \<Rightarrow> MemLocators \<Rightarrow> MemLocators" where
  "commit_store (Store_field f p x) q = q\<lparr>loc_table := (loc_table q)(p := set_field f x (loc_table q p))\<rparr>"
| "commit_store (Store_write_pos p) q = q\<lparr>write_pos := p\<rparr>"
| "commit_store Store_completed q = locators_set_completed q"

text \<open>
  Which stores a store may overtake: the plain stores are to different places, the relaxed stores to \<open>write_pos\<close> keep
  their order among themselves, and the release store to \<open>completed\<close> waits for all stores before it.
\<close>

fun may_overtake :: "machine \<Rightarrow> locator_store \<Rightarrow> locator_store list \<Rightarrow> bool" where
  "may_overtake In_order st sts = (sts = [])"
| "may_overtake Reordering (Store_field f p x) sts = True"
| "may_overtake Reordering (Store_write_pos p) sts = (\<forall>v. Store_write_pos v \<notin> set sts)"
| "may_overtake Reordering Store_completed sts = (sts = [])"

text \<open>
  What a load of a position may give: the value it has, or an earlier one (the positions only grow). That a thread never
  loads an older value than it did before is not asked for, so \<open>Reordering\<close> allows a little more than C++.
\<close>

definition may_load :: "machine \<Rightarrow> nat \<Rightarrow> nat \<Rightarrow> bool" where
  "may_load m v current \<longleftrightarrow> v = current \<or> m = Reordering \<and> v < current"

definition blank :: MemLocator where
  "blank = \<lparr>loc_offset = 0, loc_cpos = 0, loc_skip = 0, loc_thread = 0\<rparr>"

definition arrived :: "locator_state \<Rightarrow> locator_field \<Rightarrow> nat \<Rightarrow> bool" where
  "arrived s f r \<longleftrightarrow> r < length (sent s) \<and> (\<forall>x. Store_field f r x \<notin> set (in_flight s))"

abbreviation goto :: "nat \<Rightarrow> consumer \<Rightarrow> locator_state \<Rightarrow> locator_state" where
  "goto t c s \<equiv> s\<lparr>consumers := (consumers s)(t := c)\<rparr>"

inductive locator_step :: "machine \<Rightarrow> locator_state \<Rightarrow> locator_state \<Rightarrow> bool" for m where
  push: "\<not> done_pushing s \<Longrightarrow> length (sent s) < MAX_LOCATORS \<Longrightarrow>
    locator_step m s (s\<lparr>in_flight := in_flight s @ push_stores (length (sent s)) l, sent := sent s @ [l]\<rparr>)"
| finish: "\<not> done_pushing s \<Longrightarrow>
    locator_step m s (s\<lparr>in_flight := in_flight s @ [Store_completed], done_pushing := True\<rparr>)"
| commit: "in_flight s = xs @ st # ys \<Longrightarrow> may_overtake m st xs \<Longrightarrow>
    locator_step m s (s\<lparr>queue := commit_store st (queue s), in_flight := xs @ ys\<rparr>)"
| load_read: "consumers s t = Enter retry \<Longrightarrow> may_load m r (read_pos (queue s)) \<Longrightarrow>
    locator_step m s (goto t (Head retry r) s)"
| load_write_empty: "consumers s t = Head retry r \<Longrightarrow> may_load m r (write_pos (queue s)) \<Longrightarrow>
    locator_step m s (goto t (if retry then Poll else Enter True) s)"
| load_write_item: "consumers s t = Head retry r \<Longrightarrow> may_load m w (write_pos (queue s)) \<Longrightarrow> r \<noteq> w \<Longrightarrow>
    locator_step m s (goto t (Swap retry r) s)"
| swap_fails: "consumers s t = Swap retry r \<Longrightarrow> may_load m r' (read_pos (queue s)) \<Longrightarrow>
    locator_step m s (goto t (Head retry r') s)"
| swap_succeeds: "consumers s t = Swap retry r \<Longrightarrow> r = read_pos (queue s) \<Longrightarrow>
    locator_step m s (goto t (Reads r [Skip, Offset, Thread_index, Cpos] blank) (s\<lparr>queue := (queue s)\<lparr>read_pos := r + 1\<rparr>\<rparr>))"
| load_field: "consumers s t = Reads r (f # fs) l \<Longrightarrow>
    locator_step m s (goto t (Reads r fs (set_field f (get_field f (loc_table (queue s) r)) l))
      (s\<lparr>early := (if arrived s f r then early s else insert r (early s))\<rparr>))"
| hand_over: "consumers s t = Reads r [] l \<Longrightarrow>
    locator_step m s (goto t (Enter False) (s\<lparr>handed := handed s @ [(t, r, l)]\<rparr>))"
| poll_again: "consumers s t = Poll \<Longrightarrow> \<not> is_completed (queue s) \<or> m = Reordering \<Longrightarrow>
    locator_step m s (goto t (Enter True) s)"
| poll_stops: "consumers s t = Poll \<Longrightarrow> is_completed (queue s) \<Longrightarrow> locator_step m s (goto t Gone s)"

inductive_cases locator_stepE: "locator_step m s s'"

subsection \<open>Fields\<close>

lemma get_set_field [simp]: "get_field f (set_field g x l) = (if f = g then x else get_field f l)"
  by (cases f; cases g) simp_all

lemma fields_eqI: "(\<And>f. get_field f l = get_field f l') \<Longrightarrow> l = l'"
  by (rule MemLocator.equality) (metis get_field.simps, metis get_field.simps, metis get_field.simps, metis get_field.simps, simp)

lemma field_pushed: "Store_field f pos (get_field f l) \<in> set (push_stores pos l)"
  by (cases f) (simp_all add: push_stores_def)

subsection \<open>The invariant\<close>

text \<open>A store holds what was pushed.\<close>

fun store_of :: "MemLocator list \<Rightarrow> locator_store \<Rightarrow> bool" where
  "store_of ls (Store_field f p x) = (p < length ls \<and> x = get_field f (ls ! p))"
| "store_of ls (Store_write_pos p) = (p \<le> length ls)"
| "store_of ls Store_completed = True"

definition stores_inv :: "locator_state \<Rightarrow> bool" where
  "stores_inv s \<longleftrightarrow> length (sent s) \<le> MAX_LOCATORS \<and> write_pos (queue s) \<le> length (sent s) \<and>
    (\<forall>st\<in>set (in_flight s). store_of (sent s) st) \<and>
    (\<forall>p<length (sent s). \<forall>f. get_field f (loc_table (queue s) p) = get_field f (sent s ! p) \<or>
      Store_field f p (get_field f (sent s ! p)) \<in> set (in_flight s))"

text \<open>Every position claimed is with one planner or handed over, once.\<close>

definition positions :: "locator_state \<Rightarrow> nat list" where
  "positions s = map (\<lambda>(t, k, l). k) (handed s)"

definition holds :: "locator_state \<Rightarrow> nat \<Rightarrow> nat \<Rightarrow> bool" where
  "holds s t k \<longleftrightarrow> (\<exists>fs l. consumers s t = Reads k fs l)"

definition claims_inv :: "locator_state \<Rightarrow> bool" where
  "claims_inv s \<longleftrightarrow> distinct (positions s) \<and> (\<forall>t t' k. holds s t k \<and> holds s t' k \<longrightarrow> t = t') \<and>
    (\<forall>t k. holds s t k \<longrightarrow> k \<notin> set (positions s)) \<and>
    (\<forall>k. k < read_pos (queue s) \<longleftrightarrow> k \<in> set (positions s) \<or> (\<exists>t. holds s t k))"

text \<open>What a planner has loaded in time is what was pushed.\<close>

definition loaded_inv :: "locator_state \<Rightarrow> bool" where
  "loaded_inv s \<longleftrightarrow> (\<forall>(t, k, l)\<in>set (handed s). k \<notin> early s \<longrightarrow> k < length (sent s) \<and> l = sent s ! k) \<and>
    (\<forall>t k fs l f. consumers s t = Reads k fs l \<and> k \<notin> early s \<and> f \<notin> set fs \<longrightarrow>
      k < length (sent s) \<and> get_field f l = get_field f (sent s ! k))"

definition locator_inv :: "locator_state \<Rightarrow> bool" where
  "locator_inv s \<longleftrightarrow> stores_inv s \<and> claims_inv s \<and> loaded_inv s"

lemma commit_queue:
  "read_pos (commit_store st q) = read_pos q"
  "write_pos (commit_store st q) = (case st of Store_write_pos v \<Rightarrow> v | _ \<Rightarrow> write_pos q)"
  by (cases st; simp add: locators_set_completed_def)+

lemma commit_field:
  "get_field f (loc_table (commit_store st q) p) =
    (case st of Store_field g p' x \<Rightarrow> if g = f \<and> p' = p then x else get_field f (loc_table q p) | _ \<Rightarrow> get_field f (loc_table q p))"
  by (cases st) (auto simp: locators_set_completed_def)

lemma stores_inv_step:
  assumes inv: "stores_inv s" and "locator_step m s s'"
  shows "stores_inv s'"
  using assms(2)
proof (cases rule: locator_step.cases)
  case (push l)
  note i = inv [unfolded stores_inv_def]
  have "store_of (sent s @ [l]) st" if "store_of (sent s) st" for st
    using that by (cases st) (auto simp: nth_append)
  moreover have "\<forall>st\<in>set (push_stores (length (sent s)) l). store_of (sent s @ [l]) st"
    by (simp add: push_stores_def)
  ultimately show ?thesis
    using i push(1,3) field_pushed [of _ "length (sent s)" l] by (auto simp: stores_inv_def nth_append less_Suc_eq)
next
  case (commit xs st ys)
  note i = inv [unfolded stores_inv_def commit(2)]
  have "store_of (sent s) st" using i by simp
  then have "write_pos (commit_store st (queue s)) \<le> length (sent s)"
    using i by (cases st) (simp_all add: locators_set_completed_def)
  moreover have "get_field f (loc_table (commit_store st (queue s)) p) = get_field f (sent s ! p) \<or>
      Store_field f p (get_field f (sent s ! p)) \<in> set (xs @ ys)" if "p < length (sent s)" for f p
  proof (cases "\<exists>x. st = Store_field f p x")
    case True
    then show ?thesis using \<open>store_of (sent s) st\<close> by (auto simp: commit_field)
  next
    case False
    then have "get_field f (loc_table (commit_store st (queue s)) p) = get_field f (loc_table (queue s) p)"
      by (auto simp: commit_field split: locator_store.split)
    then show ?thesis using i that False by fastforce
  qed
  ultimately show ?thesis using i commit(1) by (simp add: stores_inv_def)
qed (use inv in \<open>simp_all add: stores_inv_def\<close>)

text \<open>A planner that moves without claiming or handing over.\<close>

lemma claims_inv_cong:
  assumes "claims_inv s" "handed s' = handed s" "read_pos (queue s') = read_pos (queue s)"
    and "\<And>t k. holds s' t k = holds s t k"
  shows "claims_inv s'"
  using assms by (simp add: claims_inv_def positions_def)

lemma claims_inv_step:
  assumes inv: "claims_inv s" and "locator_step m s s'"
  shows "claims_inv s'"
  using assms(2)
proof (cases rule: locator_step.cases)
  case (swap_succeeds t b r)
  note i = inv [unfolded claims_inv_def]
  have h: "holds s' t' k \<longleftrightarrow> (if t' = t then k = r else holds s t' k)" for t' k
    by (auto simp: swap_succeeds(1) holds_def)
  have "\<not> holds s t k" for k by (simp add: swap_succeeds(2) holds_def)
  moreover have "r \<notin> set (positions s)" "\<not> holds s t' r" for t' using i swap_succeeds(3) by blast+
  moreover have "positions s' = positions s" "read_pos (queue s') = Suc (read_pos (queue s))"
    using swap_succeeds(1,3) by (simp_all add: positions_def)
  moreover have "(\<exists>t'. holds s' t' k) \<longleftrightarrow> k = r \<or> (\<exists>t'. holds s t' k)" for k unfolding h using calculation(1) by metis
  moreover have "t1 = t2" if "holds s' t1 k" "holds s' t2 k" for t1 t2 k
    using that i calculation(3) unfolding h by (auto split: if_splits)
  moreover have "k \<notin> set (positions s)" if "holds s' t' k" for t' k
    using that i calculation(2) unfolding h by (auto split: if_splits)
  ultimately show ?thesis using i swap_succeeds(3) by (auto simp: claims_inv_def less_Suc_eq)
next
  case (hand_over t r l)
  note i = inv [unfolded claims_inv_def]
  have h: "holds s' t' k \<longleftrightarrow> t' \<noteq> t \<and> holds s t' k" for t' k by (simp add: hand_over(1) holds_def)
  have r: "holds s t k \<longleftrightarrow> k = r" for k by (auto simp: hand_over(2) holds_def)
  have "positions s' = positions s @ [r]" "read_pos (queue s') = read_pos (queue s)"
    using hand_over(1) by (simp_all add: positions_def)
  then show ?thesis using i r unfolding claims_inv_def h by (auto; metis)
next
  case (commit xs st ys)
  show ?thesis by (rule claims_inv_cong [OF inv]) (simp_all add: commit(1) commit_queue holds_def)
qed (rule claims_inv_cong [OF inv]; simp add: holds_def split: if_splits)+

lemma loaded_invD:
  assumes "loaded_inv s" "k \<notin> early s"
  shows "(t, k, l) \<in> set (handed s) \<Longrightarrow> k < length (sent s) \<and> l = sent s ! k"
    and "consumers s t = Reads k fs l \<Longrightarrow> f \<notin> set fs \<Longrightarrow> k < length (sent s) \<and> get_field f l = get_field f (sent s ! k)"
  using assms unfolding loaded_inv_def by blast+

text \<open>A planner whose loads are those of before, in a state where more may have been pushed.\<close>

lemma loaded_inv_cong:
  assumes "loaded_inv s" "handed s' = handed s" "early s' = early s" "prefix (sent s) (sent s')"
    and "\<And>t k fs l. consumers s' t = Reads k fs l \<Longrightarrow> consumers s t = Reads k fs l \<or> set fs = UNIV"
  shows "loaded_inv s'"
proof -
  have grow: "k < length (sent s') \<and> sent s' ! k = sent s ! k" if "k < length (sent s)" for k
    using that assms(4) by (auto simp: prefix_def nth_append)
  have "k < length (sent s') \<and> l = sent s' ! k" if "(t, k, l) \<in> set (handed s')" "k \<notin> early s'" for t k l
    using loaded_invD(1) [OF assms(1), of k t l] that grow [of k] by (simp add: assms(2,3))
  moreover have "k < length (sent s') \<and> get_field f l = get_field f (sent s' ! k)"
    if "consumers s' t = Reads k fs l" "k \<notin> early s'" "f \<notin> set fs" for t k fs l f
  proof -
    have "consumers s t = Reads k fs l" using assms(5) [OF that(1)] that(3) by auto
    then show ?thesis using loaded_invD(2) [OF assms(1), of k t fs l f] that(2,3) grow [of k] by (simp add: assms(3))
  qed
  ultimately show ?thesis unfolding loaded_inv_def by blast
qed

lemma all_fields: "set [Skip, Offset, Thread_index, Cpos] = UNIV"
proof -
  have "f \<in> {Skip, Offset, Thread_index, Cpos}" for f by (cases f) simp_all
  then show ?thesis by auto
qed

lemma loaded_inv_step:
  assumes inv: "loaded_inv s" "stores_inv s" and "locator_step m s s'"
  shows "loaded_inv s'"
  using assms(3)
proof (cases rule: locator_step.cases)
  case (load_field t r f fs l)
  let ?x = "get_field f (loc_table (queue s) r)"
  have early: "k \<notin> early s" if "k \<notin> early s'" for k
    using that load_field(1) by (simp split: if_splits)
  have hd: "handed s' = handed s" "sent s' = sent s" using load_field(1) by simp_all
  have "k < length (sent s) \<and> get_field g l' = get_field g (sent s ! k)"
    if c: "consumers s' t' = Reads k fs' l'" and k: "k \<notin> early s'" "g \<notin> set fs'" for t' k fs' l' g
  proof (cases "t' = t")
    case True
    then have eq: "k = r" "fs' = fs" "l' = set_field f ?x l" using c load_field(1) by auto
    then have "arrived s f r" using k(1) load_field(1) by (simp split: if_splits)
    then have r: "r < length (sent s)" "Store_field f r (get_field f (sent s ! r)) \<notin> set (in_flight s)"
      by (simp_all add: arrived_def)
    then have "?x = get_field f (sent s ! r)" using inv(2) unfolding stores_inv_def by blast
    moreover have "get_field g l = get_field g (sent s ! r)" if "g \<noteq> f"
      using loaded_invD(2) [OF inv(1) _ load_field(2), of g] early [OF k(1)] k(2) that by (simp add: eq)
    ultimately show ?thesis using r(1) by (simp add: eq)
  next
    case False
    then have "consumers s t' = Reads k fs' l'" using c load_field(1) by simp
    then show ?thesis using loaded_invD(2) [OF inv(1) early [OF k(1)]] k(2) by blast
  qed
  moreover have "k < length (sent s) \<and> l = sent s ! k" if "(t, k, l) \<in> set (handed s)" "k \<notin> early s'" for t k l
    using loaded_invD(1) [OF inv(1) early [OF that(2)] that(1)] .
  ultimately show ?thesis unfolding loaded_inv_def hd by blast
next
  case (hand_over t r l)
  have same: "early s' = early s" "sent s' = sent s" "handed s' = handed s @ [(t, r, l)]"
    "consumers s' = (consumers s)(t := Enter False)" using hand_over(1) by simp_all
  have "r < length (sent s) \<and> l = sent s ! r" if "r \<notin> early s"
    using loaded_invD(2) [OF inv(1) that hand_over(2)] fields_eqI by simp
  then have "k < length (sent s) \<and> x = sent s ! k" if "(t', k, x) \<in> set (handed s')" "k \<notin> early s" for t' k x
    using loaded_invD(1) [OF inv(1) that(2), of t' x] that unfolding same(3) by auto
  moreover have "k < length (sent s) \<and> get_field f x = get_field f (sent s ! k)"
    if "consumers s' t' = Reads k fs x" "k \<notin> early s" "f \<notin> set fs" for t' k fs x f
    using loaded_invD(2) [OF inv(1) that(2), of t' fs x f] that(1,3) unfolding same(4) by (simp split: if_splits)
  ultimately show ?thesis unfolding loaded_inv_def same(1,2) by blast
qed (rule loaded_inv_cong [OF inv(1)]; use all_fields in \<open>auto split: if_splits\<close>)+

lemma locator_inv_start: "locator_inv (locator_start table0)"
  by (simp add: locator_inv_def stores_inv_def claims_inv_def loaded_inv_def locator_start_def locators_new_def
    positions_def holds_def)

lemma locator_inv_step: "locator_inv s \<Longrightarrow> locator_step m s s' \<Longrightarrow> locator_inv s'"
  unfolding locator_inv_def using stores_inv_step claims_inv_step loaded_inv_step by blast

interpretation locator_queue: protocol_invariant "locator_step m" locator_start locator_inv for m
  by unfold_locales (fact locator_inv_start locator_inv_step)+

subsection \<open>In order\<close>

text \<open>In program order, \<open>write_pos\<close> reaches memory after the fields below it, and no planner claims a position above it.\<close>

fun at_least :: "nat \<Rightarrow> locator_store \<Rightarrow> bool" where
  "at_least n (Store_field f p x) = (n \<le> p)"
| "at_least n (Store_write_pos p) = (n \<le> p)"
| "at_least n Store_completed = True"

definition before :: "locator_store \<Rightarrow> locator_store \<Rightarrow> bool" where
  "before st st' \<longleftrightarrow> (\<forall>v. st = Store_write_pos v \<longrightarrow> at_least v st')"

definition ordered_inv :: "locator_state \<Rightarrow> bool" where
  "ordered_inv s \<longleftrightarrow> locator_inv s \<and> early s = {} \<and> read_pos (queue s) \<le> write_pos (queue s) \<and>
    sorted_wrt before (in_flight s) \<and> (\<forall>st\<in>set (in_flight s). at_least (write_pos (queue s)) st) \<and>
    (\<forall>t b r. consumers s t = Head b r \<longrightarrow> r \<le> read_pos (queue s)) \<and>
    (\<forall>t b r. consumers s t = Swap b r \<longrightarrow> r \<le> read_pos (queue s) \<and> r < write_pos (queue s))"

lemma ordered_invD:
  assumes "ordered_inv s"
  shows "locator_inv s" "early s = {}" "read_pos (queue s) \<le> write_pos (queue s)" "sorted_wrt before (in_flight s)"
    "st \<in> set (in_flight s) \<Longrightarrow> at_least (write_pos (queue s)) st" "consumers s t = Head b r \<Longrightarrow> r \<le> read_pos (queue s)"
    "consumers s t = Swap b r \<Longrightarrow> r \<le> read_pos (queue s)" "consumers s t = Swap b r \<Longrightarrow> r < write_pos (queue s)"
    "write_pos (queue s) \<le> length (sent s)" "st \<in> set (in_flight s) \<Longrightarrow> store_of (sent s) st"
  using assms unfolding ordered_inv_def locator_inv_def stores_inv_def by blast+

lemma at_least_mono: "at_least n st \<Longrightarrow> m \<le> n \<Longrightarrow> at_least m st"
  by (cases st) auto

lemma may_load_In_order [simp]: "may_load In_order v current \<longleftrightarrow> v = current"
  by (auto simp: may_load_def)

text \<open>A planner that moves without touching the queue.\<close>

lemma ordered_inv_goto:
  assumes "ordered_inv s" "locator_step In_order s s'" "consumers s' = (consumers s)(t := c)"
    and "early s' = {}" "queue s' = queue s" "in_flight s' = in_flight s"
    and "\<And>b r. c = Head b r \<Longrightarrow> r \<le> read_pos (queue s)"
    and "\<And>b r. c = Swap b r \<Longrightarrow> r \<le> read_pos (queue s) \<and> r < write_pos (queue s)"
  shows "ordered_inv s'"
  using assms(1,4-8) locator_inv_step [OF ordered_invD(1) [OF assms(1)] assms(2)]
  unfolding ordered_inv_def assms(3) by (simp add: fun_upd_apply)

lemma ordered_inv_step:
  assumes inv: "ordered_inv s" and step: "locator_step In_order s s'"
  shows "ordered_inv s'"
  using step
proof (cases rule: locator_step.cases)
  case (push l)
  let ?n = "length (sent s)"
  have "write_pos (queue s) \<le> ?n" by (rule ordered_invD(9) [OF inv])
  then have "at_least (write_pos (queue s)) st" if "st \<in> set (push_stores ?n l)" for st
    using that by (auto simp: push_stores_def)
  moreover have "before st st'" if "st \<in> set (in_flight s)" "st' \<in> set (push_stores ?n l)" for st st'
    using ordered_invD(10) [OF inv that(1)] that(2) by (auto simp: before_def push_stores_def)
  moreover have "sorted_wrt before (push_stores ?n l)" by (simp add: push_stores_def before_def)
  ultimately show ?thesis
    using inv push(1) locator_inv_step [OF ordered_invD(1) [OF inv] step]
    by (auto simp: ordered_inv_def sorted_wrt_append)
next
  case finish
  then show ?thesis
    using inv locator_inv_step [OF ordered_invD(1) [OF inv] step]
    by (auto simp: ordered_inv_def sorted_wrt_append before_def)
next
  case (commit xs st ys)
  have fl: "in_flight s = st # ys" using commit(2,3) by simp
  have grows: "write_pos (queue s) \<le> write_pos (commit_store st (queue s))"
    using ordered_invD(5) [OF inv, of st] by (cases st) (simp_all add: fl locators_set_completed_def)
  have "at_least (write_pos (commit_store st (queue s))) st'" if "st' \<in> set ys" for st'
    using that ordered_invD(4,5) [OF inv] by (cases st) (auto simp: fl locators_set_completed_def before_def)
  then show ?thesis
    using inv commit(1,3) fl grows locator_inv_step [OF ordered_invD(1) [OF inv] step]
    by (auto simp: ordered_inv_def commit_queue(1) intro: order_trans [OF _ grows] less_le_trans [OF _ grows])
next
  case (swap_succeeds t b r)
  have r: "r < write_pos (queue s)" by (rule ordered_invD(8) [OF inv swap_succeeds(2)])
  have "consumers s' = (consumers s)(t := Reads r [Skip, Offset, Thread_index, Cpos] blank)"
    "queue s' = (queue s)\<lparr>read_pos := Suc r\<rparr>" "early s' = early s" "in_flight s' = in_flight s"
    by (simp_all add: swap_succeeds(1))
  then show ?thesis
    using inv r swap_succeeds(3) locator_inv_step [OF ordered_invD(1) [OF inv] step] unfolding ordered_inv_def
    by (auto simp: fun_upd_apply split: if_splits intro: le_SucI)
next
  case (load_read t b r)
  show ?thesis by (rule ordered_inv_goto [OF inv step]) (use inv load_read in \<open>auto simp: ordered_inv_def\<close>)
next
  case (load_write_empty t b r)
  show ?thesis
    by (rule ordered_inv_goto [OF inv step]) (use inv load_write_empty in \<open>auto simp: ordered_inv_def split: if_splits\<close>)
next
  case (load_write_item t b r w)
  have "r \<le> read_pos (queue s)" "r < write_pos (queue s)"
    using ordered_invD(6) [OF inv load_write_item(2)] ordered_invD(3) [OF inv] load_write_item(3,4) by simp_all
  then show ?thesis by (intro ordered_inv_goto [OF inv step]) (use inv load_write_item in \<open>auto simp: ordered_inv_def\<close>)
next
  case (swap_fails t b r r')
  show ?thesis by (rule ordered_inv_goto [OF inv step]) (use inv swap_fails in \<open>auto simp: ordered_inv_def\<close>)
next
  case (load_field t r f fs l)
  have "holds s t r" using load_field(2) by (simp add: holds_def)
  then have "r < read_pos (queue s)"
    using ordered_invD(1) [OF inv] unfolding locator_inv_def claims_inv_def by blast
  then have r: "r < write_pos (queue s)" using ordered_invD(3) [OF inv] by simp
  then have "Store_field f r x \<notin> set (in_flight s)" for x using ordered_invD(5) [OF inv, of "Store_field f r x"] by auto
  then have "arrived s f r" using r ordered_invD(9) [OF inv] by (simp add: arrived_def)
  then show ?thesis by (intro ordered_inv_goto [OF inv step]) (use inv load_field in \<open>auto simp: ordered_inv_def\<close>)
next
  case (hand_over t r l)
  show ?thesis by (rule ordered_inv_goto [OF inv step]) (use inv hand_over in \<open>auto simp: ordered_inv_def\<close>)
next
  case (poll_again t)
  show ?thesis by (rule ordered_inv_goto [OF inv step]) (use inv poll_again in \<open>auto simp: ordered_inv_def\<close>)
next
  case (poll_stops t)
  show ?thesis by (rule ordered_inv_goto [OF inv step]) (use inv poll_stops in \<open>auto simp: ordered_inv_def\<close>)
qed

lemma ordered_inv_start: "ordered_inv (locator_start table0)"
  by (simp add: ordered_inv_def locator_inv_start) (simp add: locator_start_def locators_new_def)

interpretation ordered_queue: protocol_invariant "locator_step In_order" locator_start ordered_inv
  by unfold_locales (fact ordered_inv_start ordered_inv_step)+

subsection \<open>Runs\<close>

text \<open>Runs that both machines have: loads give the current values, and the stores arrive in order.\<close>

lemma may_load_refl [simp]: "may_load m v v"
  by (simp add: may_load_def)

lemma reach_commits:
  assumes "reachable (locator_step m) s0 s" "in_flight s = sts @ rest"
  shows "reachable (locator_step m) s0 (s\<lparr>queue := fold commit_store sts (queue s), in_flight := rest\<rparr>)"
  using assms
proof (induction sts arbitrary: s)
  case Nil
  then have "s\<lparr>queue := queue s, in_flight := rest\<rparr> = s" by (cases s) simp
  then show ?case using Nil.prems(1) by simp
next
  case (Cons st sts)
  have "may_overtake m st []" by (cases m; cases st) simp_all
  with reachable_step [OF Cons.prems(1), OF commit [of _ "[]" st "sts @ rest"]] Cons.prems(2)
  have "reachable (locator_step m) s0 (s\<lparr>queue := commit_store st (queue s), in_flight := sts @ rest\<rparr>)" by simp
  from Cons.IH [OF this] show ?case by simp
qed

text \<open>A locator is pushed, and its stores arrive.\<close>

lemma fold_push_stores:
  "fold commit_store (push_stores p l) q = q\<lparr>loc_table := (loc_table q)(p := l), write_pos := p + 1\<rparr>"
proof -
  have "(x :: MemLocator)\<lparr>loc_thread := loc_thread l, loc_offset := loc_offset l, loc_cpos := loc_cpos l, loc_skip := loc_skip l\<rparr> = l"
    for x by (cases x, cases l) simp
  note eq = this [of "loc_table q p"]
  show ?thesis by (simp add: push_stores_def eq)
qed

lemma reach_pushed:
  assumes "reachable (locator_step m) s0 s" "in_flight s = []" "sent s = []" "\<not> done_pushing s"
  shows "reachable (locator_step m) s0
    (s\<lparr>queue := (queue s)\<lparr>loc_table := (loc_table (queue s))(0 := l), write_pos := 1\<rparr>, sent := [l]\<rparr>)"
proof -
  have "reachable (locator_step m) s0 (s\<lparr>in_flight := push_stores 0 l, sent := [l]\<rparr>)"
    using reachable_step [OF assms(1), OF push [of _ _ l]] assms(2-4) by simp
  from reach_commits [OF this, of "push_stores 0 l" "[]"] assms(2) show ?thesis
    by (cases s) (simp add: fold_push_stores)
qed

lemma reach_completed:
  assumes "reachable (locator_step m) s0 s" "in_flight s = []" "\<not> done_pushing s"
  shows "reachable (locator_step m) s0 (s\<lparr>queue := locators_set_completed (queue s), done_pushing := True\<rparr>)"
proof -
  have "reachable (locator_step m) s0 (s\<lparr>in_flight := [Store_completed], done_pushing := True\<rparr>)"
    using reachable_step [OF assms(1), OF finish] assms(2,3) by simp
  from reach_commits [OF this, of "[Store_completed]" "[]"] assms(2) show ?thesis by (cases s) simp
qed

text \<open>A planner takes the next locator.\<close>

lemma reach_fields:
  assumes "reachable (locator_step m) s0 s" "consumers s t = Reads r fs l"
    and "l' = fold (\<lambda>f. set_field f (get_field f (loc_table (queue s) r))) fs l" "cs = (consumers s)(t := Reads r [] l')"
  shows "reachable (locator_step m) s0
    (s\<lparr>consumers := cs, early := (if \<forall>f\<in>set fs. arrived s f r then early s else insert r (early s))\<rparr>)"
  using assms
proof (induction fs arbitrary: s l)
  case Nil
  then have "cs = consumers s" by auto
  then have "s\<lparr>consumers := cs, early := early s\<rparr> = s" by (cases s) simp
  then show ?case using Nil.prems(1) by simp
next
  case (Cons f fs)
  let ?l = "set_field f (get_field f (loc_table (queue s) r)) l"
  let ?s = "goto t (Reads r fs ?l) (s\<lparr>early := (if arrived s f r then early s else insert r (early s))\<rparr>)"
  have "reachable (locator_step m) s0 ?s" using reachable_step [OF Cons.prems(1), OF load_field [OF Cons.prems(2)]] .
  from Cons.IH [OF this, of ?l] Cons.prems(3,4)
  have "reachable (locator_step m) s0 (?s\<lparr>consumers := cs,
      early := (if \<forall>f\<in>set fs. arrived s f r then early ?s else insert r (early ?s))\<rparr>)" by (simp add: arrived_def cong: if_cong)
  then show ?case by (cases s) (auto split: if_splits)
qed

lemma fold_fields: "fold (\<lambda>f. set_field f (get_field f l)) [Skip, Offset, Thread_index, Cpos] x = l"
  by (rule fields_eqI) (cases l, case_tac f, simp_all)

lemma reach_loaded:
  assumes "reachable (locator_step m) s0 s" "consumers s t = Enter False" "read_pos (queue s) < write_pos (queue s)"
  shows "reachable (locator_step m) s0 (s\<lparr>queue := (queue s)\<lparr>read_pos := read_pos (queue s) + 1\<rparr>,
    consumers := (consumers s)(t := Reads (read_pos (queue s)) [] (loc_table (queue s) (read_pos (queue s)))),
    early := (if \<forall>f. arrived s f (read_pos (queue s)) then early s else insert (read_pos (queue s)) (early s))\<rparr>)"
proof -
  let ?r = "read_pos (queue s)"
  have 1: "reachable (locator_step m) s0 (goto t (Head False ?r) s)"
    using reachable_step [OF assms(1), OF load_read [OF assms(2)]] by simp
  have 2: "reachable (locator_step m) s0 (goto t (Swap False ?r) s)"
    using reachable_step [OF 1, OF load_write_item [of _ t False ?r m "write_pos (queue s)"]] assms(3) by simp
  have 3: "reachable (locator_step m) s0 (goto t (Reads ?r [Skip, Offset, Thread_index, Cpos] blank)
      (s\<lparr>queue := (queue s)\<lparr>read_pos := ?r + 1\<rparr>\<rparr>))" (is "reachable _ _ ?s")
    using reachable_step [OF 2, OF swap_succeeds [of _ t False ?r]] by simp
  have table: "loc_table (queue ?s) = loc_table (queue s)" by simp
  have "reachable (locator_step m) s0 (?s\<lparr>consumers := (consumers s)(t := Reads ?r [] (loc_table (queue s) ?r)),
      early := (if \<forall>f\<in>set [Skip, Offset, Thread_index, Cpos]. arrived ?s f ?r then early ?s else insert ?r (early ?s))\<rparr>)"
    by (rule reach_fields [OF 3, of t ?r _ blank, unfolded table, OF _ fold_fields [symmetric]]) simp_all
  then show ?thesis unfolding all_fields by (cases s) (simp add: arrived_def cong: if_cong)
qed

lemma reach_taken:
  assumes "reachable (locator_step m) s0 s" "consumers s t = Enter False" "read_pos (queue s) < write_pos (queue s)"
  shows "reachable (locator_step m) s0 (s\<lparr>queue := (queue s)\<lparr>read_pos := read_pos (queue s) + 1\<rparr>,
    handed := handed s @ [(t, read_pos (queue s), loc_table (queue s) (read_pos (queue s)))],
    early := (if \<forall>f. arrived s f (read_pos (queue s)) then early s else insert (read_pos (queue s)) (early s))\<rparr>)"
proof -
  let ?r = "read_pos (queue s)"
  have "(consumers s)(t := Enter False) = consumers s" using assms(2) by auto
  with reachable_step [OF reach_loaded [OF assms], OF hand_over [of _ t ?r "loc_table (queue s) ?r"]]
  show ?thesis by (cases s) simp
qed

subsection \<open>Properties\<close>

text \<open>
  C13: No locator is handed out twice. On either machine, under any interleaving of the producer, of its stores on their way
  to memory and of any number of planners: every position below \<open>read_pos\<close> is with exactly one planner, which still loads
  its fields or has got the locator, and only those positions are; and a locator all of whose fields were loaded after their
  stores had reached memory is the one that was pushed at its position. That every locator pushed is handed out is not
  claimed (\<open>locator_lost\<close>), nor that no field is loaded early (\<open>relaxed_hands_unwritten\<close>).
\<close>

theorem locators_handed_once:
  assumes "reachable (locator_step m) (locator_start table0) s"
  shows "distinct (positions s) \<and> (\<forall>t k. holds s t k \<longrightarrow> k \<notin> set (positions s)) \<and>
    (\<forall>t t' k. holds s t k \<and> holds s t' k \<longrightarrow> t = t') \<and>
    (\<forall>k. k < read_pos (queue s) \<longleftrightarrow> k \<in> set (positions s) \<or> (\<exists>t. holds s t k)) \<and>
    (\<forall>(t, k, l)\<in>set (handed s). k \<notin> early s \<longrightarrow> k < length (sent s) \<and> l = sent s ! k)"
  using locator_queue.reachable_inv [OF assms] unfolding locator_inv_def claims_inv_def loaded_inv_def by blast

text \<open>
  C14: On a machine that keeps the program order of stores and loads, the relaxed store of \<open>push_locator\<close> is enough. Whatever
  the interleaving, no field is loaded before it is written, no planner gets ahead of what was pushed, and every locator a
  planner gets is the one that was pushed at its position.
\<close>

theorem in_order_hands_sent:
  assumes "reachable (locator_step In_order) (locator_start table0) s"
  shows "early s = {} \<and> read_pos (queue s) \<le> length (sent s) \<and>
    (\<forall>(t, k, l)\<in>set (handed s). k < length (sent s) \<and> l = sent s ! k)"
proof -
  note inv = ordered_queue.reachable_inv [OF assms]
  have "loaded_inv s" using ordered_invD(1) [OF inv] by (simp add: locator_inv_def)
  then show ?thesis
    using ordered_invD(2,3,9) [OF inv] loaded_invD(1) [of s] by (auto intro: order_trans)
qed

text \<open>
  C15: On a machine that does not, it is not: the new \<open>write_pos\<close> can reach the planners before the fields, and a planner
  then gets a locator that nobody pushed, whatever the slot held before.
\<close>

theorem relaxed_hands_unwritten:
  "\<exists>s. reachable (locator_step Reordering) (locator_start table0) s \<and> sent s = [l] \<and> handed s = [(t, 0, table0 0)]"
proof -
  let ?s = "locator_start table0"
  let ?sts = "[Store_field Thread_index 0 (loc_thread l), Store_field Offset 0 (loc_offset l),
    Store_field Cpos 0 (loc_cpos l), Store_field Skip 0 (loc_skip l)]"
  have "reachable (locator_step Reordering) ?s (?s\<lparr>in_flight := push_stores 0 l, sent := [l]\<rparr>)"
    using reachable_step [of "locator_step Reordering" ?s ?s, OF reachable_start push [of ?s Reordering l]]
    by (simp add: locator_start_def)
  from reachable_step [OF this, OF commit [of _ ?sts "Store_write_pos 1" "[]"]]
  have "reachable (locator_step Reordering) ?s
      (?s\<lparr>in_flight := ?sts, sent := [l], queue := (locators_new table0)\<lparr>write_pos := 1\<rparr>\<rparr>)"
    by (simp add: push_stores_def locator_start_def)
  from reach_taken [OF this, of t] show ?thesis by (auto simp: locator_start_def locators_new_def split: if_splits)
qed

text \<open>
  Nor does the acquire load of \<open>write_pos\<close> help: it does not wait for the relaxed load of \<open>read_pos\<close> before it. A planner can
  see the position another planner has moved on to with a \<open>write_pos\<close> from before, take them for different, and claim a
  position nobody has pushed to.
\<close>

theorem stale_load_overruns:
  "\<exists>s. reachable (locator_step Reordering) (locator_start table0) s \<and> sent s = [l] \<and> holds s 1 1"
proof -
  let ?s = "locator_start table0"
  obtain s where s: "reachable (locator_step Reordering) ?s s" "sent s = [l]" "read_pos (queue s) = 1" "write_pos (queue s) = 1"
    "consumers s = (\<lambda>_. Enter False)"
  proof -
    have "reachable (locator_step Reordering) ?s
        (?s\<lparr>queue := (queue ?s)\<lparr>loc_table := (loc_table (queue ?s))(0 := l), write_pos := 1\<rparr>, sent := [l]\<rparr>)"
      by (rule reach_pushed [OF reachable_start]) (simp_all add: locator_start_def)
    from reach_taken [OF this, of 0] show thesis by (rule that) (simp_all add: locator_start_def locators_new_def)
  qed
  have 1: "reachable (locator_step Reordering) ?s (goto 1 (Head False 1) s)"
    using reachable_step [OF s(1), OF load_read [of _ 1 False Reordering 1]] by (simp add: s may_load_def)
  have 2: "reachable (locator_step Reordering) ?s (goto 1 (Swap False 1) s)"
    using reachable_step [OF 1, OF load_write_item [of _ 1 False 1 Reordering 0]] by (simp add: s may_load_def)
  from reachable_step [OF 2, OF swap_succeeds [of _ 1 False 1]] show ?thesis
    by (intro exI conjI) (assumption | simp add: s holds_def)+
qed

text \<open>A planner that finds the queue empty twice waits at the completion flag.\<close>

lemma reach_poll:
  assumes "reachable (locator_step m) s0 s" "consumers s t = Enter False" "read_pos (queue s) = write_pos (queue s)"
  shows "reachable (locator_step m) s0 (goto t Poll s)"
proof -
  have again: "(s\<lparr>consumers := f\<rparr>)\<lparr>consumers := g\<rparr> = s\<lparr>consumers := g\<rparr>" for f g by simp
  have 1: "reachable (locator_step m) s0 (goto t (Head b (read_pos (queue s))) s')"
    if "reachable (locator_step m) s0 s'" "consumers s' t = Enter b" "queue s' = queue s" for s' b
    using reachable_step [OF that(1), OF load_read [OF that(2)]] that(3) by simp
  have 2: "reachable (locator_step m) s0 (goto t (if b then Poll else Enter True) s')"
    if "reachable (locator_step m) s0 s'" "consumers s' t = Head b (read_pos (queue s))" "queue s' = queue s" for s' b
    using reachable_step [OF that(1), OF load_write_empty [OF that(2)]] that(3) assms(3) by simp
  have 3: "reachable (locator_step m) s0 (goto t (if b then Poll else Enter True) s')"
    if "reachable (locator_step m) s0 s'" "consumers s' t = Enter b" "queue s' = queue s" for s' b
    using 2 [OF 1 [OF that]] that(3) by simp
  from 3 [OF assms(1,2)] have "reachable (locator_step m) s0 (goto t (Enter True) s)" by simp
  from 3 [OF this, of True] show ?thesis by simp
qed

text \<open>
  A locator can be lost. \<open>get_next_locator\<close> stops on the completion flag it loads after its last look at the
  queue; if the producer pushes and completes in between, all of the planners can stop with a published locator that
  nobody has taken, on either machine.
\<close>

theorem locator_lost:
  "\<exists>s. reachable (locator_step m) (locator_start table0) s \<and>
    map (consumers s) [0..<MAX_MEM_PLANNERS] = replicate MAX_MEM_PLANNERS Gone \<and>
    sent s = [l] \<and> in_flight s = [] \<and> handed s = []"
proof -
  let ?s = "\<lambda>cs. (locator_start table0)\<lparr>consumers := cs\<rparr>"
  let ?polls = "\<lambda>n t. if t < n then Poll else Enter False"
  have polls: "reachable (locator_step m) (locator_start table0) (?s (?polls n))" for n
  proof (induction n)
    case 0
    have "?s (\<lambda>t. Enter False) = locator_start table0" by (simp add: locator_start_def)
    then show ?case by (simp add: reachable_start)
  next
    case (Suc n)
    have "(?polls n)(n := Poll) = ?polls (Suc n)" by auto
    with reach_poll [OF Suc, of n] show ?case by (simp add: locator_start_def locators_new_def)
  qed
  let ?q = "\<lparr>write_pos = 1, read_pos = 0, loc_completed = True, loc_table = table0(0 := l)\<rparr>"
  let ?e = "\<lambda>cs. \<lparr>queue = ?q, in_flight = [], sent = [l], done_pushing = True, consumers = cs, handed = [], early = {}\<rparr>"
  have "reachable (locator_step m) (locator_start table0)
      \<lparr>queue = ?q\<lparr>loc_completed := False\<rparr>, in_flight = [], sent = [l], done_pushing = False, consumers = ?polls n, handed = [], early = {}\<rparr>" for n
    using reach_pushed [OF polls [of n], of l] by (simp add: locator_start_def locators_new_def)
  from reach_completed [OF this] have pushed: "reachable (locator_step m) (locator_start table0) (?e (?polls n))" for n
    by (simp add: locators_set_completed_def)
  let ?cs = "\<lambda>n t. if t < n then Gone else if t < MAX_MEM_PLANNERS then Poll else Enter False"
  have "n \<le> MAX_MEM_PLANNERS \<Longrightarrow> reachable (locator_step m) (locator_start table0) (?e (?cs n))" for n
  proof (induction n)
    case 0
    have "?cs 0 = ?polls MAX_MEM_PLANNERS" by auto
    then show ?case using pushed [of MAX_MEM_PLANNERS] by (simp only:)
  next
    case (Suc n)
    have "(?cs n)(n := Gone) = ?cs (Suc n)" by auto
    moreover have "n \<le> MAX_MEM_PLANNERS" using Suc.prems by (rule Suc_leD)
    then have "reachable (locator_step m) (locator_start table0) (?e (?cs n))" by (rule Suc.IH)
    from reachable_step [OF this, OF poll_stops [of _ n]]
    have "reachable (locator_step m) (locator_start table0) (goto n Gone (?e (?cs n)))"
      using Suc.prems by (simp add: is_completed_def)
    ultimately show ?case by (simp only: locator_state.simps)
  qed
  then have "reachable (locator_step m) (locator_start table0) (?e (?cs MAX_MEM_PLANNERS))" by blast
  then show ?thesis
    by (intro exI [of _ "?e (?cs MAX_MEM_PLANNERS)"]) (simp add: list_eq_iff_nth_eq)
qed

subsection \<open>Witnesses\<close>

text \<open>One locator pushed, its fields loaded by planner \<open>t\<close>, and handed over.\<close>

lemma reach_loaded1:
  obtains s where "reachable (locator_step m) (locator_start table0) s" "sent s = [l]" "handed s = []" "early s = {}"
    "\<not> done_pushing s" "consumers s t = Reads 0 [] l"
proof -
  let ?s = "locator_start table0"
  have "reachable (locator_step m) ?s
      (?s\<lparr>queue := (queue ?s)\<lparr>loc_table := (loc_table (queue ?s))(0 := l), write_pos := 1\<rparr>, sent := [l]\<rparr>)"
    by (rule reach_pushed [OF reachable_start]) (simp_all add: locator_start_def)
  from reach_loaded [OF this, of t] show thesis
    by (rule that) (simp_all add: locator_start_def locators_new_def arrived_def)
qed

lemma reach_handed1:
  obtains s where "reachable (locator_step m) (locator_start table0) s" "sent s = [l]" "handed s = [(t, 0, l)]" "early s = {}"
proof -
  obtain s where s: "reachable (locator_step m) (locator_start table0) s" "sent s = [l]" "handed s = []" "early s = {}"
    "consumers s t = Reads 0 [] l" by (rule reach_loaded1)
  from reachable_step [OF s(1), OF hand_over [OF s(5)]] show thesis by (rule that) (simp_all add: s)
qed

theorem locators_handed_once_witness:
  "\<exists>s. reachable (locator_step Reordering) (locator_start (\<lambda>_. blank)) s \<and> handed s = [(3, 0, loc1)] \<and> early s = {} \<and>
    distinct (positions s) \<and> sent s ! 0 = loc1"
proof -
  obtain s where s: "reachable (locator_step Reordering) (locator_start (\<lambda>_. blank)) s" "sent s = [loc1]"
    "handed s = [(3, 0, loc1)]" "early s = {}" by (rule reach_handed1)
  show ?thesis using locators_handed_once [OF s(1)] s by (intro exI [of _ s]) simp
qed

theorem in_order_hands_sent_witness:
  "\<exists>s. reachable (locator_step In_order) (locator_start (\<lambda>_. blank)) s \<and> handed s = [(3, 0, loc1)] \<and>
    early s = {} \<and> loc1 = sent s ! 0"
proof -
  obtain s where s: "reachable (locator_step In_order) (locator_start (\<lambda>_. blank)) s" "handed s = [(3, 0, loc1)]"
    by (rule reach_handed1)
  show ?thesis using in_order_hands_sent [OF s(1)] s by (intro exI [of _ s]) simp
qed

end
