(* ===== verification/Plan_Schedule.thy ===== *)
theory Plan_Schedule
  imports Ram_Pipeline Count_Schedule Locator_Protocol
begin

text \<open>
  The plan phase of the RAM as it runs: the thread of \<open>generate_locators\<close> pushes its locators while the planners
  take them, build their segments and store them in the map of the segments. A state pairs the protocol of
  \<open>Locator_Protocol\<close> with the planners, the segments they have built and not yet stored, and the map. As long as no
  planner loads a field of a locator before its store has reached memory, which cannot happen on a machine that keeps the
  program order, the map ends as the plan of the stream of entries, whatever the order of the steps. With
  \<open>Count_Schedule\<close> this is the program from the first published chunk to the plan under any interleaving.
\<close>

subsection \<open>Steps\<close>

text \<open>One turn of the loop of \<open>execute_from_locators\<close>: build the segment, hand it over with its id, and forget it.\<close>

definition planner_turn ::
  "MemCounter list \<Rightarrow> nat \<times> MemLocator \<Rightarrow> MemPlanner \<times> (u32 \<times> MemSegment option) list \<Rightarrow>
    (MemPlanner \<times> (u32 \<times> MemSegment option) list) run" where
  "planner_turn ws = (\<lambda>(k, loc) (pl, stores).
    bindR (execute_from_locator ws (of_nat k) loc pl) (\<lambda>pl.
    Some (Inr (pl\<lparr>current_segment := None\<rparr>, stores @ [(of_nat k, current_segment pl)]))))"

text \<open>\<open>broken\<close>: a call of \<open>execute_from_locator\<close> has failed or does not return.\<close>

record plan_state =
  loc_protocol :: locator_state
  planners :: "nat \<Rightarrow> MemPlanner"
  built :: "nat \<Rightarrow> (u32 \<times> MemSegment option) option"
  plan_segments :: MemSegments
  broken :: bool

definition plan_start :: "(nat \<Rightarrow> MemLocator) \<Rightarrow> (nat \<Rightarrow> MemPlanner) \<Rightarrow> plan_state" where
  "plan_start tbl pls = \<lparr>loc_protocol = locator_start tbl, planners = pls, built = (\<lambda>_. None), plan_segments = Map.empty,
    broken = False\<rparr>"

text \<open>
  \<open>ls\<close> are the locators \<open>generate_locators\<close> pushes, in order, before it sets the completion. A planner with a segment it
  has not stored is handed no other locator. What it does with a locator is decided by what it loaded.
\<close>

inductive plan_step :: "machine \<Rightarrow> MemCounter list \<Rightarrow> MemLocator list \<Rightarrow> plan_state \<Rightarrow> plan_state \<Rightarrow> bool" for m ws ls where
  queue_moves: "locator_step m (loc_protocol s) p \<Longrightarrow> handed p = handed (loc_protocol s) \<Longrightarrow> prefix (sent p) ls \<Longrightarrow>
    done_pushing p \<longrightarrow> sent p = ls \<Longrightarrow> plan_step m ws ls s (s\<lparr>loc_protocol := p\<rparr>)"
| builds_segment: "built s t = None \<Longrightarrow> locator_step m (loc_protocol s) p \<Longrightarrow>
    handed p = handed (loc_protocol s) @ [(t, k, loc)] \<Longrightarrow>
    planner_turn ws (k, loc) (planners s t, []) = Some (Inr (pl, [store])) \<Longrightarrow>
    plan_step m ws ls s (s\<lparr>loc_protocol := p, planners := (planners s)(t := pl), built := (built s)(t \<mapsto> store)\<rparr>)"
| breaks: "built s t = None \<Longrightarrow> locator_step m (loc_protocol s) p \<Longrightarrow>
    handed p = handed (loc_protocol s) @ [(t, k, loc)] \<Longrightarrow>
    (\<nexists>pl store. planner_turn ws (k, loc) (planners s t, []) = Some (Inr (pl, [store]))) \<Longrightarrow>
    plan_step m ws ls s (s\<lparr>loc_protocol := p, broken := True\<rparr>)"
| stores_segment: "built s t = Some (w, v) \<Longrightarrow>
    plan_step m ws ls s (s\<lparr>built := (built s)(t := None), plan_segments := segments_set w v (plan_segments s)\<rparr>)"

lemma plan_step_protocol:
  "plan_step m ws ls s s' \<Longrightarrow> locator_step m (loc_protocol s) (loc_protocol s') \<or> loc_protocol s' = loc_protocol s"
  by (cases rule: plan_step.cases) auto

subsection \<open>The invariant\<close>

text \<open>
  Every locator handed out is built or stored, and what is built or stored is the segment of a locator handed out, unless a
  field was loaded early. \<open>good k\<close> is what is wanted of segment \<open>k\<close>, \<open>ok\<close> what a planner needs between two turns.
\<close>

definition segment_of :: "(nat \<Rightarrow> MemSegment \<Rightarrow> bool) \<Rightarrow> nat set \<Rightarrow> u32 \<Rightarrow> MemSegment option \<Rightarrow> bool" where
  "segment_of good K w v \<longleftrightarrow> (\<exists>k\<in>K. \<exists>sg. w = of_nat k \<and> v = Some sg \<and> good k sg)"

definition timely_inv ::
  "MemCounter list \<Rightarrow> MemLocator list \<Rightarrow> (MemPlanner \<Rightarrow> bool) \<Rightarrow> (nat \<Rightarrow> MemSegment \<Rightarrow> bool) \<Rightarrow> plan_state \<Rightarrow> bool" where
  "timely_inv ws ls ok good s \<longleftrightarrow>
    (\<forall>k<length ls. builds ws ok k (ls ! k) (good k)) \<and> prefix (sent (loc_protocol s)) ls \<and>
    \<not> broken s \<and> (\<forall>t. ok (planners s t)) \<and>
    (let K = set (positions (loc_protocol s)) in
     (\<forall>w v. plan_segments s w = Some v \<longrightarrow> segment_of good K w v) \<and>
     (\<forall>t w v. built s t = Some (w, v) \<longrightarrow> segment_of good K w v) \<and>
     (\<forall>k\<in>K. plan_segments s (of_nat k) \<noteq> None \<or> (\<exists>t v. built s t = Some (of_nat k, v))))"

definition plan_inv ::
  "MemCounter list \<Rightarrow> MemLocator list \<Rightarrow> (MemPlanner \<Rightarrow> bool) \<Rightarrow> (nat \<Rightarrow> MemSegment \<Rightarrow> bool) \<Rightarrow> plan_state \<Rightarrow> bool" where
  "plan_inv ws ls ok good s \<longleftrightarrow> early (loc_protocol s) = {} \<longrightarrow> timely_inv ws ls ok good s"

lemma segment_of_insert: "segment_of good K w v \<Longrightarrow> segment_of good (insert k K) w v"
  unfolding segment_of_def by blast

text \<open>What a step of the queue hands out.\<close>

lemma early_grows: "locator_step m p p' \<Longrightarrow> early p \<subseteq> early p'"
  by (cases rule: locator_step.cases) auto

lemma sent_quiet: "locator_step m p p' \<Longrightarrow> handed p' \<noteq> handed p \<Longrightarrow> sent p' = sent p"
  by (cases rule: locator_step.cases) auto

lemma handing_step:
  assumes "locator_step m p p'" "handed p' = handed p @ [(t, k, loc)]" "locator_inv p" "early p' = {}"
  shows "set (positions p') = insert k (set (positions p))" "sent p' = sent p" "k < length (sent p)" "loc = sent p ! k"
proof -
  show "set (positions p') = insert k (set (positions p))" by (simp add: positions_def assms(2))
  show same: "sent p' = sent p" using sent_quiet [OF assms(1)] assms(2) by simp
  have "loaded_inv p'" using locator_inv_step [OF assms(3,1)] by (simp add: locator_inv_def)
  then show "k < length (sent p)" "loc = sent p ! k"
    using loaded_invD(1) [of p' k t loc] assms(2,4) same by simp_all
qed

text \<open>A turn of a planner that is ready builds the segment of its locator.\<close>

lemma turn_builds:
  assumes "builds ws ok k loc good" "ok pl"
  shows "\<exists>pl' sg. planner_turn ws (k, loc) (pl, []) = Some (Inr (pl', [(of_nat k, Some sg)])) \<and> ok pl' \<and> good sg"
proof -
  obtain pl1 s where "execute_from_locator ws (of_nat k) loc pl = Some (Inr pl1)"
    "current_segment pl1 = Some s" "good s" "ok (pl1\<lparr>current_segment := None\<rparr>)"
    using assms unfolding builds_def by blast
  then show ?thesis by (auto simp: planner_turn_def)
qed

lemma timely_inv_step:
  assumes p: "locator_inv (loc_protocol s)" and inv: "timely_inv ws ls ok good s" and step: "plan_step m ws ls s s'"
    and early: "early (loc_protocol s') = {}"
  shows "timely_inv ws ls ok good s'"
proof -
  let ?K = "set (positions (loc_protocol s))"
  have bld: "\<forall>k<length ls. builds ws ok k (ls ! k) (good k)" and pre: "prefix (sent (loc_protocol s)) ls"
    and up: "\<not> broken s" "\<forall>t. ok (planners s t)"
    and segs: "\<And>w v. plan_segments s w = Some v \<Longrightarrow> segment_of good ?K w v"
    and blt: "\<And>t w v. built s t = Some (w, v) \<Longrightarrow> segment_of good ?K w v"
    and all: "\<And>k. k \<in> ?K \<Longrightarrow> plan_segments s (of_nat k) \<noteq> None \<or> (\<exists>t v. built s t = Some (of_nat k, v))"
    using inv unfolding timely_inv_def Let_def by blast+
  have turn: "\<exists>pl sg. planner_turn ws (k, loc) (planners s t, []) = Some (Inr (pl, [(of_nat k, Some sg)])) \<and> ok pl \<and> good k sg"
    if "locator_step m (loc_protocol s) p'" "handed p' = handed (loc_protocol s) @ [(t, k, loc)]" "early p' = {}" for p' t k loc
  proof -
    note h = handing_step [OF that(1,2) p that(3)]
    have "loc = ls ! k" "k < length ls" using h(3,4) pre by (auto simp: prefix_def nth_append)
    then show ?thesis using turn_builds bld up(2) by blast
  qed
  from step show ?thesis
  proof (cases rule: plan_step.cases)
    case (queue_moves p')
    have "positions p' = positions (loc_protocol s)" by (simp add: positions_def queue_moves(3))
    then show ?thesis using inv queue_moves(1,4) by (simp add: timely_inv_def Let_def)
  next
    case (builds_segment t p' k loc pl store)
    have e: "early p' = {}" using early builds_segment(1) by simp
    note h = handing_step [OF builds_segment(3,4) p e]
    obtain sg where sg: "store = (of_nat k, Some sg)" "ok pl" "good k sg"
      using turn [OF builds_segment(3,4) e] builds_segment(5) by auto
    have new: "segment_of good (insert k ?K) (of_nat k) (Some sg)" unfolding segment_of_def using sg(3) by blast
    have "segment_of good (insert k ?K) w v" if "((built s)(t \<mapsto> store)) t' = Some (w, v)" for t' w v
      using that new blt segment_of_insert sg(1) by (cases "t' = t") auto
    moreover have "plan_segments s (of_nat j) \<noteq> None \<or> (\<exists>t' v. ((built s)(t \<mapsto> store)) t' = Some (of_nat j, v))"
      if "j \<in> insert k ?K" for j
    proof (cases "j = k")
      case False
      then have "j \<in> ?K" using that by simp
      then consider "plan_segments s (of_nat j) \<noteq> None" | t' v where "built s t' = Some (of_nat j, v)" using all by blast
      then show ?thesis
      proof cases
        case (2 t' v)
        then have "((built s)(t \<mapsto> store)) t' = Some (of_nat j, v)" using builds_segment(2) by auto
        then show ?thesis by blast
      qed simp
    qed (use sg(1) in auto)
    ultimately show ?thesis
      using builds_segment(1) h(1,2) bld pre up sg(2) segment_of_insert segs by (simp add: timely_inv_def Let_def)
  next
    case (breaks t p' k loc)
    then show ?thesis using turn [OF breaks(3,4)] early by auto
  next
    case (stores_segment t w v)
    have "segment_of good ?K w' v'" if "segments_set w v (plan_segments s) w' = Some v'" for w' v'
      using that segs blt [OF stores_segment(2)] by (auto simp: segments_set_def split: if_splits)
    moreover have "segments_set w v (plan_segments s) (of_nat k) \<noteq> None \<or> (\<exists>t' v. ((built s)(t := None)) t' = Some (of_nat k, v))"
      if k: "k \<in> ?K" for k
    proof (cases "w = of_nat k \<or> plan_segments s (of_nat k) \<noteq> None")
      case False
      then obtain t' v' where "built s t' = Some (of_nat k, v')" using all [OF k] by blast
      then have "((built s)(t := None)) t' = Some (of_nat k, v')" using False stores_segment(2) by auto
      then show ?thesis by blast
    qed (auto simp: segments_set_def)
    ultimately show ?thesis
      using stores_segment(1) bld pre up blt by (simp add: timely_inv_def Let_def)
  qed
qed

lemma plan_inv_step:
  assumes "locator_inv (loc_protocol s)" "plan_inv ws ls ok good s" "plan_step m ws ls s s'"
  shows "plan_inv ws ls ok good s'"
proof -
  have "early (loc_protocol s) \<subseteq> early (loc_protocol s')" using plan_step_protocol [OF assms(3)] by (auto dest: early_grows)
  then show ?thesis using assms timely_inv_step unfolding plan_inv_def by blast
qed

interpretation plan_threads:
  protocol_extension "locator_step m" locator_start locator_inv "plan_step m ws ls" loc_protocol "plan_inv ws ls ok good"
  for m ws ls ok good
  by unfold_locales (use plan_step_protocol plan_inv_step in blast)+

subsection \<open>The plan\<close>

lemma plan_inv_start:
  assumes "\<forall>k<length ls. builds ws ok k (ls ! k) (good k)" "\<forall>t. ok (pls t)"
  shows "plan_inv ws ls ok good (plan_start tbl pls)"
  using assms by (simp add: plan_inv_def timely_inv_def plan_start_def locator_start_def positions_def)

text \<open>When every locator is handed out and every segment stored, the map is complete.\<close>

lemma timely_inv_complete:
  assumes "timely_inv ws ls ok good s" "set (positions (loc_protocol s)) = {..<n}" "\<forall>t. built s t = None" "n \<le> 4294967296"
  shows "\<exists>S. plan_segments s = segments_upto 0 n S Map.empty \<and> (\<forall>k<n. good k (S k))"
proof -
  have segs: "\<And>w v. plan_segments s w = Some v \<Longrightarrow> segment_of good {..<n} w v" and all: "\<And>k. k < n \<Longrightarrow> plan_segments s (of_nat k) \<noteq> None"
    using assms(1,3) unfolding timely_inv_def Let_def assms(2) by auto
  have "\<exists>sg. plan_segments s (of_nat k) = Some (Some sg) \<and> good k sg" if k: "k < n" for k
  proof -
    obtain v where v: "plan_segments s (of_nat k) = Some v" using all [OF k] by blast
    then obtain j sg where "j < n" "(of_nat k :: u32) = of_nat j" "v = Some sg" "good j sg"
      using segs unfolding segment_of_def by blast
    then show ?thesis using v k assms(4) of_nat_u32_eq_iff [of k j] by simp
  qed
  then obtain S where S: "\<forall>k<n. plan_segments s (of_nat k) = Some (Some (S k)) \<and> good k (S k)" by metis
  have "plan_segments s w = segments_upto 0 n S Map.empty w" for w
  proof (cases "unat w < n")
    case True
    then show ?thesis using S by (auto simp: segments_upto_def)
  next
    case False
    have "unat w < n" if "plan_segments s w = Some v" for v
      using segs [OF that] assms(4) by (auto simp: segment_of_def)
    then have "plan_segments s w = None" using False by fastforce
    then show ?thesis using False by (simp add: segments_upto_def)
  qed
  then show ?thesis using S by (intro exI [of _ S]) (simp add: fun_eq_iff)
qed

text \<open>As many locators handed out as were to be pushed: all of them.\<close>

lemma all_positions:
  assumes "locator_inv p" "early p = {}" "prefix (sent p) ls" "length (handed p) = length ls"
  shows "set (positions p) = {..<length ls}"
proof -
  have "distinct (positions p)" using assms(1) by (simp add: locator_inv_def claims_inv_def)
  moreover have "length (positions p) = length ls" using assms(4) by (simp add: positions_def)
  ultimately have card: "card (set (positions p)) = length ls" by (simp add: distinct_card)
  have "k < length ls" if "k \<in> set (positions p)" for k
  proof -
    have "\<exists>t l. (t, k, l) \<in> set (handed p)" using that by (auto simp: positions_def)
    then obtain t l where "(t, k, l) \<in> set (handed p)" by blast
    then have "k < length (sent p)" using loaded_invD(1) [of p k t l] assms(1,2) by (simp add: locator_inv_def)
    then show ?thesis using prefix_length_le [OF assms(3)] by linarith
  qed
  then show ?thesis using card by (intro card_subset_eq) auto
qed

lemma ram_plan_schedule:
  assumes "workers_read ws P V" "0 < R" "R < 4294967296"
    and "mem_planner_new i (of_nat R) a mb = Inr pl" "\<forall>t. mem_planner_new (ident t) (of_nat R) a mb = Inr (pls t)"
    and es: "es = stream P V (unat (pl_from_page pl)) (unat (pl_to_page pl))" and fits: "rows_total es div R < MAX_LOCATORS"
    and gen: "generate_locators ws (locators_new tbl) pl = Some (Inr (q, pl'))"
    and run: "reachable (plan_step m ws (pushed q)) (plan_start tbl pls) s" "m = In_order \<or> early (loc_protocol s) = {}"
  shows "\<not> broken s"
    and "length (handed (loc_protocol s)) = length (pushed q) \<Longrightarrow> \<forall>t. built s t = None \<Longrightarrow> ram_plan R es (plan_segments s)"
proof -
  let ?n = "unat (pl_to_page pl)" and ?ls = "locators_of P R es"
  let ?good = "\<lambda>k sg. \<exists>x gs. sg = segment_spec x gs \<and> groups_rows gs = row_slice R k (stream_rows es)"
  note new = mem_planner_newD [OF assms(4)]
  have ready: "\<forall>t. ready R ?n (pls t)"
    using mem_planner_newD [of "ident t" R a mb "pls t" for t] new assms(5) by simp
  have q: "pushed q = ?ls"
    using generate_locators_stream [OF assms(1) _ assms(2,3) _ es, of "locators_new tbl"] new fits gen
    by (auto simp: ready_def)
  have len: "length ?ls = (if es = [] then 0 else Suc (rows_total es div R))" by (rule length_locators_of [OF assms(2)])
  then have "length ?ls \<le> 2048" using fits by simp
  have "\<forall>k<length ?ls. builds ws (ready R ?n) k (?ls ! k) (?good k)"
    using len fits by (auto intro!: plan_builds [OF assms(1) new(2) assms(2,3) es] split: if_splits)
  from plan_inv_start [where tbl = tbl, OF this ready]
  have inv: "locator_inv (loc_protocol s)" "plan_inv ws ?ls (ready R ?n) ?good s"
    using plan_threads.reachable_xinv [OF run(1) [unfolded q]] by (auto simp: plan_start_def)
  have early: "early (loc_protocol s) = {}"
  proof (cases "m = In_order")
    case True
    have "reachable (locator_step m) (locator_start tbl) (loc_protocol s)"
      using plan_threads.reachable_proj [OF run(1)] by (simp add: plan_start_def)
    then show ?thesis unfolding True by (rule ordered_invD(2) [OF ordered_queue.reachable_inv])
  qed (use run(2) in blast)
  then have timely: "timely_inv ws ?ls (ready R ?n) ?good s" using inv(2) by (simp add: plan_inv_def)
  then show "\<not> broken s" by (simp add: timely_inv_def)
  assume "length (handed (loc_protocol s)) = length (pushed q)" and no_rest: "\<forall>t. built s t = None"
  then have "set (positions (loc_protocol s)) = {..<length ?ls}"
    unfolding q using timely by (intro all_positions [OF inv(1) early]) (simp_all add: timely_inv_def)
  from timely_inv_complete [OF timely this no_rest] \<open>length ?ls \<le> 2048\<close>
  obtain S where "plan_segments s = segments_upto 0 (length ?ls) S Map.empty" "\<forall>k<length ?ls. ?good k (S k)" by auto
  then show "ram_plan R es (plan_segments s)" using slices_ram_plan [OF assms(2) len] by simp
qed

text \<open>The whole run: the counters of any count phase that has received everything, planned under any interleaving.\<close>

lemma counted_workers:
  assumes "reachable count_step (count_start mem) s" "\<forall>t\<le>align_thread. received (protocol s) t = published (protocol s)"
    and "bounded_run (published (protocol s))" "mapped_chunks (published (protocol s))"
  shows "\<exists>ws P. map (counters s) [0..<align_thread] = map Inr ws \<and> workers_read ws P (run_cells (published (protocol s)))"
proof -
  let ?chs = "published (protocol s)"
  note inv = count_reachable [OF assms(1)]
  have "\<exists>w P. counters s t = Inr w \<and> reads_as w P (run_cells ?chs (of_nat t))" if "t < align_thread" for t
  proof -
    have "counters s t = counted_so_far mem ?chs t" using inv(2) assms(2) that by (simp add: count_inv_def)
    then show ?thesis using counted_so_far_reads [OF length_published [OF inv(1)] assms(3,4) that] by metis
  qed
  then obtain w Q where w: "\<forall>t<align_thread. counters s t = Inr (w t) \<and> reads_as (w t) (Q t) (run_cells ?chs (of_nat t))" by metis
  have "reads_as (map w [0..<align_thread] ! unat i) (Q (unat i)) (run_cells ?chs i)" if "i < 8" for i
    using spec [OF w, of "unat i"] that by (simp add: word_less_nat_alt)
  then have "workers_read (map w [0..<align_thread]) (\<lambda>i. Q (unat i)) (run_cells ?chs)" by (simp add: workers_read_def)
  moreover have "map (counters s) [0..<align_thread] = map Inr (map w [0..<align_thread])" using w by simp
  ultimately show ?thesis by blast
qed

lemma plan_of_counted:
  assumes "workers_read ws P (run_cells chs)" "bounded_run chs"
    and "prepare mem ctx0 (locators_new (mem_locators mem)) = Inr cp" "\<forall>t. pls t \<in> set (plan_workers cp)"
  shows "\<exists>q pl'. generate_locators ws (cp_locators cp) (quick_mem_planner cp) = Some (Inr (q, pl')) \<and>
    length (pushed q) = (if stream P (run_cells chs) 4 11 = [] then 0 else Suc (rows_total (stream P (run_cells chs) 4 11) div unat RAM_ROWS)) \<and>
    (\<forall>m p. reachable (plan_step m ws (pushed q)) (plan_start (mem_locators mem) pls) p \<and>
        (m = In_order \<or> early (loc_protocol p) = {}) \<longrightarrow> \<not> broken p \<and>
      (length (handed (loc_protocol p)) = length (pushed q) \<and> (\<forall>t. built p t = None) \<longrightarrow>
        ram_plan (unat RAM_ROWS) (stream P (run_cells chs) 4 11) (plan_segments p)))"
proof -
  let ?pl = "quick_mem_planner cp" and ?es = "stream P (run_cells chs) 4 11"
  have cp: "cp_locators cp = locators_new (mem_locators mem)" "mem_planner_new 0 (of_nat 4194304) 0xA0000000 512 = Inr ?pl"
    "\<forall>pl\<in>set (plan_workers cp). \<exists>j. mem_planner_new j (of_nat 4194304) 0xA0000000 512 = Inr pl"
    by (rule prepare_returns [of mem ctx0 "locators_new (mem_locators mem)"], use assms(3) in simp)+
  have "\<forall>t. \<exists>j. mem_planner_new j (of_nat 4194304) 0xA0000000 512 = Inr (pls t)" using cp(3) assms(4) by blast
  then obtain ident where ident: "\<forall>t. mem_planner_new (ident t) (of_nat 4194304) 0xA0000000 512 = Inr (pls t)"
    by (rule choice [THEN exE])
  have pages: "unat (pl_from_page ?pl) = 4" "unat (pl_to_page ?pl) = 11"
    using mem_planner_newD(3) [OF cp(2)] by (simp_all add: ram_pages)
  have es: "?es = stream P (run_cells chs) (unat (pl_from_page ?pl)) (unat (pl_to_page ?pl))" by (simp add: pages)
  have fits: "rows_total ?es div 4194304 < MAX_LOCATORS" using run_locators [OF assms(1,2), of 4 11] by simp
  obtain q pl' where gen: "generate_locators ws (locators_new (mem_locators mem)) ?pl = Some (Inr (q, pl'))"
    using ram_plan_segments [OF assms(1) _ _ cp(2,2) es fits, of "mem_locators mem"] by auto
  note plan = ram_plan_schedule [OF assms(1) _ _ cp(2) ident es fits gen]
  have "pushed q = locators_of P 4194304 ?es"
    using generate_locators_stream [OF assms(1) _ _ _ _ es, of 4194304 "locators_new (mem_locators mem)"] fits gen
      mem_planner_newD(1) [OF cp(2)] by (auto simp: ready_def pages)
  then have "length (pushed q) = (if ?es = [] then 0 else Suc (rows_total ?es div unat RAM_ROWS))"
    using length_locators_of [of 4194304 P ?es] by simp
  moreover have "\<not> broken p \<and> (length (handed (loc_protocol p)) = length (pushed q) \<and> (\<forall>t. built p t = None) \<longrightarrow>
      ram_plan (unat RAM_ROWS) ?es (plan_segments p))"
    if "reachable (plan_step m ws (pushed q)) (plan_start (mem_locators mem) pls) p" "m = In_order \<or> early (loc_protocol p) = {}" for m p
    using plan [OF _ _ that] by simp
  ultimately show ?thesis
    unfolding cp(1) using gen by (intro exI [of _ q] exI [of _ pl']) blast
qed

text \<open>The thread of the alignment counter, when it has received everything.\<close>

lemma aligned_all:
  assumes "reachable count_step (count_start mem) s" "received (protocol s) align_thread = published (protocol s)"
    and "bounded_run (published (protocol s))"
  shows "\<exists>a G. aligner s = Inr a \<and> packs (unat MEM_ALIGN_ROWS) a G \<and> concat (concat G) = items (published (protocol s))"
proof -
  note inv = count_reachable [OF assms(1)]
  have "aligner s = aligned_so_far (published (protocol s))" using inv(2) assms(2) by (simp add: count_inv_def)
  then show ?thesis using aligned_so_far_packs [OF length_published [OF inv(1)] assms(3)] by simp
qed

subsection \<open>Properties\<close>

text \<open>
  C2: The program under any interleaving. Take any run of the count phase, interleaved with the publication of the
  chunks, in which every thread has received all of them, for operations as in \<open>count_and_plan_result\<close>: at mapped addresses
  and within the blocks and the 32-bit counts. No thread has failed: the counters are those the planners expect, and the
  check points of the alignment counter divide the unaligned operations. From them \<open>generate_locators\<close> returns, with one
  locator per segment. Then take any run of its pushes and of the sixteen planners, on a machine that keeps the program order,
  or on any machine if no planner has loaded a field of a locator before its store reached memory. No planner fails or
  hangs, and when every locator has been handed out and every segment stored, the map of the segments is a plan of the RAM:
  all rows of the planned pages, once and in order.
\<close>

theorem concurrent_run:
  assumes "reachable count_step (count_start mem) s" "\<forall>t\<le>align_thread. received (protocol s) t = published (protocol s)"
    and "bounded_run (published (protocol s))" "mapped_chunks (published (protocol s))"
    and "prepare mem (ctx (protocol s)) (locators_new (mem_locators mem)) = Inr cp" "\<forall>t. pls t \<in> set (plan_workers cp)"
  shows "\<exists>ws P a G q pl'. map (counters s) [0..<align_thread] = map Inr ws \<and> workers_read ws P (run_cells (published (protocol s))) \<and>
    aligner s = Inr a \<and> packs (unat MEM_ALIGN_ROWS) a G \<and> concat (concat G) = items (published (protocol s)) \<and>
    generate_locators ws (cp_locators cp) (quick_mem_planner cp) = Some (Inr (q, pl')) \<and>
    length (pushed q) = (if stream P (run_cells (published (protocol s))) 4 11 = [] then 0
      else Suc (rows_total (stream P (run_cells (published (protocol s))) 4 11) div unat RAM_ROWS)) \<and>
    (\<forall>m p. reachable (plan_step m ws (pushed q)) (plan_start (mem_locators mem) pls) p \<and>
        (m = In_order \<or> early (loc_protocol p) = {}) \<longrightarrow> \<not> broken p \<and>
      (length (handed (loc_protocol p)) = length (pushed q) \<and> (\<forall>t. built p t = None) \<longrightarrow>
        ram_plan (unat RAM_ROWS) (stream P (run_cells (published (protocol s))) 4 11) (plan_segments p)))"
proof -
  have "received (protocol s) align_thread = published (protocol s)" using assms(2) by blast
  from aligned_all [OF assms(1) this assms(3)] counted_workers [OF assms(1-4)] plan_of_counted [OF _ assms(3,5,6)]
  show ?thesis by blast
qed

text \<open>A run to the end: one chunk received by all, one locator taken, its segment stored.\<close>

lemma sent_grows: "locator_step m p p' \<Longrightarrow> prefix (sent p) (sent p')"
  by (cases rule: locator_step.cases) auto

lemma reach_queue:
  assumes "reachable (locator_step m) (locator_start tbl) p" "handed p = []" "\<not> done_pushing p" "prefix (sent p) ls"
  shows "reachable (plan_step m ws ls) (plan_start tbl pls) ((plan_start tbl pls)\<lparr>loc_protocol := p\<rparr>)"
  using assms
proof (induction rule: reachable.induct)
  case reachable_start
  have "(plan_start tbl pls)\<lparr>loc_protocol := locator_start tbl\<rparr> = plan_start tbl pls" by (simp add: plan_start_def)
  then show ?case by (simp add: reachable.reachable_start)
next
  case (reachable_step p p')
  from reachable_step.hyps(2) reachable_step.prems(1,2) have "handed p = []" "\<not> done_pushing p"
    by (cases rule: locator_step.cases; auto)+
  moreover have "prefix (sent p) ls"
    using sent_grows [OF reachable_step.hyps(2)] reachable_step.prems(3) by (rule prefix_order.trans)
  ultimately have "reachable (plan_step m ws ls) (plan_start tbl pls) ((plan_start tbl pls)\<lparr>loc_protocol := p\<rparr>)"
    using reachable_step.IH by blast
  from reachable.reachable_step [OF this, OF queue_moves [of m _ p']] reachable_step \<open>handed p = []\<close>
  show ?case by simp
qed

lemma reach_planned1:
  assumes "planner_turn ws (0, l) (pls 0, []) = Some (Inr (pl, [(w, v)]))"
  obtains p where "reachable (plan_step m ws [l]) (plan_start tbl pls) p" "length (handed (loc_protocol p)) = 1"
    "early (loc_protocol p) = {}" "\<forall>t. built p t = None"
proof -
  obtain q where q: "reachable (locator_step m) (locator_start tbl) q" "sent q = [l]" "handed q = []" "early q = {}"
    "\<not> done_pushing q" "consumers q 0 = Reads 0 [] l" by (rule reach_loaded1)
  let ?q = "goto 0 (Enter False) (q\<lparr>handed := handed q @ [(0, 0, l)]\<rparr>)"
  let ?s = "(plan_start tbl pls)\<lparr>loc_protocol := q\<rparr>"
  have 0: "reachable (plan_step m ws [l]) (plan_start tbl pls) ?s" by (rule reach_queue [OF q(1,3,5)]) (simp add: q(2))
  have "locator_step m (loc_protocol ?s) ?q" using hand_over [OF q(6)] by simp
  then have "plan_step m ws [l] ?s (?s\<lparr>loc_protocol := ?q, planners := (planners ?s)(0 := pl), built := (built ?s)(0 \<mapsto> (w, v))\<rparr>)"
    (is "plan_step _ _ _ _ ?s1")
    by (rule builds_segment [where k = 0 and loc = l and t = 0, rotated]) (use assms in \<open>simp_all add: plan_start_def\<close>)
  with 0 have 1: "reachable (plan_step m ws [l]) (plan_start tbl pls) ?s1" by (rule reachable_step)
  let ?s2 = "?s1\<lparr>built := (built ?s1)(0 := None), plan_segments := segments_set w v (plan_segments ?s1)\<rparr>"
  have "plan_step m ws [l] ?s1 ?s2" by (rule stores_segment) simp
  with 1 have 2: "reachable (plan_step m ws [l]) (plan_start tbl pls) ?s2" by (rule reachable_step)
  show ?thesis by (rule that [OF 2]) (simp_all add: plan_start_def q)
qed

text \<open>If the turn failed, the state would be broken.\<close>

lemma reach_broken1:
  assumes "\<nexists>pl store. planner_turn ws (0, l) (pls 0, []) = Some (Inr (pl, [store]))"
  obtains p where "reachable (plan_step m ws [l]) (plan_start tbl pls) p" "broken p" "early (loc_protocol p) = {}"
proof -
  obtain q where q: "reachable (locator_step m) (locator_start tbl) q" "sent q = [l]" "handed q = []" "early q = {}"
    "\<not> done_pushing q" "consumers q 0 = Reads 0 [] l" by (rule reach_loaded1)
  let ?q = "goto 0 (Enter False) (q\<lparr>handed := handed q @ [(0, 0, l)]\<rparr>)"
  let ?s = "(plan_start tbl pls)\<lparr>loc_protocol := q\<rparr>"
  have 0: "reachable (plan_step m ws [l]) (plan_start tbl pls) ?s" by (rule reach_queue [OF q(1,3,5)]) (simp add: q(2))
  have "locator_step m (loc_protocol ?s) ?q" using hand_over [OF q(6)] by simp
  then have "plan_step m ws [l] ?s (?s\<lparr>loc_protocol := ?q, broken := True\<rparr>)"
    by (rule breaks [where k = 0 and loc = l and t = 0, rotated]) (use assms in \<open>simp_all add: plan_start_def\<close>)
  with 0 have "reachable (plan_step m ws [l]) (plan_start tbl pls) (?s\<lparr>loc_protocol := ?q, broken := True\<rparr>)" by (rule reachable_step)
  then show ?thesis by (rule that) (simp_all add: q)
qed

theorem concurrent_run_witness:
  "\<exists>s ws l pls q gs x. reachable count_step (count_start zero_memory) s \<and> map (counters s) [0..<align_thread] = map Inr ws \<and>
    reachable (plan_step Reordering ws [l]) (plan_start (\<lambda>_. loc1) pls) q \<and>
    plan_segments q 0 = Some (Some (segment_spec x gs)) \<and> groups_rows gs = [(0, 0xA0000000, 0)]"
proof -
  let ?d = "[\<lparr>bus_addr = 0xA0000000, bus_flags = 8\<rparr>]" and ?s = "counted zero_memory [\<lparr>bus_addr = 0xA0000000, bus_flags = 8\<rparr>]"
  let ?V = "one_entry 0x400000 0 1"
  obtain cp where cp: "prepare zero_memory (ctx (protocol ?s)) (locators_new (mem_locators zero_memory)) = Inr cp"
    "length (plan_workers cp) = 16" by (rule prepare_returns)
  let ?pls = "\<lambda>_ :: nat. hd (plan_workers cp)"
  have pls: "\<forall>t. ?pls t \<in> set (plan_workers cp)" using cp(2) by (intro allI hd_in_set) auto
  have all: "\<forall>t\<le>align_thread. received (protocol ?s) t = published (protocol ?s)"
    unfolding counted_facts(1) by (rule counted_facts(3))
  obtain ws P q where ws: "map (counters ?s) [0..<align_thread] = map Inr ws" "workers_read ws P ?V"
    and len: "length (pushed q) = (if stream P ?V 4 11 = [] then 0 else Suc (rows_total (stream P ?V 4 11) div unat RAM_ROWS))"
    and run: "\<forall>m p. reachable (plan_step m ws (pushed q)) (plan_start (mem_locators zero_memory) ?pls) p \<and>
        (m = In_order \<or> early (loc_protocol p) = {}) \<longrightarrow> \<not> broken p \<and>
      (length (handed (loc_protocol p)) = length (pushed q) \<and> (\<forall>t. built p t = None) \<longrightarrow>
        ram_plan (unat RAM_ROWS) (stream P ?V 4 11) (plan_segments p))"
    using concurrent_run [OF reach_counted all _ _ cp(1) pls, unfolded counted_facts(1), OF one_access_run(1,2)]
    unfolding one_access_run(3) by blast
  obtain pos where "stream P ?V 4 11 = [\<lparr>e_thread = 0, e_offset = 0x400000, e_pos = pos, e_chunk = 0, e_count = 1\<rparr>]"
    using one_access_stream [OF ws(2)] .
  then have "length (pushed q) = 1" using len by (simp del: length_pushed)
  then obtain l where l: "pushed q = [l]" by (cases "pushed q") auto
  note run = run [unfolded l]
  have "\<exists>pl w v. planner_turn ws (0, l) (?pls 0, []) = Some (Inr (pl, [(w, v)]))"
  proof (rule ccontr)
    assume "\<nexists>pl w v. planner_turn ws (0, l) (?pls 0, []) = Some (Inr (pl, [(w, v)]))"
    then have "\<nexists>pl store. planner_turn ws (0, l) (?pls 0, []) = Some (Inr (pl, [store]))" by auto
    then obtain p where "reachable (plan_step Reordering ws [l]) (plan_start (mem_locators zero_memory) ?pls) p" "broken p"
      "early (loc_protocol p) = {}" by (rule reach_broken1)
    then show False using run by blast
  qed
  then obtain pl w v where "planner_turn ws (0, l) (?pls 0, []) = Some (Inr (pl, [(w, v)]))" by blast
  then obtain p where p: "reachable (plan_step Reordering ws [l]) (plan_start (mem_locators zero_memory) ?pls) p"
    "length (handed (loc_protocol p)) = 1" "early (loc_protocol p) = {}" "\<forall>t. built p t = None" by (rule reach_planned1)
  then have "ram_plan (unat RAM_ROWS) (stream P ?V 4 11) (plan_segments p)" using run by simp
  with one_access_plan [OF ws(2)] obtain gs x
    where seg: "plan_segments p 0 = Some (Some (segment_spec x gs))" "groups_rows gs = [(0, 0xA0000000, 0)]" by blast
  have "mem_locators zero_memory = (\<lambda>_. loc1)" by (simp add: zero_memory_def)
  from p(1) [unfolded this] seg ws(1) reach_counted [of zero_memory ?d] show ?thesis
    by (intro exI conjI) assumption+
qed

end
