(* ===== verification/Count_End.thy ===== *)
theory Count_End
  imports Count_Schedule
begin

text \<open>
  That the count phase of \<open>Count_Schedule\<close> ends, under every schedule: after the completion no thread is blocked, and
  every step of a thread brings it nearer to the end of its loop.
\<close>

text \<open>Once the chunks are completed nothing is published any more.\<close>

lemma completed_idle:
  assumes "reachable protocol_step (protocol_start chunks0) p"
  shows "chunks_completed (ctx p) \<longrightarrow> \<not> storing p"
  using assms
proof (induction rule: reachable.induct)
  case (reachable_step p p')
  from reachable_step.hyps(2) show ?case
    by (cases rule: protocol_step.cases) (use reachable_step.IH in \<open>simp_all add: context_set_completed_def\<close>)
qed (simp add: protocol_start_def context_new_def)

text \<open>The steps a thread has left: one per chunk, one to find that there is no other, one to leave.\<close>

fun reader_left :: "nat \<Rightarrow> reader \<Rightarrow> nat" where
  "reader_left n (Fetch k) = 2 + (n - unat k)"
| "reader_left n (Check k) = 1"
| "reader_left n Left = 0"

definition reads_left :: "protocol_state \<Rightarrow> nat \<Rightarrow> nat" where
  "reads_left p t = reader_left (unat (chunks_count (ctx p))) (readers p t)"

lemma reads_left_step:
  assumes "protocol_step p p'" "chunks_completed (ctx p)" "\<not> storing p" "protocol_inv p"
  shows "chunks_completed (ctx p') \<and> reads_left p' t \<le> reads_left p t \<and>
    (readers p' t \<noteq> readers p t \<longrightarrow> reads_left p' t < reads_left p t)"
  using assms(1)
proof (cases rule: protocol_step.cases)
  case (fetch_chunk t' k)
  have "k < MAX_CHUNKS" using fetch_chunk(3) assms(4) unfolding protocol_inv_def by (auto intro: less_le_trans)
  from unat_next [OF this] fetch_chunk assms(2) show ?thesis
    by (auto simp: reads_left_def word_less_nat_alt)
next
  case (fetch_none t' k)
  then show ?thesis using assms(2) by (auto simp: reads_left_def)
qed (use assms(2,3) in \<open>auto simp: reads_left_def context_set_completed_def\<close>)

lemma thread_enabled:
  assumes "reachable count_step (count_start mem) s" "bounded_run (published (protocol s))" "mapped_chunks (published (protocol s))"
    and "t \<le> align_thread" "chunks_completed (ctx (protocol s))" "readers (protocol s) t \<noteq> Left"
  shows "\<exists>s'. count_step s s' \<and> readers (protocol s') t \<noteq> readers (protocol s) t"
proof -
  let ?p = "protocol s"
  note inv = count_reachable [OF assms(1)]
  have quiet: "\<exists>s'. count_step s s' \<and> readers (protocol s') t \<noteq> readers ?p t"
    if "protocol_step ?p p'" "received p' = received ?p" "readers p' t \<noteq> readers ?p t" for p'
    using moves [OF that(1,2)] that(3) by (intro exI [of _ "s\<lparr>protocol := p'\<rparr>"]) simp
  show ?thesis
  proof (cases "readers ?p t")
    case (Check k)
    from quiet [OF check_completed [OF this assms(5)]] Check show ?thesis by simp
  next
    case (Fetch k)
    show ?thesis
    proof (cases "k < chunks_count (ctx ?p)")
      case False
      then have "k \<ge> chunks_count (ctx ?p)" by simp
      from quiet [OF fetch_none [OF Fetch this]] Fetch show ?thesis by simp
    next
      case True
      let ?p' = "?p\<lparr>readers := (readers ?p)(t := Fetch (k + 1)), received := (received ?p)(t := received ?p t @ [chunks (ctx ?p) k])\<rparr>"
      have f: "fetches ?p t k ?p'" by (rule fetches.intros [OF Fetch True])
      have moved: "readers ?p' t \<noteq> readers ?p t" using Fetch by simp
      obtain n where n: "received ?p t = take n (published ?p)" using received_prefix [OF inv(1)] by blast
      have len: "length (take n (published ?p)) \<le> 8192" using length_published [OF inv(1)] by simp
      show ?thesis
      proof (cases "t = align_thread")
        case True
        have "aligner s = aligned_so_far (take n (published ?p))" using inv(2) n True by (simp add: count_inv_def)
        then obtain m where "aligner s = Inr m" using aligned_so_far_packs [OF len bounded_take [OF assms(2)]] by auto
        from aligns [OF this f [unfolded True]] moved show ?thesis using True by fastforce
      next
        case False
        then have t: "t < align_thread" using assms(4) by simp
        then have "counters s t = counted_so_far mem (take n (published ?p)) t" using inv(2) n by (simp add: count_inv_def)
        then obtain w where "counters s t = Inr w"
          using counted_so_far_reads [OF len bounded_take [OF assms(2)] mapped_take [OF assms(3)] t] by auto
        from counts [OF t this f] moved show ?thesis by fastforce
      qed
    qed
  qed (use assms(6) in simp)
qed

subsection \<open>Properties\<close>

text \<open>
  C5: The count phase ends. Once the chunks are completed, in every reachable state each of the nine threads has left or
  can make a step, the completion stays, and every step a thread makes takes one from the steps it has left: after at
  most one step per chunk and two more it has left, under every schedule.
\<close>

theorem count_phase_ends:
  assumes "reachable count_step (count_start mem) s" "bounded_run (published (protocol s))" "mapped_chunks (published (protocol s))"
    and "t \<le> align_thread" "chunks_completed (ctx (protocol s))"
  shows "(readers (protocol s) t = Left \<or> (\<exists>s'. count_step s s' \<and> readers (protocol s') t \<noteq> readers (protocol s) t)) \<and>
    (\<forall>s'. count_step s s' \<longrightarrow> chunks_completed (ctx (protocol s')) \<and> reads_left (protocol s') t \<le> reads_left (protocol s) t \<and>
      (readers (protocol s') t \<noteq> readers (protocol s) t \<longrightarrow> reads_left (protocol s') t < reads_left (protocol s) t))"
proof -
  have "reachable protocol_step (protocol_start (mem_chunks mem)) (protocol s)"
    using count_threads.reachable_proj [OF assms(1)] by (simp add: count_start_def)
  then have "\<not> storing (protocol s)" using completed_idle assms(5) by blast
  then show ?thesis
    using thread_enabled [OF assms] count_step_protocol reads_left_step [OF _ assms(5) _ count_reachable(1) [OF assms(1)]] by blast
qed

theorem count_phase_ends_witness:
  "\<exists>s'. count_step (counted zero_memory [\<lparr>bus_addr = 0xA0000000, bus_flags = 8\<rparr>]) s' \<and>
    reads_left (protocol s') 3 < reads_left (protocol (counted zero_memory [\<lparr>bus_addr = 0xA0000000, bus_flags = 8\<rparr>])) 3"
proof -
  let ?s = "counted zero_memory [\<lparr>bus_addr = 0xA0000000, bus_flags = 8\<rparr>]"
  have "readers (protocol ?s) 3 \<noteq> Left" by (simp add: counted_def one_chunk_def)
  then show ?thesis
    using count_phase_ends [OF reach_counted _ _ _ counted_facts(2), where t = 3, unfolded counted_facts(1), OF one_access_run(1,2)]
    by fastforce
qed

end
