(* ===== verification/Segment_Dump.thy ===== *)
theory Segment_Dump
  imports Count_And_Plan
begin

text \<open>
  What the program prints of its result, \<open>MemSegments::debug\<close>, \<open>MemSegment::debug\<close> and \<open>MemAlignCounter::debug\<close>:
  one line per check point, as a record of the printed values. The lemmas relate the lines to the groups of rows and
  to the unaligned operations the check points stand for, so that the printed counts account for all of them.
\<close>

subsection \<open>Printing\<close>

text \<open>The entries of a \<open>std::map\<close> in the order of its iterator.\<close>

definition map_entries :: "(u32 \<rightharpoonup> 'a) \<Rightarrow> (u32 \<times> 'a) list" where
  "map_entries m = map (\<lambda>k. (k, the (m k))) (sorted_list_of_set (dom m))"

record segment_line =
  sl_segment :: u32
  sl_chunk :: u32
  sl_from_addr :: u32
  sl_skip :: u32
  sl_to_addr :: u32
  sl_to_count :: u32
  sl_count :: u32
  sl_row :: u32
  sl_from_count :: u32

definition segment_debug :: "u32 \<Rightarrow> MemSegment \<Rightarrow> segment_line list" where
  "segment_debug segment_id s =
    map (\<lambda>(chunk_id, chunk). \<lparr>sl_segment = segment_id, sl_chunk = chunk_id, sl_from_addr = from_addr chunk,
      sl_skip = from_skip chunk, sl_to_addr = to_addr chunk, sl_to_count = to_count chunk, sl_count = ck_count chunk,
      sl_row = debug_row chunk, sl_from_count = from_count chunk\<rparr>) (map_entries (seg_chunks s))"

definition segments_debug :: "MemSegments \<Rightarrow> segment_line list res" where
  "segments_debug ss =
    foldE (\<lambda>(segment_id, segment) out.
      case segment of None \<Rightarrow> Inl Null_pointer | Some s \<Rightarrow> Inr (out @ segment_debug segment_id s)) (map_entries ss) []"

record align_line =
  al_segment :: u32
  al_chunk :: u32
  al_index :: u32
  al_skip :: u32
  al_count :: u32
  al_rows :: u32
  al_offset :: u32

definition align_line_of :: "u32 \<Rightarrow> MemAlignCheckPoint \<Rightarrow> align_line" where
  "align_line_of index cp = \<lparr>al_segment = cp_segment_id cp, al_chunk = cp_chunk_id cp, al_index = index,
    al_skip = cp_skip cp, al_count = cp_count cp, al_rows = cp_rows cp, al_offset = cp_offset cp\<rparr>"

fun align_debug_from :: "u32 \<Rightarrow> u32 \<Rightarrow> MemAlignCheckPoint list \<Rightarrow> align_line list" where
  "align_debug_from index last_segment_id [] = []"
| "align_debug_from index last_segment_id (cp # cps) =
    (let (index, last_segment_id) =
       (if cp_segment_id cp \<noteq> last_segment_id then (0, cp_segment_id cp) else (index, last_segment_id)) in
     align_line_of index cp # align_debug_from (index + 1) last_segment_id cps)"

definition align_debug :: "MemAlignCounter \<Rightarrow> align_line list" where
  "align_debug m = align_debug_from 0 0 (align_checkpoints m)"

text \<open>The end of \<open>plan_phase\<close>: the segments of the RAM, of the ROM and of the input, then the alignment counter.\<close>

datatype dump_line = Segment_line segment_line | Align_line align_line

definition plan_debug :: "plan_result \<times> MemCountAndPlan \<Rightarrow> dump_line list res" where
  "plan_debug = (\<lambda>(r, cp).
    bindE (segments_debug (ram_segments r)) (\<lambda>ram.
    bindE (segments_debug (rom_segments r)) (\<lambda>rom.
    bindE (segments_debug (input_segments r)) (\<lambda>input.
    Inr (map Segment_line (ram @ rom @ input) @ map Align_line (align_debug (mem_align_counter cp)))))))"

subsection \<open>The lines of the segments\<close>

text \<open>A map that numbers a list is printed in the order of the list.\<close>

definition numbering :: "'a list \<Rightarrow> u32 \<rightharpoonup> 'a" where
  "numbering xs = (\<lambda>w. if unat w < length xs then Some (xs ! unat w) else None)"

lemma sorted_words: "n \<le> 4294967296 \<Longrightarrow> sorted_list_of_set {w. unat w < n} = words 0 n"
proof -
  assume n: "n \<le> 4294967296"
  have "sorted (words 0 n)"
    unfolding words_def sorted_map using n by (auto simp: sorted_wrt_iff_nth_less word_le_nat_alt)
  moreover have "set (words 0 n) = {w. unat w < n}"
    using n by (auto simp: in_words intro!: exI [of _ "unat w" for w])
  ultimately show ?thesis using distinct_words [OF n] by (metis sorted_list_of_set.idem_if_sorted_distinct)
qed

lemma map_entries_numbering:
  assumes "length xs \<le> 4294967296"
  shows "map_entries (numbering xs) = numbered xs"
proof -
  have dom: "dom (numbering xs) = {w. unat w < length xs}" by (auto simp: numbering_def split: if_splits)
  have num: "numbered xs = map (\<lambda>k. (of_nat k, xs ! k)) [0..<length xs]"
    unfolding numbered_def by (rule nth_equalityI) simp_all
  show ?thesis
    unfolding map_entries_def dom sorted_words [OF assms] num words_def map_map comp_def
    using assms by (intro map_cong refl) (simp add: numbering_def)
qed

lemma numbered_map_of: "length xs \<le> 4294967296 \<Longrightarrow> map_of (rev (numbered xs)) = numbering xs"
proof (induction xs rule: rev_induct)
  case (snoc x xs)
  then have "unat (of_nat (length xs) :: u32) = length xs" by (simp add:)
  then show ?case
    using snoc by (auto simp: numbered_snoc numbering_def nth_append fun_eq_iff less_Suc_eq word_unat_eq_iff)
qed (simp add: numbering_def)

lemma segments_debug_numbering:
  assumes "length ss \<le> 4294967296"
  shows "segments_debug (numbering (map Some ss)) = Inr (concat (map (\<lambda>(k, s). segment_debug k s) (numbered ss)))"
proof -
  have "numbered (map Some ss) = map (\<lambda>(k, s). (k, Some s)) (numbered ss)"
    by (simp add: numbered_def zip_map2)
  moreover have "foldE (\<lambda>(segment_id, segment) out.
      case segment of None \<Rightarrow> Inl Null_pointer | Some s \<Rightarrow> Inr (out @ segment_debug segment_id s))
      (map (\<lambda>(k, s). (k, Some s)) ks) out = Inr (out @ concat (map (\<lambda>(k, s). segment_debug k s) ks))" for ks out
    by (induction ks arbitrary: out) auto
  ultimately show ?thesis using assms by (simp add: segments_debug_def map_entries_numbering)
qed

lemma segments_debug_returns:
  assumes "None \<notin> ran ss"
  shows "\<exists>out. segments_debug ss = Inr out"
proof -
  have "(k, None) \<notin> set (map_entries ss)" for k
    using assms by (auto simp: map_entries_def ran_def)
  then have "\<forall>(k, v)\<in>set (map_entries ss). v \<noteq> None" by (metis (mono_tags, lifting) case_prodI2)
  moreover have "\<exists>out'. foldE (\<lambda>(segment_id, segment) out.
      case segment of None \<Rightarrow> Inl Null_pointer | Some s \<Rightarrow> Inr (out @ segment_debug segment_id s)) xs out = Inr out'"
    if "\<forall>(k, v)\<in>set xs. v \<noteq> None" for xs out
    using that by (induction xs arbitrary: out) (auto split: option.splits)
  ultimately show ?thesis by (simp add: segments_debug_def)
qed

lemma ran_segments_numbered: "None \<notin> ran (segments_numbered ss)"
proof -
  have "v \<noteq> None" if "(k, v) \<in> set (numbered (map Some ss))" for k and v :: "MemSegment option"
    using numbered_bound [OF that] by auto
  then show ?thesis unfolding segments_numbered_def ran_def by (force dest: map_of_SomeD)
qed

subsection \<open>The printed counts\<close>

lemma length_groups_rows_sum: "length (groups_rows gs) = nat_sum (map g_count gs)"
  by (induction gs) (simp_all add: groups_rows_def group_rows_def)

lemma nat_sum_chunks:
  assumes "distinct cs" "g_chunk ` set gs \<subseteq> set cs"
  shows "sum_list (map (\<lambda>c. nat_sum (map g_count (of_chunk c gs))) cs) = nat_sum (map g_count gs)"
proof -
  have "sum_list (map (\<lambda>c. nat_sum (map g_count (of_chunk c gs))) cs) =
      sum_mset (image_mset (unat \<circ> g_count) (mset (concat (map (\<lambda>c. filter (\<lambda>g. g_chunk g = c) gs) cs))))"
    by (induction cs) (simp_all add: nat_sum_def of_chunk_def comp_def flip: sum_mset_sum_list)
  also have "\<dots> = sum_mset (image_mset (unat \<circ> g_count) (mset gs))"
    by (subst mset_filter_parts [OF assms(1)]) (use assms(2) in auto)
  finally show ?thesis by (simp add: nat_sum_def flip: sum_mset_sum_list)
qed

lemma segment_debug_counts:
  assumes "length (groups_rows gs) < 4294967296"
  shows "nat_sum (map sl_count (segment_debug k (segment_spec x gs))) = length (groups_rows gs)"
proof -
  let ?m = "seg_chunks (segment_spec x gs)" and ?cs = "sorted_list_of_set (g_chunk ` set gs)"
  have "?m c \<noteq> None \<longleftrightarrow> c \<in> g_chunk ` set gs" for c
    unfolding segment_spec_def by (simp add: of_chunk_Nil_iff image_iff) blast
  then have dom: "dom ?m = g_chunk ` set gs" by (simp add: dom_def)
  have exact: "unat (ck_count (the (?m c))) = nat_sum (map g_count (of_chunk c gs))" if "c \<in> set ?cs" for c
  proof -
    have "?m c \<noteq> None" using that unfolding dom [symmetric] by auto
    then have "ck_count (the (?m c)) = sum_list (map g_count (of_chunk c gs))"
      using ck_count_segment [of x gs c] by (auto simp: count_sum_def)
    moreover have "nat_sum (map g_count (of_chunk c gs)) \<le> nat_sum (map g_count gs)"
      unfolding of_chunk_def by (rule nat_sum_filter)
    ultimately show ?thesis using assms unat_sum by (simp add: length_groups_rows_sum)
  qed
  have "nat_sum (map sl_count (segment_debug k (segment_spec x gs))) = sum_list (map (\<lambda>c. unat (ck_count (the (?m c)))) ?cs)"
    by (simp add: segment_debug_def map_entries_def dom nat_sum_def comp_def)
  also have "\<dots> = sum_list (map (\<lambda>c. nat_sum (map g_count (of_chunk c gs))) ?cs)"
    by (rule arg_cong [where f = sum_list], rule map_cong [OF refl exact])
  also have "\<dots> = length (groups_rows gs)"
    unfolding length_groups_rows_sum by (rule nat_sum_chunks) simp_all
  finally show ?thesis .
qed

lemma segment_debug_ids: "\<forall>l\<in>set (segment_debug k s). sl_segment l = k"
  by (auto simp: segment_debug_def)

lemma filter_numbered_lines:
  assumes "length ss \<le> 4294967296" "k < 4294967296"
  shows "filter (\<lambda>l. sl_segment l = of_nat k) (concat (map (\<lambda>(k, s). segment_debug k s) (numbered ss))) =
    (if k < length ss then segment_debug (of_nat k) (ss ! k) else [])"
  using assms(1)
proof (induction ss rule: rev_induct)
  case (snoc s ss)
  have "(of_nat (length ss) :: u32) = of_nat k \<longleftrightarrow> length ss = k"
    using snoc.prems assms(2) by (intro of_nat_u32_eq_iff) simp_all
  moreover have "filter (\<lambda>l. sl_segment l = of_nat k) (segment_debug j s) = (if j = of_nat k then segment_debug j s else [])" for j
    using segment_debug_ids [of j s] by (auto simp: filter_empty_conv filter_id_conv)
  ultimately show ?case using snoc by (auto simp: numbered_snoc nth_append)
qed simp

lemma ram_plan_rows:
  assumes "0 < R" "length G = (if es = [] then 0 else Suc (rows_total es div R))"
    and "concat (map groups_rows G) = stream_rows es" "\<forall>gs\<in>set (butlast G). length (groups_rows gs) = R"
  shows "k < length G \<Longrightarrow> length (groups_rows (G ! k)) = min R (rows_total es - k * R)"
    and "length G \<le> k \<Longrightarrow> min R (rows_total es - k * R) = 0"
proof -
  have total: "sum_list (map (length \<circ> groups_rows) G) = rows_total es"
    using arg_cong [OF assms(3), of length] by (simp add: length_concat)
  have full: "R * (rows_total es div R) \<le> rows_total es" "rows_total es < R * Suc (rows_total es div R)"
    using assms(1) by (simp_all add: dividend_less_times_div)
  show "min R (rows_total es - k * R) = 0" if "length G \<le> k"
  proof (cases "es = []")
    case False
    then have "R * Suc (rows_total es div R) \<le> R * k" using that assms(2) by (intro mult_le_mono2) simp
    then show ?thesis using full(2) by (simp add: mult.commute)
  qed simp
  assume k: "k < length G"
  then have n: "length G = Suc (rows_total es div R)" using assms(2) by (auto split: if_splits)
  have front: "length (groups_rows (G ! j)) = R" if "Suc j < length G" for j
    using that assms(4) by (metis length_butlast less_diff_conv nth_butlast nth_mem Suc_eq_plus1)
  show "length (groups_rows (G ! k)) = min R (rows_total es - k * R)"
  proof (cases "Suc k < length G")
    case True
    then have "R * Suc k \<le> R * (rows_total es div R)" using n by (intro mult_le_mono2) simp
    then have "R * Suc k \<le> rows_total es" using full(1) by (rule order_trans)
    then have "R + k * R \<le> rows_total es" by (simp add: mult.commute)
    then show ?thesis using front [OF True] by simp
  next
    case False
    then have k_eq: "k = rows_total es div R" using k n by simp
    have G: "G = butlast G @ [last G]" using k by (cases G rule: rev_cases) simp_all
    have "map (length \<circ> groups_rows) (butlast G) = map (\<lambda>_. R) (butlast G)" using assms(4) by simp
    then have "sum_list (map (length \<circ> groups_rows) (butlast G)) = length (butlast G) * R"
      by (simp only: sum_list_triv of_nat_id)
    moreover have "sum_list (map (length \<circ> groups_rows) G) = sum_list (map (length \<circ> groups_rows) (butlast G)) + length (groups_rows (last G))"
      by (subst G) simp
    moreover have "length G = Suc k" using k False by simp
    then have "G ! k = last G" using k by (cases G rule: rev_cases) (simp_all add: nth_append)
    ultimately have "length (groups_rows (G ! k)) = rows_total es - k * R" using total n k_eq by simp
    then show ?thesis using full k_eq by (simp add: mult.commute)
  qed
qed

text \<open>The dump of a plan of the RAM accounts for its rows, segment by segment.\<close>

lemma ram_dump:
  assumes "ram_plan R es segs" "0 < R" "rows_total es < 4294967296"
  shows "\<exists>ls. segments_debug segs = Inr ls \<and> nat_sum (map sl_count ls) = rows_total es \<and>
    (\<forall>k<4294967296. nat_sum (map sl_count (filter (\<lambda>l. sl_segment l = of_nat k) ls)) = min R (rows_total es - k * R))"
proof -
  obtain G x where segs: "segs = (\<lambda>w. if unat w < length G then Some (Some (segment_spec (x (unat w)) (G ! unat w))) else None)"
    and G: "length G = (if es = [] then 0 else Suc (rows_total es div R))" "concat (map groups_rows G) = stream_rows es"
      "\<forall>gs\<in>set (butlast G). length (groups_rows gs) = R"
    using assms(1) unfolding ram_plan_def by blast
  let ?ss = "map (\<lambda>k. segment_spec (x k) (G ! k)) [0..<length G]"
  let ?ls = "concat (map (\<lambda>(k, s). segment_debug k s) (numbered ?ss))"
  note rows = ram_plan_rows [OF assms(2) G]
  have "rows_total es div R < 4294967296" using div_le_dividend assms(3) by (rule le_less_trans)
  then have len: "length ?ss \<le> 4294967296" using G(1) by (simp del: div_le_dividend)
  have "segs = numbering (map Some ?ss)" by (auto simp: segs numbering_def)
  then have debug: "segments_debug segs = Inr ?ls" by (simp only: segments_debug_numbering [OF len])
  have counts: "nat_sum (map sl_count (segment_debug w (?ss ! k))) = length (groups_rows (G ! k))" if "k < length G" for w k
  proof -
    have "length (groups_rows (G ! k)) \<le> rows_total es" unfolding rows(1) [OF that] by simp
    then show ?thesis using that assms(3) segment_debug_counts by simp
  qed
  have "nat_sum (map sl_count (filter (\<lambda>l. sl_segment l = of_nat k) ?ls)) = min R (rows_total es - k * R)"
    if "k < 4294967296" for k
    unfolding filter_numbered_lines [OF len that] using counts rows by (cases "k < length G") auto
  moreover have "nat_sum (map sl_count (concat (map (\<lambda>(k, s). segment_debug k s) (numbered (take n ?ss))))) =
      sum_list (map (length \<circ> groups_rows) (take n G))" if "n \<le> length G" for n
    using that
  proof (induction n)
    case (Suc n)
    then have "take (Suc n) ?ss = take n ?ss @ [?ss ! n]" "take (Suc n) G = take n G @ [G ! n]"
      by (simp_all add: take_Suc_conv_app_nth)
    then show ?case using Suc counts [of n] by (simp add: numbered_snoc del: map_eq_conv)
  qed simp
  from this [of "length G"] have "nat_sum (map sl_count ?ls) = length (concat (map groups_rows G))"
    by (simp add: length_concat)
  then have "nat_sum (map sl_count ?ls) = rows_total es" unfolding G(2) by simp
  ultimately show ?thesis using debug by blast
qed

subsection \<open>The lines of the alignment counter\<close>

text \<open>The index of a line is that of its check point in its segment.\<close>

definition align_segment_lines :: "MemAlignCheckPoint list \<Rightarrow> align_line list" where
  "align_segment_lines cps = map (\<lambda>(j, cp). align_line_of j cp) (numbered cps)"

definition align_lines :: "item list list list \<Rightarrow> align_line list" where
  "align_lines G = concat (map (\<lambda>(s, runs). align_segment_lines (segment_checkpoints s 0 runs)) (enumerate 0 G))"

lemma segment_checkpoints_ids: "\<forall>cp\<in>set (segment_checkpoints s off runs). cp_segment_id cp = of_nat s"
  by (induction runs arbitrary: off) (simp_all add: checkpoint_of_def)

lemma align_debug_segment:
  assumes "\<forall>cp\<in>set cps. cp_segment_id cp = s"
  shows "align_debug_from i s (cps @ rest) =
    map (\<lambda>(j, cp). align_line_of (i + j) cp) (numbered cps) @ align_debug_from (i + of_nat (length cps)) s rest"
  using assms
proof (induction cps arbitrary: i)
  case (Cons cp cps)
  have "numbered (cp # cps) = (0, cp) # map (\<lambda>(j, cp). (1 + j, cp)) (numbered cps)"
    by (simp add: numbered_def upt_conv_Cons zip_map1 split_def del: upt_Suc flip: map_Suc_upt)
  then show ?case using Cons by (simp add: comp_def case_prod_unfold add.assoc)
qed simp

lemma align_debug_new_segment:
  assumes "cps \<noteq> []" "\<forall>cp\<in>set cps. cp_segment_id cp = s" "last_id \<noteq> s \<or> i = 0"
  shows "align_debug_from i last_id (cps @ rest) = align_segment_lines cps @ align_debug_from (of_nat (length cps)) s rest"
proof -
  have "align_debug_from i last_id (cps @ rest) = align_debug_from 0 s (cps @ rest)"
    using assms by (cases cps) auto
  then show ?thesis using align_debug_segment [OF assms(2), of 0 rest] by (simp add: align_segment_lines_def)
qed

lemma align_debug_division:
  assumes "[] \<notin> set G" "n + length G \<le> 4294967296" "last_id \<noteq> of_nat n \<or> i = 0"
  shows "align_debug_from i last_id (concat (map (\<lambda>(s, runs). segment_checkpoints s 0 runs) (enumerate n G))) =
    concat (map (\<lambda>(s, runs). align_segment_lines (segment_checkpoints s 0 runs)) (enumerate n G))"
  using assms
proof (induction G arbitrary: n i last_id)
  case (Cons runs G)
  let ?cps = "segment_checkpoints n 0 runs"
  have "?cps \<noteq> []" using Cons.prems(1) by (cases runs) simp_all
  moreover have "(of_nat n :: u32) \<noteq> of_nat (Suc n) \<or> G = []"
    using Cons.prems(2) of_nat_u32_eq_iff [of n "Suc n"] by (cases G) auto
  ultimately show ?case
    using align_debug_new_segment [OF _ segment_checkpoints_ids Cons.prems(3), of 0 runs]
      align_debug_new_segment [OF _ segment_checkpoints_ids Cons.prems(3), of 0 runs "[]"]
      Cons.IH [of "Suc n" "of_nat n"] Cons.prems(1,2) by (cases "G = []") auto
qed simp

lemma align_debug_lines:
  assumes "division R G" "length G \<le> 4294967296" "align_checkpoints m = checkpoints_of G"
  shows "align_debug m = align_lines G"
  using align_debug_division [of G 0 0 0] assms
  by (auto simp: align_debug_def checkpoints_of_def align_lines_def division_def)

text \<open>The printed counts and rows are those of the unaligned operations.\<close>

lemma align_line_sums:
  "map al_count (align_segment_lines cps) = map cp_count cps" "map al_rows (align_segment_lines cps) = map cp_rows cps"
  by (simp_all add: align_segment_lines_def align_line_of_def numbered_def comp_def case_prod_unfold)
    (simp_all flip: map_map [unfolded comp_def])

lemma segment_checkpoints_sums:
  assumes "length (concat runs) < 4294967296" "rows_of (concat runs) < 4294967296"
  shows "nat_sum (map cp_count (segment_checkpoints s off runs)) = length (concat runs)"
    "nat_sum (map cp_rows (segment_checkpoints s off runs)) = rows_of (concat runs)"
  using assms by (induction runs arbitrary: off) (simp_all add: checkpoint_of_def)

lemma align_lines_sums:
  assumes "\<forall>runs\<in>set G. length (concat runs) < 4294967296 \<and> rows_of (concat runs) < 4294967296"
  shows "nat_sum (map al_count (align_lines G)) = length (concat (concat G))"
    "nat_sum (map al_rows (align_lines G)) = rows_of (concat (concat G))"
  using assms by (induction G rule: rev_induct)
    (simp_all add: align_lines_def enumerate_append_eq align_line_sums segment_checkpoints_sums map_concat)

subsection \<open>The bounds of a run\<close>

lemma chunk_items_rows: "(c', k', r) \<in> set (chunk_items c k ds) \<Longrightarrow> 2 \<le> r"
  by (induction ds arbitrary: k) (auto split: option.splits dest: op_rows_bounds)

lemma items_rows: "(c, k, r) \<in> set (items chs) \<Longrightarrow> 2 \<le> r"
  by (auto simp: items_def dest: chunk_items_rows)

lemma length_le_rows: "\<forall>(c, k, r)\<in>set xs. 2 \<le> r \<Longrightarrow> length xs \<le> rows_of xs"
  by (induction xs) auto

text \<open>Every unaligned operation costs a memory operation.\<close>

lemma length_chunk_items:
  "\<forall>d\<in>set ds. plain_op d \<Longrightarrow> length (chunk_items c k ds) \<le> nat_sum (map snd (concat (map accesses ds)))"
proof (induction ds arbitrary: k)
  case (Cons d ds)
  have "\<exists>a n xs. accesses d = (a, n) # xs" by (simp add: accesses_def Let_def)
  then obtain a n xs where acc: "accesses d = (a, n) # xs" by blast
  then have "1 \<le> unat n" using Cons.prems by (intro access_counts [of d a]) simp_all
  then have "1 \<le> nat_sum (map snd (accesses d))" unfolding acc by simp
  then show ?case using Cons.IH [of k] Cons.IH [of "Suc k"] Cons.prems by (auto split: option.splits)
qed simp

lemma length_items: "\<forall>ds\<in>set chs. \<forall>d\<in>set ds. plain_op d \<Longrightarrow> length (items chs) \<le> run_operations chs"
proof (induction chs rule: rev_induct)
  case (snoc ds chs)
  then show ?case
    using length_chunk_items [of ds "of_nat (length chs)" 0] by (simp add: items_snoc run_operations_def)
qed (simp add: items_def)

lemma bounded_run_items: "bounded_run chs \<Longrightarrow> length (items chs) < 4294967296"
  using length_items [of chs] by (auto simp: bounded_run_def)

lemma length_segments: "[] \<notin> set (map concat G) \<Longrightarrow> length G \<le> length (concat (concat G))"
  by (induction G) (auto simp: Suc_le_eq add_strict_increasing)

lemma align_dump:
  assumes "division R G" "R < 4294967296" "concat (concat G) = items chs" "bounded_run chs"
    and "align_checkpoints m = checkpoints_of G"
  shows "align_debug m = align_lines G" "nat_sum (map al_count (align_debug m)) = length (items chs)"
    "nat_sum (map al_rows (align_debug m)) = rows_of (items chs)"
proof -
  have seg: "concat runs \<noteq> []" "rows_of (concat runs) < 4294967296" "length (concat runs) \<le> rows_of (concat runs)"
    if "runs \<in> set G" for runs
  proof -
    have "set (concat runs) \<subseteq> set (items chs)" using that unfolding assms(3) [symmetric] by auto
    then show "length (concat runs) \<le> rows_of (concat runs)" using items_rows by (intro length_le_rows) blast
    have "runs \<noteq> []" "\<forall>run\<in>set runs. run \<noteq> []" "rows_of (concat runs) \<le> R"
      using assms(1) that by (auto simp: division_def is_run_def)
    then show "concat runs \<noteq> []" "rows_of (concat runs) < 4294967296" using assms(2) by (cases runs; simp)+
  qed
  have "length G \<le> length (items chs)"
    unfolding assms(3) [symmetric] by (intro length_segments) (metis seg(1) imageE list.set_map)
  then show lines: "align_debug m = align_lines G"
    using bounded_run_items [OF assms(4)] by (intro align_debug_lines [OF assms(1) _ assms(5)]) simp
  have "\<forall>runs\<in>set G. length (concat runs) < 4294967296 \<and> rows_of (concat runs) < 4294967296"
    using seg by (meson le_less_trans)
  from align_lines_sums [OF this]
  show "nat_sum (map al_count (align_debug m)) = length (items chs)" "nat_sum (map al_rows (align_debug m)) = rows_of (items chs)"
    unfolding lines assms(3) by simp_all
qed

subsection \<open>Properties\<close>

text \<open>
  C34: The printed plan accounts for everything. After a run as in \<open>count_and_plan_result\<close> the dump at the end of
  \<open>plan_phase\<close> is printed without a null pointer. In the part of the RAM the counts \<open>C\<close> add up to the rows of the
  planned pages, and those of segment \<open>k\<close> to \<open>RAM_ROWS\<close> or what is left behind the first \<open>k\<close> segments; in the
  part of the alignment counter the lines are numbered from 0 in each segment, and the counts and the rows add up to
  the unaligned operations and their rows. No sum wraps around.
\<close>

theorem dump_accounts_for_run:
  assumes "length chs \<le> unat MAX_CHUNKS" "bounded_run chs" "mapped_chunks chs"
  shows "\<exists>r cp P ram rest G. mem_test_execute mem chs = Some (Inr (r, cp)) \<and> workers_read (count_workers cp) P (run_cells chs) \<and>
    plan_debug (r, cp) = Inr (map Segment_line ram @ rest @ map Align_line (align_lines G)) \<and>
    segments_debug (ram_segments r) = Inr ram \<and>
    nat_sum (map sl_count ram) = rows_total (stream P (run_cells chs) 4 11) \<and>
    (\<forall>k<4294967296. nat_sum (map sl_count (filter (\<lambda>l. sl_segment l = of_nat k) ram)) =
      min (unat RAM_ROWS) (rows_total (stream P (run_cells chs) 4 11) - k * unat RAM_ROWS)) \<and>
    nat_sum (map al_count (align_lines G)) = length (items chs) \<and> nat_sum (map al_rows (align_lines G)) = rows_of (items chs)"
proof -
  obtain r cp P G where run: "mem_test_execute mem chs = Some (Inr (r, cp))" "workers_read (count_workers cp) P (run_cells chs)"
    and ram: "ram_plan (unat RAM_ROWS) (stream P (run_cells chs) 4 11) (ram_segments r)"
    and regions: "region_plan (unat ROM_ROWS) 0x80000000 (stream P (run_cells chs) 0 1) (rom_segments r)"
      "region_plan (unat INPUT_ROWS) 0x90000000 (stream P (run_cells chs) 2 3) (input_segments r)"
    and G: "division (unat MEM_ALIGN_ROWS) G" "concat (concat G) = items chs" "align_checkpoints (mem_align_counter cp) = checkpoints_of G"
    using count_and_plan_run [OF assms, of mem] by blast
  have "rows_total (stream P (run_cells chs) 4 11) < 4294967296"
    using rows_total_run [OF run(2), of 4 11] assms(2) by (simp add: bounded_run_def)
  then obtain ls where ls: "segments_debug (ram_segments r) = Inr ls" "nat_sum (map sl_count ls) = rows_total (stream P (run_cells chs) 4 11)"
    "\<forall>k<4294967296. nat_sum (map sl_count (filter (\<lambda>l. sl_segment l = of_nat k) ls)) =
      min (unat RAM_ROWS) (rows_total (stream P (run_cells chs) 4 11) - k * unat RAM_ROWS)"
    using ram_dump [OF ram] by auto
  obtain rom input where "segments_debug (rom_segments r) = Inr rom" "segments_debug (input_segments r) = Inr input"
    using regions segments_debug_returns [OF ran_segments_numbered] unfolding region_plan_def by metis
  note align = align_dump [OF G(1) _ G(2) assms(2) G(3)]
  have "plan_debug (r, cp) = Inr (map Segment_line ls @ map Segment_line (rom @ input) @ map Align_line (align_lines G))"
    using ls(1) \<open>segments_debug (rom_segments r) = Inr rom\<close> \<open>segments_debug (input_segments r) = Inr input\<close> align(1)
    by (simp add: plan_debug_def)
  then show ?thesis using run ls align by (intro exI conjI) (assumption | simp)+
qed

theorem dump_accounts_for_run_witness:
  "\<exists>r cp ram. mem_test_execute zero_memory [[\<lparr>bus_addr = 0xA0000000, bus_flags = 8\<rparr>]] = Some (Inr (r, cp)) \<and>
    segments_debug (ram_segments r) = Inr ram \<and> nat_sum (map sl_count ram) = 1"
proof -
  let ?chs = "[[\<lparr>bus_addr = 0xA0000000, bus_flags = 8\<rparr>]] :: MemChunk list"
  obtain r cp P ram where run: "mem_test_execute zero_memory ?chs = Some (Inr (r, cp))"
    and ws: "workers_read (count_workers cp) P (one_entry 0x400000 0 1)" and ram: "segments_debug (ram_segments r) = Inr ram"
    and sum: "nat_sum (map sl_count ram) = rows_total (stream P (one_entry 0x400000 0 1) 4 11)"
    using dump_accounts_for_run [OF _ one_access_run(1,2), of zero_memory] unfolding one_access_run by auto
  obtain p where "stream P (one_entry 0x400000 0 1) 4 11 =
      [\<lparr>e_thread = 0, e_offset = 0x400000, e_pos = p, e_chunk = 0, e_count = 1\<rparr>]" using one_access_stream [OF ws] .
  then have "nat_sum (map sl_count ram) = 1" unfolding sum by simp
  then show ?thesis using run ram by blast
qed

end
