(* ===== verification/Run_Stats.thy ===== *)
theory Run_Stats
  imports Count_And_Plan
begin

text \<open>
  \<open>MemCountAndPlan::stats\<close>, what \<open>MemTest::execute\<close> prints after a run, with \<open>MemPlanner::stats\<close>: the blocks the
  counters have used and the memory the tables take. The times the clock gives (\<open>get_elapsed_ms\<close>, the milliseconds of the
  phases and of the planners) and the percentage of used blocks, a quotient of doubles, are left out; the estimated time
  of the execution is given in microseconds, before its division.
\<close>

subsection \<open>The printed lines\<close>

definition TIME_US_BY_CHUNK :: u32 where "TIME_US_BY_CHUNK = 350"

text \<open>The sizes of an \<open>AddrCount\<close> and of an \<open>uint32_t\<close>.\<close>

definition ADDR_TABLE_ELEMENT_SIZE :: u64 where "ADDR_TABLE_ELEMENT_SIZE = 8"

abbreviation sizeof_u32 :: u64 where "sizeof_u32 \<equiv> 4"

definition get_tot_usleep :: "MemCounter \<Rightarrow> u32" where
  "get_tot_usleep w = tot_usleep w"

definition get_queue_full_times :: "MemCounter \<Rightarrow> u32" where
  "get_queue_full_times w = queue_full w"

datatype stats_line =
    Thread_line u32 u32 u32 u32 u32
  | Threads_line u32
  | Address_table_line u64
  | Memory_slots_line u64 u64
  | Page_table_line u64
  | Planner_line u32 u32
  | Execution_line u32

definition thread_stats :: "MemCounter list \<Rightarrow> u32 \<Rightarrow> u32 \<times> stats_line list \<Rightarrow> (u32 \<times> stats_line list) res" where
  "thread_stats workers i = (\<lambda>(tot_used_slots, ls).
    bindE (worker workers i) (\<lambda>w.
    let used_slots = get_used_slots w in
    Inr (tot_used_slots + used_slots,
      ls @ [Thread_line i used_slots ADDR_SLOTS (get_tot_usleep w div 1000) (get_queue_full_times w div 1000)])))"

definition planner_stats :: "MemPlanner \<Rightarrow> stats_line" where
  "planner_stats pl = Planner_line (pl_id pl) (locators_done pl)"

definition memory_lines :: "u32 \<Rightarrow> stats_line list" where
  "memory_lines tot_used_slots =
    [Threads_line MAX_THREADS,
     Address_table_line (drop_bit 20 (ucast ADDR_TABLE_SIZE * ADDR_TABLE_ELEMENT_SIZE * ucast MAX_THREADS)),
     Memory_slots_line (drop_bit 20 (ucast ADDR_SLOTS_SIZE * sizeof_u32 * ucast MAX_THREADS))
       (drop_bit 20 (ucast (tot_used_slots * ADDR_SLOT_SIZE) * sizeof_u32)),
     Page_table_line (drop_bit 20 (ucast ADDR_PAGE_SIZE * sizeof_u32))]"

definition run_stats :: "MemCountAndPlan \<Rightarrow> stats_line list res" where
  "run_stats cp =
    bindE (foldE (thread_stats (count_workers cp)) (words 0 (unat MAX_THREADS)) (0, [])) (\<lambda>(tot_used_slots, ls).
    Inr (ls @ memory_lines tot_used_slots @ planner_stats (quick_mem_planner cp) # map planner_stats (plan_workers cp) @
      [Execution_line (TIME_US_BY_CHUNK * context_size (cp_context cp))]))"

subsection \<open>What they say of a run\<close>

lemma thread_stats_all:
  assumes "\<forall>i\<in>set is. worker ws i = Inr (w i)"
  shows "foldE (thread_stats ws) is (tot, ls) = Inr (tot + sum_list (map (\<lambda>i. get_used_slots (w i)) is),
    ls @ map (\<lambda>i. Thread_line i (get_used_slots (w i)) ADDR_SLOTS (get_tot_usleep (w i) div 1000)
      (get_queue_full_times (w i) div 1000)) is)"
  using assms by (induction "is" arbitrary: tot ls) (simp_all add: thread_stats_def Let_def add.assoc)

lemma sum_list_of_nat: "sum_list (map (\<lambda>x. of_nat (f x)) xs) = (of_nat (sum_list (map f xs)) :: 'a::comm_semiring_1)"
  by (induction xs) simp_all

text \<open>Sizes in megabytes do not wrap around.\<close>

lemma used_megabytes:
  assumes "n \<le> 33554432"
  shows "drop_bit 20 (ucast (of_nat n * ADDR_SLOT_SIZE) * sizeof_u32) = of_nat (n * 64 div 1048576)"
proof -
  have up: "unat (ucast x :: u64) = unat x" for x :: u32
    using unat_u32_bound [of x] by (simp add: unsigned_ucast_eq take_bit_nat_eq_self)
  have "unat (of_nat n * ADDR_SLOT_SIZE) = n * 16"
    using assms by (simp add: unat_word_ariths unat_of_nat)
  then have "unat (ucast (of_nat n * ADDR_SLOT_SIZE) * sizeof_u32) = n * 64"
    using assms by (simp add: unat_word_ariths up)
  moreover have "n * 64 div 1048576 < 18446744073709551616" using assms by (intro le_less_trans [OF div_le_dividend]) simp
  ultimately have "unat (drop_bit 20 (ucast (of_nat n * ADDR_SLOT_SIZE) * sizeof_u32)) =
      unat (of_nat (n * 64 div 1048576) :: u64)"
    unfolding unat_drop_bit_eq by (simp add: drop_bit_eq_div unat_of_nat)
  then show ?thesis by (rule word_unat_eq_iff [THEN iffD2])
qed

lemma memory_lines_run:
  assumes "n \<le> 33554432"
  shows "memory_lines (of_nat n) =
    [Threads_line 8, Address_table_line 1280, Memory_slots_line 2048 (of_nat (n * 64 div 1048576)), Page_table_line 4]"
  unfolding memory_lines_def used_megabytes [OF assms]
  by (simp add: ADDR_TABLE_ELEMENT_SIZE_def drop_bit_eq_div)

lemma counted_stats:
  assumes "context_holds ctx chs" "chunks_completed ctx" "i < MAX_THREADS"
    and "execute ctx (mem_counter_new slots0 chunk0 i) = Some (Inr w)"
  shows "get_used_slots w = of_nat (blocks_needed i chs)" "get_tot_usleep w = 0" "get_queue_full_times w = 0"
proof -
  have "unat (get_used_slots w) = blocks_needed i chs"
    using holds_log_blocks [OF execute_log(1) [OF assms]] by (simp add: get_used_slots_def blocks_needed_eq)
  then show "get_used_slots w = of_nat (blocks_needed i chs)" by (simp flip: \<open>unat (get_used_slots w) = _\<close>)
  show "get_tot_usleep w = 0" "get_queue_full_times w = 0"
    using execute_log(2) [OF assms]
    by (simp_all add: same_thread_def mem_counter_new_def get_tot_usleep_def get_queue_full_times_def)
qed

subsection \<open>Properties\<close>

text \<open>
  C33: The statistics of a run. After a run as in \<open>count_and_plan_result\<close> every thread reports the blocks its entries
  need, of \<open>ADDR_SLOTS\<close>, and never any time asleep nor a full queue, which the program does not record; the sizes, in
  megabytes, are those of the tables and of the used blocks, 64 bytes each, without wrap-around; and the estimated
  duration is \<open>TIME_US_BY_CHUNK\<close> per chunk.
\<close>

theorem stats_report_run:
  assumes "length chs \<le> unat MAX_CHUNKS" "bounded_run chs" "mapped_chunks chs"
  shows "\<exists>r cp. mem_test_execute mem chs = Some (Inr (r, cp)) \<and>
    run_stats cp = Inr (map (\<lambda>i. Thread_line i (of_nat (blocks_needed i chs)) ADDR_SLOTS 0 0) (words 0 8) @
      [Threads_line 8, Address_table_line 1280,
       Memory_slots_line 2048 (of_nat (sum_list (map (\<lambda>i. blocks_needed i chs) (words 0 8)) * 64 div 1048576)), Page_table_line 4] @
      planner_stats (quick_mem_planner cp) # map planner_stats (plan_workers cp) @ [Execution_line (of_nat (350 * length chs))])"
proof -
  obtain r cp where run: "mem_test_execute mem chs = Some (Inr (r, cp))"
    and ctx: "context_holds (cp_context cp) chs" "chunks_completed (cp_context cp)"
    and ran: "\<forall>i<8. execute (cp_context cp) (mem_counter_new (mem_slots mem i) (mem_current_chunk mem i) i) =
      Some (worker (count_workers cp) i)"
    and ws: "\<exists>P. workers_read (count_workers cp) P (run_cells chs)"
    using count_and_plan_details [OF assms, of mem] by blast
  let ?b = "\<lambda>i. blocks_needed i chs" and ?w = "\<lambda>i :: u32. count_workers cp ! unat i"
  have lane: "i < 8" if "i \<in> set (words 0 8)" for i using that by (auto simp: in_words word_less_nat_alt)
  have worker: "\<forall>i\<in>set (words 0 8). worker (count_workers cp) i = Inr (?w i)"
    using ws lane by (auto simp: workers_read_def worker_def word_less_nat_alt)
  have stats: "get_used_slots (?w i) = of_nat (?b i)" "get_tot_usleep (?w i) = 0" "get_queue_full_times (?w i) = 0"
    if "i \<in> set (words 0 8)" for i
    using counted_stats [OF ctx, of i "mem_slots mem i" "mem_current_chunk mem i" "?w i"] that worker ran lane [OF that] by simp_all
  have "sum_list (map ?b (words 0 8)) \<le> sum_list (map (\<lambda>i. 4194304) (words 0 8))"
    using assms(2) lane by (intro sum_list_mono) (simp add: bounded_run_def)
  also have "\<dots> = 33554432" unfolding sum_list_triv by (simp add: words_def)
  finally have total: "sum_list (map ?b (words 0 8)) \<le> 33554432" .
  have "foldE (thread_stats (count_workers cp)) (words 0 8) (0, []) = Inr (of_nat (sum_list (map ?b (words 0 8))),
      map (\<lambda>i. Thread_line i (of_nat (?b i)) ADDR_SLOTS 0 0) (words 0 8))"
    unfolding thread_stats_all [OF worker] by (simp add: stats flip: sum_list_of_nat cong: map_cong)
  moreover have "context_size (cp_context cp) = of_nat (length chs)"
    using ctx(1) by (simp add: context_holds_def context_size_def)
  ultimately have "run_stats cp = Inr (map (\<lambda>i. Thread_line i (of_nat (?b i)) ADDR_SLOTS 0 0) (words 0 8) @
      memory_lines (of_nat (sum_list (map ?b (words 0 8)))) @
      planner_stats (quick_mem_planner cp) # map planner_stats (plan_workers cp) @ [Execution_line (of_nat (350 * length chs))])"
    by (simp add: run_stats_def TIME_US_BY_CHUNK_def)
  then show ?thesis unfolding memory_lines_run [OF total] using run by blast
qed

theorem stats_report_run_witness:
  "\<exists>r cp rest. mem_test_execute zero_memory [[\<lparr>bus_addr = 0xA0000000, bus_flags = 8\<rparr>]] = Some (Inr (r, cp)) \<and>
    run_stats cp = Inr (Thread_line 0 1 4194304 0 0 # rest)"
proof -
  let ?chs = "[[\<lparr>bus_addr = 0xA0000000, bus_flags = 8\<rparr>]] :: MemChunk list"
  have "blocks_needed 0 ?chs = 1"
    using ctx8_accesses [of 1] ctx8_log [of 1] ctx8_line by (simp add: blocks_needed_def touched_def)
  then show ?thesis
    using stats_report_run [OF _ one_access_run(1,2), of zero_memory] by (auto simp: words_Cons)
qed

end
