(* ===== verification/Load_Log.thy ===== *)
theory Load_Log
  imports Mem_Load
begin

text \<open>
  The log \<open>MemTest::load\<close> prints of the operations on the ROM and the input: one line per access, with the aligned
  address, the chunk, the index of the operation, and for a part of a word its offset and width. The lemmas relate it
  to \<open>accesses\<close>, the specification the counters refine.
\<close>

unbundle bit_operations_syntax

subsection \<open>The lines\<close>

text \<open>
  \<open>Mem_op\<close> is the line of a whole word; \<open>Part_op\<close> that of a part, with its tag. The line of \<open>WR\<close> starts with
  \<open>MEM_ALIGN_OP\<close>, all others with \<open>MEM_OP\<close>.
\<close>

datatype part = RD | WR | RD1 | WR1 | RD2 | WR2

datatype load_line =
    Rom_start
  | Mem_op u32 u32 nat
  | Part_op part u32 u32 nat u32 u8




subsection \<open>The addresses of the lines\<close>

fun line_addrs :: "load_line \<Rightarrow> u32 list" where
  "line_addrs Rom_start = []"
| "line_addrs (Mem_op a chunk_id i) = [a]"
| "line_addrs (Part_op part a chunk_id i off bytes) = [a]"

definition log_addrs :: "load_line list \<Rightarrow> u32 list" where
  "log_addrs ls = concat (map line_addrs ls)"

lemma log_addrs_simps [simp]:
  "log_addrs [] = []" "log_addrs (l # ls) = line_addrs l @ log_addrs ls" "log_addrs (ls @ ms) = log_addrs ls @ log_addrs ms"
  by (simp_all add: log_addrs_def)






subsection \<open>Properties\<close>



end
