(* ===== verification/Locator_Types.thy ===== *)
theory Locator_Types
  imports Ram_Pipeline
begin

text \<open>
  The type of a locator: what \<open>execute_from_locator\<close> takes for granted of the four numbers it is given, and reports
  as an error otherwise. \<open>generate_locators\<close> only pushes locators of this type.
\<close>

text \<open>
  The thread exists, the page of the offset is one of the planner's, the counter has entries at the offset, the
  position is one of an entry, and no more rows are to be skipped than the entry has.
\<close>

definition locator_ok :: "MemCounter list \<Rightarrow> MemPlanner \<Rightarrow> MemLocator \<Rightarrow> bool" where
  "locator_ok ws pl loc \<longleftrightarrow>
    loc_thread loc < MAX_THREADS \<and> pl_from_page pl \<le> offset_to_page (loc_offset loc) \<and>
    offset_to_page (loc_offset loc) < pl_to_page pl \<and>
    (case worker ws (loc_thread loc) of
       Inl e \<Rightarrow> False
     | Inr w \<Rightarrow>
         (case (get_addr_table w (loc_offset loc), get_pos_value w (loc_cpos loc), get_pos_value w (loc_cpos loc + 1)) of
            (Inr pos, Inr chunk_id, Inr count) \<Rightarrow> pos \<noteq> 0 \<and> loc_cpos loc \<noteq> 0 \<and> loc_skip loc \<le> count
          | _ \<Rightarrow> False))"

lemma entry_locator_ok:
  assumes "workers_read ws P V" "unat (pl_to_page pl) \<le> 20" "e \<in> set (stream P V (unat (pl_from_page pl)) (unat (pl_to_page pl)))"
    and "loc_offset loc = e_offset e" "loc_thread loc = e_thread e"
    and "loc_cpos loc = e_pos e \<and> loc_skip loc \<le> e_count e \<or> loc_cpos loc = last (P (e_thread e) (e_offset e)) \<and> loc_skip loc = 0"
  shows "locator_ok ws pl loc"
proof -
  obtain off i p where p: "unat (pl_from_page pl) \<le> p" "p < unat (pl_to_page pl)" "(off, i) \<in> set (page_cells p)"
    and "e \<in> set (cell_entries P V (off, i))"
    using assms(3) by (auto simp: stream_def cells_def simp del: cell_entries.simps)
  then obtain j where e: "e_thread e = i" "e_offset e = off" "j < length (V i off)" "j < length (P i off)"
    "e_pos e = P i off ! j" "e_count e = snd (V i off ! j)"
    by (fastforce simp: in_set_conv_nth)
  have "p < 20" using p(2) assms(2) by simp
  with p(3) have page: "offset_to_page off = of_nat p" "i < 8" by (simp_all add: in_page_cells)
  then have "pl_from_page pl \<le> offset_to_page off" "offset_to_page off < pl_to_page pl"
    using p(1,2) \<open>p < 20\<close> by (simp_all add: word_le_nat_alt word_less_nat_alt)
  note w = workers_readD [OF assms(1) page(2)]
  note reader = counter_reader.positions [OF w(2), of off] counter_reader.value_chunk [OF w(2)] counter_reader.value_count [OF w(2)]
  have V: "V i off \<noteq> []" using e(3) by auto
  obtain k where k: "k < length (V i off)" "loc_cpos loc = P i off ! k" "loc_skip loc \<le> snd (V i off ! k)"
  proof (cases "loc_cpos loc = e_pos e \<and> loc_skip loc \<le> e_count e")
    case True
    then show ?thesis using that [of j] e by simp
  next
    case False
    then have "loc_cpos loc = last (P i off)" "loc_skip loc = 0" using assms(6) e(1,2) by auto
    moreover have "P i off \<noteq> []" using e(4) by auto
    ultimately show ?thesis using that [of "length (V i off) - 1"] reader(1) V by (simp add: last_conv_nth)
  qed
  have "loc_cpos loc \<noteq> 0" using k(1,2) reader(1) by (metis nth_mem)
  then show ?thesis
    using k reader(2,3) [OF k(1)] w(1) page(2) counter_reader.table_last [OF w(2) V] counter_reader.table_nonzero [OF w(2) V]
      \<open>pl_from_page pl \<le> offset_to_page off\<close> \<open>offset_to_page off < pl_to_page pl\<close>
    by (simp add: locator_ok_def assms(4,5) e(1,2))
qed

lemma stream_cuts_entry:
  assumes "0 < R" "(e, s) \<in> set (stream_cuts R T es)"
  shows "e \<in> set es" "s \<le> unat (e_count e)"
proof -
  obtain k where "k < length (stream_cuts R T es)" "stream_cuts R T es ! k = (e, s)"
    using assms(2) by (auto simp: in_set_conv_nth)
  from nth_stream_cuts [OF assms(1) this(1)] this(2) show "e \<in> set es" "s \<le> unat (e_count e)" by auto
qed

lemma locators_of_ok:
  assumes "workers_read ws P V" "unat (pl_to_page pl) \<le> 20" "0 < R" "loc \<in> set (locators_of P R es)"
    and es: "es = stream P V (unat (pl_from_page pl)) (unat (pl_to_page pl))"
  shows "locator_ok ws pl loc"
proof (cases es)
  case (Cons e es0)
  with assms(4) consider "loc = \<lparr>loc_offset = e_offset e, loc_cpos = last (P (e_thread e) (e_offset e)), loc_skip = 0,
      loc_thread = e_thread e\<rparr>" | e' s where "(e', s) \<in> set (stream_cuts R 0 es)" "loc = locator_at e' s"
    by (auto simp: locators_of_def)
  then show ?thesis
  proof cases
    case 1
    have "e \<in> set es" by (simp add: Cons)
    then show ?thesis by (intro entry_locator_ok [OF assms(1,2), of e, folded es]) (simp_all add: 1)
  next
    case (2 e' s)
    note cut = stream_cuts_entry [OF assms(3) 2(1)]
    have "unat (e_count e') < 4294967296" by (rule unat_u32_bound)
    then have "of_nat s \<le> e_count e'" using cut(2) by (simp add: word_le_nat_alt)
    then show ?thesis
      by (intro entry_locator_ok [OF assms(1,2), of e', folded es]) (simp_all add: 2(2) cut(1) locator_at_def)
  qed
qed (use assms(4) in \<open>simp add: locators_of_def\<close>)

subsection \<open>Properties\<close>

text \<open>
  C35: Locators are well typed. Every locator \<open>generate_locators\<close> pushes names an existing thread, an offset on a page
  of the planner at which that thread has entries, the position of one of its entries, and no more rows to skip than
  the entry has: the two errors \<open>execute_from_locator\<close> reports about its locator do not occur.
\<close>

theorem locators_well_typed:
  assumes "workers_read ws P V" "0 < R" "R < 4294967296" "mem_planner_new i (of_nat R) a mb = Inr pl"
    and "rows_total (stream P V (unat (pl_from_page pl)) (unat (pl_to_page pl))) div R < MAX_LOCATORS"
    and "generate_locators ws (locators_new tbl) pl = Some (Inr (q, pl'))"
  shows "\<forall>loc\<in>set (pushed q). locator_ok ws pl loc"
proof -
  note new = mem_planner_newD [OF assms(4)]
  have page: "unat (pl_to_page pl) \<le> 20" using new(2) by simp
  have "pushed q = locators_of P R (stream P V (unat (pl_from_page pl)) (unat (pl_to_page pl)))"
    using generate_locators_stream [OF assms(1) _ assms(2,3) page refl, of "locators_new tbl"] new(1) assms(5,6)
    by (auto simp: ready_def)
  then show ?thesis using locators_of_ok [OF assms(1) page assms(2) _ refl] by simp
qed

theorem locators_well_typed_witness:
  "\<exists>ws pl q pl'. generate_locators ws (locators_new (\<lambda>_. loc1)) pl = Some (Inr (q, pl')) \<and> length (pushed q) = 3 \<and>
    locator_ok ws pl (pushed q ! 2)"
proof -
  have "addr_to_offset 0xA0000000 0 = Inr 0x400000" by (simp add: addr_to_offset_eq window_page_def)
  then obtain ws P where ws: "workers_read ws P (one_entry 0x400000 7 5)" by (rule one_entry_workers)
  obtain pl where pl: "mem_planner_new 0 (of_nat 2) 0xA0000000 512 = Inr pl" "pl_from_page pl = 4" "pl_to_page pl = 11"
    "pl_rows pl = of_nat 2"
    by (simp add: mem_planner_new_def ram_pages)
  have "offset_to_page 0x400000 = of_nat 4" by (simp add: offset_to_page_words)
  then obtain p where st: "stream P (one_entry 0x400000 7 5) 4 11 =
      [\<lparr>e_thread = 0, e_offset = 0x400000, e_pos = p, e_chunk = 7, e_count = 5\<rparr>]"
    using stream_one_entry [OF ws, of 11 4] by force
  let ?es = "stream P (one_entry 0x400000 7 5) (unat (pl_from_page pl)) (unat (pl_to_page pl))"
  have rows: "?es \<noteq> []" "rows_total ?es = 5" by (simp_all add: pl st)
  then have fits: "rows_total ?es div 2 < MAX_LOCATORS" by simp
  obtain q pl' where gen: "generate_locators ws (locators_new (\<lambda>_. loc1)) pl = Some (Inr (q, pl'))"
    and q: "pushed q = locators_of P 2 ?es"
    using generate_locators_stream [OF ws pl(4) _ _ _ refl, of "locators_new (\<lambda>_. loc1)"] pl fits by auto
  have len: "length (pushed q) = 3" unfolding q by (subst length_locators_of) (simp_all add: rows)
  have "\<forall>loc\<in>set (pushed q). locator_ok ws pl loc"
    by (rule locators_well_typed [OF ws _ _ pl(1) fits gen]) simp_all
  then have "locator_ok ws pl (pushed q ! 2)" using len by (simp del: length_pushed)
  then show ?thesis using gen len by blast
qed

end
