(* ===== verification/Planner_Org.thy ===== *)
theory Planner_Org
  imports Planner_Stream Mem_Segment
begin

text \<open>
  \<open>MemPlannerOrg\<close> of \<open>mem_planner_org.hpp\<close>, the first planner of the repository, kept behind \<open>MEM_PLANNER_ORG\<close>: it walks
  the counters and fills segments as \<open>ImmutableMemPlanner\<close> does, for read-only memory (a row for every skipped address)
  or for the RAM (\<open>intermediate_step_reads\<close>, a row where an address waits too long). It is written against an interface
  the other files no longer have. What is gone is a parameter here, \<open>OldInterface\<close>: the constructor of a check point
  behind \<open>try_emplace\<close> (address, skip, count, intermediate skip), \<open>CHUNK_MAX_DISTANCE\<close>, and the member
  \<open>last_addr\<close> of a counter, the last address counted in a page. \<open>printf\<close>s are left out.
\<close>

subsection \<open>State\<close>

record OldInterface =
  old_check_point :: "u32 \<Rightarrow> u32 \<Rightarrow> u32 \<Rightarrow> u32 \<Rightarrow> MemCheckPoint"
  chunk_max_distance :: u32
  old_last_addr :: "MemCounter \<Rightarrow> u32 \<Rightarrow> u32 res"

text \<open>\<open>last_addr\<close> of the planner is initialised nowhere; \<open>last0\<close> is what the memory holds.\<close>

record MemPlannerOrg =
  og_rows :: u32
  og_from_page :: u32
  og_to_page :: u32
  og_available :: u32
  og_ref_chunk :: u32
  og_ref_addr :: u32
  og_ref_skip :: u32
  og_chunk :: u32
  og_last_addr :: u32
  og_max_chunks :: u32
  og_large :: u32
  og_tot_chunks :: u32
  og_step_reads :: bool
  og_segment :: MemSegment
  og_segments :: "MemSegment list"

definition org_new :: "u32 \<Rightarrow> u32 \<Rightarrow> u32 \<Rightarrow> u32 \<Rightarrow> bool \<Rightarrow> MemPlannerOrg res" where
  "org_new last0 rows a mb_size step_reads =
    bindE (planner_pages a mb_size) (\<lambda>(from_page, to_page).
    Inr \<lparr>og_rows = rows, og_from_page = from_page, og_to_page = to_page, og_available = rows,
      og_ref_chunk = NO_CHUNK_ID, og_ref_addr = 0, og_ref_skip = 0, og_chunk = NO_CHUNK_ID, og_last_addr = last0,
      og_max_chunks = 0, og_large = 0, og_tot_chunks = 0, og_step_reads = step_reads, og_segment = segment_new,
      og_segments = []\<rparr>)"

subsection \<open>Segments\<close>

definition org_set_reference :: "u32 \<Rightarrow> u32 \<Rightarrow> MemPlannerOrg \<Rightarrow> MemPlannerOrg" where
  "org_set_reference chunk_id a pl = pl\<lparr>og_ref_chunk := chunk_id, og_ref_addr := a, og_ref_skip := 0\<rparr>"

definition org_set_current_chunk :: "u32 \<Rightarrow> MemPlannerOrg \<Rightarrow> MemPlannerOrg" where
  "org_set_current_chunk chunk_id pl = pl\<lparr>og_chunk := chunk_id\<rparr>"

definition org_close_segment :: "bool \<Rightarrow> MemPlannerOrg \<Rightarrow> MemPlannerOrg" where
  "org_close_segment is_last pl =
    (let pl = pl\<lparr>og_segment := (og_segment pl)\<lparr>is_last_segment := is_last\<rparr>\<rparr>;
         segment_chunks = segment_size (og_segment pl);
         pl = (if segment_chunks > og_max_chunks pl then pl\<lparr>og_max_chunks := segment_chunks\<rparr> else pl);
         pl = (if segment_chunks \<ge> SEGMENT_LARGE_CHUNKS then pl\<lparr>og_large := og_large pl + 1\<rparr> else pl);
         pl = pl\<lparr>og_tot_chunks := og_tot_chunks pl + segment_chunks\<rparr> in
     pl\<lparr>og_segments := og_segments pl @ [og_segment pl], og_segment := segment_new\<rparr>)"

definition org_close_last_segment :: "MemPlannerOrg \<Rightarrow> MemPlannerOrg" where
  "org_close_last_segment pl =
    (if og_available pl < og_rows pl then org_close_segment True pl
     else if og_segments pl \<noteq> [] then
       pl\<lparr>og_segments := butlast (og_segments pl) @ [(last (og_segments pl))\<lparr>is_last_segment := True\<rparr>]\<rparr>
     else pl)"

text \<open>\<open>chunks.try_emplace\<close> on the current segment: \<open>p\<close> is used only if the chunk has no check point.\<close>

definition org_emplace :: "u32 \<Rightarrow> MemCheckPoint \<Rightarrow> MemPlannerOrg \<Rightarrow> MemPlannerOrg" where
  "org_emplace chunk_id p pl =
    (case seg_chunks (og_segment pl) chunk_id of
       None \<Rightarrow> pl\<lparr>og_segment := (og_segment pl)\<lparr>seg_chunks := (seg_chunks (og_segment pl))(chunk_id \<mapsto> p)\<rparr>\<rparr>
     | Some _ \<Rightarrow> pl)"

definition org_open_segment :: "OldInterface \<Rightarrow> u32 \<Rightarrow> MemPlannerOrg \<Rightarrow> MemPlannerOrg" where
  "org_open_segment old intermediate_skip pl =
    (let pl = org_close_segment False pl;
         pl = (if og_ref_chunk pl \<noteq> NO_CHUNK_ID
           then org_emplace (og_ref_chunk pl)
             (old_check_point old (og_ref_addr pl) (og_ref_skip pl) 0 intermediate_skip) pl
           else pl) in
     pl\<lparr>og_available := og_rows pl\<rparr>)"

definition org_add_chunk_to_segment ::
  "OldInterface \<Rightarrow> u32 \<Rightarrow> u32 \<Rightarrow> u32 \<Rightarrow> u32 \<Rightarrow> MemPlannerOrg \<Rightarrow> MemPlannerOrg" where
  "org_add_chunk_to_segment old chunk_id a count skip pl =
    (case seg_chunks (og_segment pl) chunk_id of
       Some p \<Rightarrow> pl\<lparr>og_segment := (og_segment pl)\<lparr>seg_chunks := (seg_chunks (og_segment pl))(chunk_id \<mapsto> add_rows a count p)\<rparr>\<rparr>
     | None \<Rightarrow> org_emplace chunk_id (old_check_point old a skip count 0) pl)"

definition org_add_next_addr_to_segment :: "OldInterface \<Rightarrow> u32 \<Rightarrow> MemPlannerOrg \<Rightarrow> MemPlannerOrg" where
  "org_add_next_addr_to_segment old a pl = org_add_chunk_to_segment old (og_chunk pl) a 1 0 pl"

definition org_preopen_segment :: "OldInterface \<Rightarrow> u32 \<Rightarrow> u32 \<Rightarrow> MemPlannerOrg \<Rightarrow> MemPlannerOrg" where
  "org_preopen_segment old a intermediate_rows pl =
    (if og_available pl = 0 then
       org_open_segment old intermediate_rows
         (if intermediate_rows > 0 then org_add_next_addr_to_segment old a pl else pl)
     else pl)"

subsection \<open>Rows\<close>

definition org_consume_rows :: "OldInterface \<Rightarrow> u32 \<Rightarrow> u32 \<Rightarrow> u32 \<Rightarrow> MemPlannerOrg \<Rightarrow> MemPlannerOrg res" where
  "org_consume_rows old a row_count skip pl =
    (if row_count = 0 \<and> og_available pl > 0 then Inr pl
     else if row_count > og_available pl then Inl (Too_much_rows row_count (og_available pl))
     else
       let pl = (if og_available pl = 0 then org_open_segment old 0 pl else pl);
           pl = org_add_chunk_to_segment old (og_chunk pl) a row_count skip pl in
       Inr (pl\<lparr>og_available := og_available pl - row_count, og_ref_skip := og_ref_skip pl + row_count\<rparr>))"

text \<open>The rows this adds to the check point are the planner's member \<open>rows\<close>, not \<open>row_count\<close>.\<close>

definition org_consume_intermediate_rows ::
  "OldInterface \<Rightarrow> u32 \<Rightarrow> u32 \<Rightarrow> u32 \<Rightarrow> MemPlannerOrg \<Rightarrow> MemPlannerOrg res" where
  "org_consume_intermediate_rows old a row_count skip pl =
    (if row_count = 0 \<and> og_available pl > 0 then Inr pl
     else if row_count > og_available pl then Inl (Too_much_rows row_count (og_available pl))
     else
       let pl = (if og_available pl = 0 then org_open_segment old 0 pl else pl);
           pl = (if og_step_reads pl then org_add_chunk_to_segment old (og_chunk pl) a (og_rows pl) skip pl else pl) in
       Inr (pl\<lparr>og_available := og_available pl - row_count\<rparr>))"

partial_function (option) org_intermediate_rows_loop ::
  "OldInterface \<Rightarrow> u32 \<Rightarrow> u32 \<Rightarrow> u32 \<Rightarrow> MemPlannerOrg \<Rightarrow> MemPlannerOrg run" where
  "org_intermediate_rows_loop old a count pending pl =
    (if pending > 0 then
       (let rows = min pending (og_available pl); skip = count - pending in
        case org_consume_intermediate_rows old a rows skip pl of
          Inl e \<Rightarrow> Some (Inl e)
        | Inr pl \<Rightarrow> org_intermediate_rows_loop old a count (pending - rows) pl)
     else Some (Inr pl))"

partial_function (option) org_rows_loop ::
  "OldInterface \<Rightarrow> u32 \<Rightarrow> u32 \<Rightarrow> u32 \<Rightarrow> MemPlannerOrg \<Rightarrow> MemPlannerOrg run" where
  "org_rows_loop old a count pending pl =
    (if pending > 0 then
       (let rows = min pending (og_available pl); skip = count - pending in
        case org_consume_rows old a rows skip pl of
          Inl e \<Rightarrow> Some (Inl e)
        | Inr pl \<Rightarrow> org_rows_loop old a count (pending - rows) pl)
     else Some (Inr pl))"

definition org_add_intermediate_rows :: "OldInterface \<Rightarrow> u32 \<Rightarrow> u32 \<Rightarrow> MemPlannerOrg \<Rightarrow> MemPlannerOrg run" where
  "org_add_intermediate_rows old a count pl = org_intermediate_rows_loop old a count count pl"

definition org_add_rows :: "OldInterface \<Rightarrow> u32 \<Rightarrow> u32 \<Rightarrow> MemPlannerOrg \<Rightarrow> MemPlannerOrg run" where
  "org_add_rows old a count pl = org_rows_loop old a count count pl"

definition org_add_intermediate_addr :: "OldInterface \<Rightarrow> u32 \<Rightarrow> u32 \<Rightarrow> MemPlannerOrg \<Rightarrow> MemPlannerOrg run" where
  "org_add_intermediate_addr old from_a to_a pl =
    (let count = to_a - from_a + 1 in
     if count > 1 then
       bindR (org_add_intermediate_rows old from_a 1 pl) (org_add_intermediate_rows old to_a (count - 1))
     else org_add_intermediate_rows old to_a 1 pl)"

text \<open>It returns the 0 it starts with, whatever it adds.\<close>

definition org_add_intermediate_steps :: "OldInterface \<Rightarrow> u32 \<Rightarrow> MemPlannerOrg \<Rightarrow> (u32 \<times> MemPlannerOrg) run" where
  "org_add_intermediate_steps old a pl =
    bindR (if og_ref_chunk pl \<noteq> NO_CHUNK_ID \<and> og_chunk pl - og_ref_chunk pl > chunk_max_distance old
      then org_add_intermediate_rows old a 1 pl else Some (Inr pl)) (\<lambda>pl.
    Some (Inr (0, pl)))"

definition org_add_intermediates :: "OldInterface \<Rightarrow> u32 \<Rightarrow> MemPlannerOrg \<Rightarrow> (u32 \<times> MemPlannerOrg) run" where
  "org_add_intermediates old a pl =
    (if og_last_addr pl \<noteq> a then
       bindR (if \<not> og_step_reads pl \<and> a - og_last_addr pl > 1
         then org_add_intermediate_addr old (og_last_addr pl + 1) (a - 1) pl else Some (Inr pl)) (\<lambda>pl.
       Some (Inr (0, pl\<lparr>og_last_addr := a\<rparr>)))
     else if og_step_reads pl then org_add_intermediate_steps old a pl
     else Some (Inr (0, pl)))"

definition org_add_to_current_segment ::
  "OldInterface \<Rightarrow> u32 \<Rightarrow> u32 \<Rightarrow> u32 \<Rightarrow> MemPlannerOrg \<Rightarrow> MemPlannerOrg run" where
  "org_add_to_current_segment old chunk_id a count pl =
    bindR (org_add_intermediates old a (org_set_current_chunk chunk_id pl)) (\<lambda>(intermediate_rows, pl).
    org_add_rows old a count (org_set_reference chunk_id a (org_preopen_segment old a intermediate_rows pl)))"

subsection \<open>The run\<close>

definition org_get_max_addr :: "OldInterface \<Rightarrow> MemCounter list \<Rightarrow> u32 \<Rightarrow> u32 res" where
  "org_get_max_addr old ws page =
    bindE (bindE (worker ws 0) (\<lambda>w. old_last_addr old w page))
      (foldE (\<lambda>i max_addr. bindE (bindE (worker ws i) (\<lambda>w. old_last_addr old w page)) (\<lambda>a.
          Inr (if a > max_addr then a else max_addr)))
        (words 1 8))"

definition org_entry :: "OldInterface \<Rightarrow> u32 \<Rightarrow> u32 \<Rightarrow> u32 \<Rightarrow> u32 \<Rightarrow> MemPlannerOrg \<Rightarrow> (MemPlannerOrg \<times> bool) run" where
  "org_entry old a cpos chunk_id count pl =
    bindR (org_add_to_current_segment old chunk_id a count pl) (\<lambda>pl. Some (Inr (pl, False)))"

definition org_cell :: "OldInterface \<Rightarrow>
    MemCounter list \<Rightarrow> u32 \<Rightarrow> u32 \<Rightarrow> MemPlannerOrg \<times> u32 \<Rightarrow> ((MemPlannerOrg \<times> u32) \<times> bool) run" where
  "org_cell old ws offset i = (\<lambda>(pl, a).
    bindR (Some (worker ws i)) (\<lambda>w.
    bindR (Some (get_addr_table w offset)) (\<lambda>pos.
    if pos = 0 then Some (Inr ((pl, a + 8), False))
    else
      bindR (Some (get_initial_pos w pos)) (\<lambda>cpos.
      bindR (walk True (get_next_pos w) (read_entry (get_pos_value w) (org_entry old a)) pos cpos pl) (\<lambda>(pl, _).
      Some (Inr ((pl, a + 8), False)))))))"

definition org_page :: "OldInterface \<Rightarrow> MemCounter list \<Rightarrow> u32 \<Rightarrow> MemPlannerOrg \<Rightarrow> (MemPlannerOrg \<times> bool) run" where
  "org_page old ws page pl =
    bindR (Some (org_get_max_addr old ws page)) (\<lambda>max_addr.
    if max_addr = 0 then Some (Inr (pl, False))
    else
      bindR (Some (page_to_addr (ucast page))) (\<lambda>a.
      bindR (Some (addr_to_offset max_addr 0)) (\<lambda>max_offset.
      bindR (for_while (\<lambda>off. off \<le> max_offset)
          (\<lambda>off. for_while (\<lambda>i. i < MAX_THREADS) (org_cell old ws off) 0) (page * ADDR_PAGE_SIZE) (pl, a))
        (\<lambda>((pl, _), _). Some (Inr (pl, False))))))"

definition org_execute :: "OldInterface \<Rightarrow> MemCounter list \<Rightarrow> MemPlannerOrg \<Rightarrow> MemPlannerOrg run" where
  "org_execute old ws pl =
    bindR (for_while (\<lambda>page. page < og_to_page pl) (org_page old ws) (og_from_page pl) pl) (\<lambda>(pl, _).
    Some (Inr (org_close_last_segment pl)))"

text \<open>The body of \<open>execute_from_locators\<close> is a comment.\<close>

definition org_execute_from_locators :: "MemCounter list \<Rightarrow> 'q \<Rightarrow> MemPlannerOrg \<Rightarrow> 'q \<times> MemPlannerOrg" where
  "org_execute_from_locators ws locators pl = (locators, pl)"

subsection \<open>Locators\<close>

text \<open>
  The queue of the locators is a parameter too: the \<open>push_locator\<close> it calls has three arguments. The state is
  \<open>rows_available\<close> and the queue; the first entry of a cell is treated apart, the loop keeps the chunk of the one before.
\<close>

definition org_first_entry ::
  "(u32 \<Rightarrow> u32 \<Rightarrow> u32 \<Rightarrow> 'q \<Rightarrow> 'q res) \<Rightarrow> u32 \<Rightarrow> u32 \<Rightarrow> u32 \<Rightarrow> u32 \<Rightarrow> u32 \<times> 'q \<Rightarrow> (u32 \<times> 'q) res" where
  "org_first_entry push rows offset cpos count = (\<lambda>(rows_available, q).
    if rows_available \<le> count then
      bindE (push offset cpos rows_available q) (\<lambda>q. Inr (rows_available + rows - count, q))
    else Inr (rows_available - count, q))"

definition org_next_entry :: "(u32 \<Rightarrow> u32 \<Rightarrow> u32 \<Rightarrow> 'q \<Rightarrow> 'q res) \<Rightarrow> u32 \<Rightarrow> u32 \<Rightarrow> u32 \<Rightarrow>
    u32 \<Rightarrow> u32 \<Rightarrow> u32 \<Rightarrow> u32 \<times> u32 \<times> 'q \<Rightarrow> ((u32 \<times> u32 \<times> 'q) \<times> bool) run" where
  "org_next_entry push max_distance rows offset cpos chunk count = (\<lambda>(p_chunk, rows_available, q).
    (let extra_row = (if chunk - p_chunk > max_distance then 0 else 1);
         count = count + extra_row in
     if rows_available > count then Some (Inr ((chunk, rows_available - count, q), False))
     else if rows_available < count then
       bindR (Some (push offset cpos rows_available q)) (\<lambda>q. Some (Inr ((chunk, rows_available + rows - count, q), False)))
     else
       bindR (Some (push offset cpos rows_available q)) (\<lambda>q. Some (Inr ((chunk, rows, q), False)))))"

definition org_generate_cell :: "(u32 \<Rightarrow> u32 \<Rightarrow> u32 \<Rightarrow> 'q \<Rightarrow> 'q res) \<Rightarrow> u32 \<Rightarrow> MemCounter list \<Rightarrow> u32 \<Rightarrow>
    u32 \<Rightarrow> u32 \<Rightarrow> u32 \<times> 'q \<Rightarrow> ((u32 \<times> 'q) \<times> bool) run" where
  "org_generate_cell push max_distance ws rows offset i st =
    bindR (Some (worker ws i)) (\<lambda>w.
    bindR (Some (get_addr_table w offset)) (\<lambda>pos.
    if pos = 0 then Some (Inr (st, False))
    else
      bindR (Some (get_initial_pos w pos)) (\<lambda>cpos.
      if cpos = 0 then Some (Inr (st, False))
      else
        bindR (Some (get_pos_value w (cpos + 1))) (\<lambda>count.
        bindR (Some (org_first_entry push rows offset cpos count st)) (\<lambda>(rows_available, q).
        if cpos = pos then Some (Inr ((rows_available, q), False))
        else
          bindR (Some (get_pos_value w cpos)) (\<lambda>p_chunk.
          bindR (Some (get_next_pos w (cpos + 1))) (\<lambda>cpos.
          bindR (walk True (get_next_pos w) (read_entry (get_pos_value w) (org_next_entry push max_distance rows offset))
              pos cpos (p_chunk, rows_available, q)) (\<lambda>((_, rows_available, q), _).
          Some (Inr ((rows_available, q), False))))))))))"

definition org_generate_page :: "(u32 \<Rightarrow> u32 \<Rightarrow> u32 \<Rightarrow> 'q \<Rightarrow> 'q res) \<Rightarrow> OldInterface \<Rightarrow> MemCounter list \<Rightarrow> u32 \<Rightarrow>
    u32 \<Rightarrow> u32 \<times> 'q \<Rightarrow> ((u32 \<times> 'q) \<times> bool) run" where
  "org_generate_page push old ws rows page st =
    bindR (Some (org_get_max_addr old ws page)) (\<lambda>max_addr.
    if max_addr = 0 then Some (Inr (st, False))
    else
      bindR (Some (page_to_addr (ucast page))) (\<lambda>_.
      bindR (Some (addr_to_offset max_addr 0)) (\<lambda>max_offset.
      for_while (\<lambda>off. off \<le> max_offset)
        (\<lambda>off. for_while (\<lambda>i. i < MAX_THREADS) (org_generate_cell push (chunk_max_distance old) ws rows off) 0)
        (page * ADDR_PAGE_SIZE) st)))"

definition org_generate_locators :: "(u32 \<Rightarrow> u32 \<Rightarrow> u32 \<Rightarrow> 'q \<Rightarrow> 'q res) \<Rightarrow> OldInterface \<Rightarrow> MemCounter list \<Rightarrow>
    'q \<Rightarrow> MemPlannerOrg \<Rightarrow> ('q \<times> MemPlannerOrg) run" where
  "org_generate_locators push old ws locators pl =
    bindR (for_while (\<lambda>page. page < og_to_page pl) (org_generate_page push old ws (og_rows pl)) (og_from_page pl)
        (og_rows pl, locators)) (\<lambda>((rows_available, q), _).
    Some (Inr (q, pl\<lparr>og_available := rows_available\<rparr>)))"

end
