(* ===== verification/Org_Walk.thy ===== *)
theory Org_Walk
  imports Planner_Org Cell_Walk Stream_Rows
begin

text \<open>
  The walk of \<open>MemPlannerOrg\<close> over a page, from its first address to the greatest of the eight \<open>last_addr\<close> of the counters.
\<close>

subsection \<open>What closing a segment leaves\<close>

lemma org_close_simps [simp]:
  "og_segments (org_close_segment l op) = og_segments op @ [(og_segment op)\<lparr>is_last_segment := l\<rparr>]"
  "og_segment (org_close_segment l op) = segment_new" "og_rows (org_close_segment l op) = og_rows op"
  "og_available (org_close_segment l op) = og_available op" "og_ref_chunk (org_close_segment l op) = og_ref_chunk op"
  "og_ref_addr (org_close_segment l op) = og_ref_addr op" "og_ref_skip (org_close_segment l op) = og_ref_skip op"
  "og_chunk (org_close_segment l op) = og_chunk op" "og_last_addr (org_close_segment l op) = og_last_addr op"
  "og_step_reads (org_close_segment l op) = og_step_reads op"
  by (simp_all add: org_close_segment_def Let_def)

subsection \<open>The bounds of a page\<close>

lemma page_base:
  assumes "p < 20"
  shows "page_to_addr (ucast (of_nat p :: u32)) = Inr (cell_addr (of_nat p * ADDR_PAGE_SIZE, 0))"
    and "unat (of_nat p * ADDR_PAGE_SIZE) = p * 1048576"
proof -
  have "(ucast (of_nat p :: u32) :: u8) = of_nat p"
    using assms by (intro word_eq_of_nat) (simp add: unsigned_ucast_eq take_bit_eq_mod)
  then show "page_to_addr (ucast (of_nat p :: u32)) = Inr (cell_addr (of_nat p * ADDR_PAGE_SIZE, 0))"
    using offset_to_addr_eq [OF assms, of 0 0] page_to_addr_eq [OF assms] by (simp add: cell_addr.simps)
  show "unat (of_nat p * ADDR_PAGE_SIZE) = p * 1048576"
    using unat_of_nat_u32 [of "p * 1048576"] assms by simp
qed

lemma max_addr_of:
  assumes "workers_read ws P V" "\<forall>i<8 :: u32. old_last_addr old (ws ! unat i) page = Inr (b i)"
  shows "org_get_max_addr old ws page = Inr (Max (b ` {i. i < 8}))"
proof -
  let ?f = "\<lambda>i max_addr. bindE (bindE (worker ws i) (\<lambda>w. old_last_addr old w page)) (\<lambda>a.
    Inr (if a > max_addr then a else max_addr))"
  have one: "bindE (worker ws i) (\<lambda>w. old_last_addr old w page) = Inr (b i)" if "i < 8" for i
    using workers_readD(1) [OF assms(1) that] assms(2) that by simp
  have loop: "foldE ?f is m = Inr (Max (insert m (b ` set is)))" if "\<forall>i\<in>set is. i < 8" for "is" m
    using that
  proof (induction "is" arbitrary: m)
    case (Cons i "is")
    have i: "i < 8" "\<forall>i\<in>set is. i < 8" using Cons.prems by simp_all
    have "?f i m = Inr (max m (b i))" using i(1) by (simp only: one bindE.simps) (auto simp: max_def)
    then have "foldE ?f (i # is) m = foldE ?f is (max m (b i))" by (simp only: foldE.simps bindE.simps)
    also have "\<dots> = Inr (Max (insert (max m (b i)) (b ` set is)))" by (rule Cons.IH [OF i(2)])
    also have "Max (insert (max m (b i)) (b ` set is)) = Max (insert m (b ` set (i # is)))"
      by (cases "b ` set is = {}") (simp_all add: max.assoc)
    finally show ?case .
  qed simp
  have lanes: "\<forall>i\<in>set (words 1 8). i < 8" "insert (b 0) (b ` set (words 1 8)) = b ` {i. i < 8}" using lanes_words by auto
  have "(0 :: u32) < 8" by simp
  note one [OF this]
  then have "org_get_max_addr old ws page = foldE ?f (words 1 8) (b 0)" by (simp only: org_get_max_addr_def bindE.simps)
  also have "\<dots> = Inr (Max (insert (b 0) (b ` set (words 1 8))))" by (rule loop [OF lanes(1)])
  finally show ?thesis unfolding lanes(2) .
qed

text \<open>A page whose greatest \<open>last_addr\<close> is in it is walked from its first offset.\<close>

lemma org_page_bounds:
  assumes "workers_read ws P V" "p < 20" "\<forall>i<8 :: u32. old_last_addr old (ws ! unat i) (of_nat p) = Inr (b i)"
    and "addr_to_offset (Max (b ` {i. i < 8})) 0 = Inr hi" "offset_to_page hi = of_nat p"
  obtains a where "org_get_max_addr old ws (of_nat p) = Inr a" "a \<noteq> 0" "addr_to_offset a 0 = Inr hi"
    "page_to_addr (ucast (of_nat p :: u32)) = Inr (cell_addr (of_nat p * ADDR_PAGE_SIZE, 0))"
    "of_nat p * ADDR_PAGE_SIZE \<le> hi" "offset_to_page (of_nat p * ADDR_PAGE_SIZE) = of_nat p"
proof -
  note base = page_base [OF assms(2)]
  have "p * 1048576 \<le> unat hi" using assms(5) unfolding page_of_offset [OF assms(2)] by simp
  then have "of_nat p * ADDR_PAGE_SIZE \<le> hi" using base(2) by (simp add: word_le_nat_alt)
  moreover have "offset_to_page (of_nat p * ADDR_PAGE_SIZE) = of_nat p"
    unfolding page_of_offset [OF assms(2)] base(2) by simp
  moreover have "Max (b ` {i. i < 8}) \<noteq> 0" using assms(4) by (auto simp: addr_to_offset_eq window_page_def)
  ultimately show thesis using max_addr_of [OF assms(1,3)] assms(4) base(1) by (intro that)
qed

subsection \<open>The loops\<close>

interpretation org_walk: cell_walk "org_cell old" "org_add_to_current_segment old" for old
proof
  fix ws offset i s a
  have entry: "org_entry old a = (\<lambda>p c n s. bindR (org_add_to_current_segment old c a n s) (\<lambda>s. Some (Inr (s, False))))"
    by (simp add: org_entry_def fun_eq_iff)
  show "org_cell old ws offset i (s, a) =
    bindR (Some (worker ws i)) (\<lambda>w.
    bindR (Some (get_addr_table w offset)) (\<lambda>pos.
    if pos = 0 then Some (Inr ((s, a + 8), False))
    else
      bindR (Some (get_initial_pos w pos)) (\<lambda>cpos.
      bindR (walk True (get_next_pos w) (read_entry (get_pos_value w)
          (\<lambda>p c n s. bindR (org_add_to_current_segment old c a n s) (\<lambda>s. Some (Inr (s, False))))) pos cpos s) (\<lambda>(s, _).
      Some (Inr ((s, a + 8), False))))))"
    unfolding org_cell_def prod.case entry ..
qed

subsection \<open>Properties\<close>

text \<open>
  C37: A page of the old planner. Whatever the eight \<open>last_addr\<close> of the counters are, as long as the greatest of them, at
  offset \<open>hi\<close>, is in the page: \<open>execute\<close> gives \<open>add_to_current_segment\<close> all the entries that the eight counters show from the
  first offset of the page to \<open>hi\<close>, those of one address together, in the order of the addresses, each with its address,
  though it only ever adds eight; and it returns if these calls do, with their result or their error.
\<close>

theorem org_page_visits:
  assumes "workers_read ws P V" "p < 20" "\<forall>i<8 :: u32. old_last_addr old (ws ! unat i) (of_nat p) = Inr (b i)"
    and "addr_to_offset (Max (b ` {i. i < 8})) 0 = Inr hi" "offset_to_page hi = of_nat p"
  shows "org_page old ws (of_nat p) pl =
    bindR (foldR (put (org_add_to_current_segment old))
        (concat (map (cell_entries P V) (range_cells (of_nat p * ADDR_PAGE_SIZE) hi))) pl)
      (\<lambda>pl. Some (Inr (pl, False)))"
proof -
  obtain a where "org_get_max_addr old ws (of_nat p) = Inr a" "a \<noteq> 0" "addr_to_offset a 0 = Inr hi"
    "page_to_addr (ucast (of_nat p :: u32)) = Inr (cell_addr (of_nat p * ADDR_PAGE_SIZE, 0))"
    "of_nat p * ADDR_PAGE_SIZE \<le> hi" "offset_to_page (of_nat p * ADDR_PAGE_SIZE) = of_nat p"
    using assms by (rule org_page_bounds)
  then show ?thesis
    using org_walk.range_put [OF assms(1,2) _ _ assms(5), of "of_nat p * ADDR_PAGE_SIZE" old pl]
    by (simp add: org_page_def del: config_values)
qed

text \<open>A page with one entry.\<close>

lemma lanes_nonempty: "(\<lambda>_. x :: u32) ` {i :: u32. i < 8} = {x}"
proof -
  have "(0 :: u32) \<in> {i. i < 8}" by simp
  then have "{i :: u32. i < 8} \<noteq> {}" by blast
  then show ?thesis by (simp only: image_constant_conv if_False)
qed

lemma one_entry_page:
  assumes "workers_read ws P (one_entry 1 c k)"
  shows "\<exists>p. concat (map (cell_entries P (one_entry 1 c k)) (range_cells 0 1)) =
    [\<lparr>e_thread = 0, e_offset = 1, e_pos = p, e_chunk = c, e_count = k\<rparr>]"
proof -
  have page: "offset_to_page 1 = of_nat 0" by (simp add: offset_to_page_words)
  obtain p where "stream P (one_entry 1 c k) 0 (Suc 0) = [\<lparr>e_thread = 0, e_offset = 1, e_pos = p, e_chunk = c, e_count = k\<rparr>]"
    using stream_one_entry [OF assms, of "Suc 0" 0] page by force
  moreover have "covers (one_entry 1 c k) {i. i < 8} 0 0 1"
    by (auto simp: covers_def offset_to_page_words split: if_splits)
  from cell_entries_page [OF assms this]
  have "concat (map (cell_entries P (one_entry 1 c k)) (range_cells 0 1)) = stream P (one_entry 1 c k) 0 (Suc 0)"
    by (simp add: stream_def cells_def)
  ultimately show ?thesis by simp
qed

theorem org_page_visits_witness:
  "\<exists>ws pl pl'. org_new 0 4 0x80000000 128 True = Inr pl \<and>
    org_page \<lparr>old_check_point = \<lambda>a s n _. check_point_new a s n 0, chunk_max_distance = 0, old_last_addr = \<lambda>_ _. Inr 0x80000040\<rparr>
      ws 0 pl = Some (Inr (pl', False)) \<and> og_available pl' = 1"
proof -
  let ?old = "\<lparr>old_check_point = \<lambda>a s n _. check_point_new a s n 0, chunk_max_distance = 0, old_last_addr = \<lambda>_ _. Inr 0x80000040\<rparr>"
  have one: "addr_to_offset 0x80000040 0 = Inr 1" by (simp add: addr_to_offset_eq window_page_def)
  then obtain ws P where ws: "workers_read ws P (one_entry 1 5 3)" by (rule one_entry_workers)
  obtain p where entries: "concat (map (cell_entries P (one_entry 1 5 3)) (range_cells 0 1)) =
      [\<lparr>e_thread = 0, e_offset = 1, e_pos = p, e_chunk = 5, e_count = 3\<rparr>]" using one_entry_page [OF ws] by blast
  have "planner_pages 0x80000000 128 = Inr (0, 1)"
    by (simp add: planner_pages_def addr_to_page_eq window_page_def page_to_addr_def)
  then obtain pl where new: "org_new 0 4 0x80000000 128 True = Inr pl" and pl: "og_available pl = 4" "og_rows pl = 4"
    "og_last_addr pl = 0" "og_step_reads pl" by (simp add: org_new_def)
  have addr: "cell_addr (1, 0) = 0x80000040" by (simp add: cell_addr.simps offset_to_addr_def page_to_addr_def)
  have "\<exists>pl'. org_add_to_current_segment ?old 5 0x80000040 3 pl = Some (Inr pl') \<and> og_available pl' = 1"
    using pl by (simp add: org_add_to_current_segment_def org_add_intermediates_def org_set_current_chunk_def
        org_preopen_segment_def org_set_reference_def org_add_rows_def org_rows_loop.simps min_def org_consume_rows_def
        org_add_chunk_to_segment_def org_emplace_def Let_def split: option.split)
  then obtain pl' where "org_add_to_current_segment ?old 5 0x80000040 3 pl = Some (Inr pl')" "og_available pl' = 1" by blast
  then show ?thesis
    using org_page_visits [OF ws, of 0 ?old "\<lambda>_. 0x80000040" 1 pl] new one lanes_nonempty
    by (auto simp: entries put_def entry_addr_def addr offset_to_page_words simp del: image_constant_conv)
qed

end
