(* ===== verification/Org_Rows.thy ===== *)
theory Org_Rows
  imports Org_Walk
begin

text \<open>
  How many rows, and so how many segments, the calls of \<open>add_to_current_segment\<close> of \<open>MemPlannerOrg\<close> cost: their own rows,
  and the rows in between. For read-only memory those are the addresses between two calls, counted in bytes; for the RAM
  they are one row for a call at the address before whose chunk is too far from the last. The loops always return.
  Two lemmas apart show what the calls leave in the check points: \<open>todays_first_rows\<close>, \<open>intermediate_row_counts_segment\<close>.
\<close>

subsection \<open>The position\<close>

text \<open>After \<open>n\<close> rows; a full segment is closed only when the next row comes.\<close>

definition org_pos :: "nat \<Rightarrow> nat \<Rightarrow> MemPlannerOrg \<Rightarrow> bool" where
  "org_pos R n pl \<longleftrightarrow> og_rows pl = of_nat R \<and> length (og_segments pl) * R \<le> n \<and> n \<le> Suc (length (og_segments pl)) * R \<and>
    og_available pl = of_nat (Suc (length (og_segments pl)) * R - n)"

text \<open>What the loops leave alone.\<close>

definition org_frame :: "MemPlannerOrg \<Rightarrow> MemPlannerOrg \<Rightarrow> bool" where
  "org_frame pl pl' \<longleftrightarrow> og_chunk pl' = og_chunk pl \<and> og_last_addr pl' = og_last_addr pl \<and>
    og_ref_chunk pl' = og_ref_chunk pl \<and> og_step_reads pl' = og_step_reads pl"

lemma org_frame_refl [simp]: "org_frame pl pl"
  by (simp add: org_frame_def)

lemma org_frame_trans: "org_frame pl pl1 \<Longrightarrow> org_frame pl1 pl2 \<Longrightarrow> org_frame pl pl2"
  by (simp add: org_frame_def)

lemma org_pos_cong:
  assumes "og_rows pl' = og_rows pl" "og_segments pl' = og_segments pl" "og_available pl' = og_available pl"
  shows "org_pos R n pl' = org_pos R n pl"
  using assms by (simp add: org_pos_def)

lemma org_pos_available:
  assumes "org_pos R n pl" "R < 4294967296"
  shows "unat (og_available pl) = Suc (length (og_segments pl)) * R - n"
proof -
  have "Suc (length (og_segments pl)) * R - n \<le> R" using assms(1) unfolding org_pos_def mult_Suc by linarith
  then have "unat (of_nat (Suc (length (og_segments pl)) * R - n) :: u32) = Suc (length (og_segments pl)) * R - n"
    using assms(2) by (intro unat_of_nat_u32) linarith
  then show ?thesis using assms(1) unfolding org_pos_def by metis
qed

lemma org_emplace_simps [simp]:
  "og_segments (org_emplace c p pl) = og_segments pl" "og_rows (org_emplace c p pl) = og_rows pl"
  "og_chunk (org_emplace c p pl) = og_chunk pl" "og_last_addr (org_emplace c p pl) = og_last_addr pl"
  "og_ref_chunk (org_emplace c p pl) = og_ref_chunk pl" "og_step_reads (org_emplace c p pl) = og_step_reads pl"
  "og_available (org_emplace c p pl) = og_available pl" "og_ref_skip (org_emplace c p pl) = og_ref_skip pl"
  by (simp_all add: org_emplace_def split: option.split)

lemma org_add_chunk_simps [simp]:
  "og_segments (org_add_chunk_to_segment old c a n k pl) = og_segments pl"
  "og_rows (org_add_chunk_to_segment old c a n k pl) = og_rows pl"
  "og_chunk (org_add_chunk_to_segment old c a n k pl) = og_chunk pl"
  "og_last_addr (org_add_chunk_to_segment old c a n k pl) = og_last_addr pl"
  "og_ref_chunk (org_add_chunk_to_segment old c a n k pl) = og_ref_chunk pl"
  "og_step_reads (org_add_chunk_to_segment old c a n k pl) = og_step_reads pl"
  "og_available (org_add_chunk_to_segment old c a n k pl) = og_available pl"
  by (simp_all add: org_add_chunk_to_segment_def split: option.split)

lemma org_open_simps [simp]:
  "og_segments (org_open_segment old k pl) = og_segments pl @ [(og_segment pl)\<lparr>is_last_segment := False\<rparr>]"
  "og_rows (org_open_segment old k pl) = og_rows pl" "og_available (org_open_segment old k pl) = og_rows pl"
  "og_chunk (org_open_segment old k pl) = og_chunk pl" "og_last_addr (org_open_segment old k pl) = og_last_addr pl"
  "og_ref_chunk (org_open_segment old k pl) = og_ref_chunk pl" "og_step_reads (org_open_segment old k pl) = og_step_reads pl"
  by (simp_all add: org_open_segment_def Let_def)

text \<open>A segment opened when the current one is full.\<close>

lemma open_pos:
  assumes "org_pos R n pl" "og_available pl = 0" "R < 4294967296"
  shows "org_pos R n (org_open_segment old k pl)"
proof -
  have "Suc (length (og_segments pl)) * R - n = 0" using org_pos_available [OF assms(1,3)] assms(2) by simp
  then have "n = Suc (length (og_segments pl)) * R" using assms(1) unfolding org_pos_def by linarith
  then show ?thesis using assms(1) by (simp add: org_pos_def)
qed

lemma spend_pos:
  assumes "org_pos R n pl" "R < 4294967296" "k \<le> unat (og_available pl)"
    and "og_rows pl' = og_rows pl" "og_segments pl' = og_segments pl" "og_available pl' = og_available pl - of_nat k"
  shows "org_pos R (n + k) pl'"
proof -
  have k: "n + k \<le> Suc (length (og_segments pl)) * R"
    using assms(1,3) unfolding org_pos_available [OF assms(1,2)] org_pos_def by linarith
  then have "of_nat (Suc (length (og_segments pl)) * R - n) - of_nat k =
      (of_nat (Suc (length (og_segments pl)) * R - (n + k)) :: u32)"
    by (subst of_nat_diff [symmetric]) simp_all
  then show ?thesis using assms(1,4-6) k by (simp add: org_pos_def)
qed

subsection \<open>The loops on pending rows\<close>

text \<open>What the loops need of the routine they call, and that both routines provide it.\<close>

definition spends :: "nat \<Rightarrow> (u32 \<Rightarrow> u32 \<Rightarrow> MemPlannerOrg \<Rightarrow> MemPlannerOrg res) \<Rightarrow> bool" where
  "spends R consume \<longleftrightarrow> (\<forall>n k s pl. org_pos R n pl \<and> k \<le> unat (og_available pl) \<and> (k = 0 \<longrightarrow> og_available pl = 0) \<longrightarrow>
    (\<exists>pl'. consume (of_nat k) s pl = Inr pl' \<and> org_pos R (n + k) pl' \<and> org_frame pl pl' \<and>
      (k = 0 \<longrightarrow> og_available pl' = og_rows pl)))"

lemma spend_step:
  assumes c: "\<And>n. consume n s pl = (if n = 0 \<and> og_available pl > 0 then Inr pl
      else if n > og_available pl then Inl (Too_much_rows n (og_available pl))
      else Inr (f n (if og_available pl = 0 then org_open_segment old 0 pl else pl)))"
    and f: "\<And>n pl. og_rows (f n pl) = og_rows pl \<and> og_segments (f n pl) = og_segments pl \<and>
      og_available (f n pl) = og_available pl - n \<and> org_frame pl (f n pl)"
    and R: "R < 4294967296" and pl: "org_pos R n pl" "k \<le> unat (og_available pl)" "k = 0 \<longrightarrow> og_available pl = 0"
  shows "\<exists>pl'. consume (of_nat k) s pl = Inr pl' \<and> org_pos R (n + k) pl' \<and> org_frame pl pl' \<and>
    (k = 0 \<longrightarrow> og_available pl' = og_rows pl)"
proof (cases "og_available pl = 0")
  case True
  then have "k = 0" using pl(2) by simp
  moreover have "consume 0 s pl = Inr (f 0 (org_open_segment old 0 pl))" using c True by simp
  moreover have "org_pos R n (f 0 (org_open_segment old 0 pl))"
    using f [of 0 "org_open_segment old 0 pl"] open_pos [OF pl(1) True R]
    by (subst org_pos_cong [of _ "org_open_segment old 0 pl"]) simp_all
  moreover have "org_frame pl (f 0 (org_open_segment old 0 pl))"
    using f [of 0 "org_open_segment old 0 pl"] by (simp add: org_frame_def)
  moreover have "og_available (f 0 (org_open_segment old 0 pl)) = og_rows pl" using f [of 0 "org_open_segment old 0 pl"] by simp
  ultimately show ?thesis by (intro exI [of _ "f 0 (org_open_segment old 0 pl)"]) simp
next
  case False
  have k: "0 < k" using pl(3) False by blast
  have k32: "k < 4294967296" using pl(2) unat_u32_bound [of "og_available pl"] by linarith
  then have "(of_nat k :: u32) \<noteq> 0" "\<not> of_nat k > og_available pl"
    using k of_nat_u32_eq_0_iff [OF k32] pl(2) by (simp_all add: word_less_nat_alt)
  then have "consume (of_nat k) s pl = Inr (f (of_nat k) pl)" using c False by simp
  moreover have "org_pos R (n + k) (f (of_nat k) pl)" using f by (intro spend_pos [OF pl(1) R pl(2)]) simp_all
  moreover have "org_frame pl (f (of_nat k) pl)" using f by blast
  ultimately show ?thesis using k by (intro exI [of _ "f (of_nat k) pl"]) simp
qed

lemma consume_spends:
  assumes "R < 4294967296"
  shows "spends R (org_consume_rows old a)" "spends R (org_consume_intermediate_rows old a)"
proof -
  show "spends R (org_consume_rows old a)"
    unfolding spends_def
  proof (intro allI impI, elim conjE)
    fix n k s pl
    assume "org_pos R n pl" "k \<le> unat (og_available pl)" "k = 0 \<longrightarrow> og_available pl = 0"
    then show "\<exists>pl'. org_consume_rows old a (of_nat k) s pl = Inr pl' \<and> org_pos R (n + k) pl' \<and> org_frame pl pl' \<and>
        (k = 0 \<longrightarrow> og_available pl' = og_rows pl)"
      by (intro spend_step [where old = old and s = s and f = "\<lambda>n pl. (org_add_chunk_to_segment old (og_chunk pl) a n s pl)
          \<lparr>og_available := og_available pl - n, og_ref_skip := og_ref_skip (org_add_chunk_to_segment old (og_chunk pl) a n s pl) + n\<rparr>", OF _ _ assms])
        (simp_all add: org_consume_rows_def Let_def org_frame_def)
  qed
  show "spends R (org_consume_intermediate_rows old a)"
    unfolding spends_def
  proof (intro allI impI, elim conjE)
    fix n k s pl
    assume "org_pos R n pl" "k \<le> unat (og_available pl)" "k = 0 \<longrightarrow> og_available pl = 0"
    then show "\<exists>pl'. org_consume_intermediate_rows old a (of_nat k) s pl = Inr pl' \<and> org_pos R (n + k) pl' \<and> org_frame pl pl' \<and>
        (k = 0 \<longrightarrow> og_available pl' = og_rows pl)"
      by (intro spend_step [where old = old and s = s and f = "\<lambda>n pl. (if og_step_reads pl then org_add_chunk_to_segment old (og_chunk pl) a (og_rows pl) s pl else pl)
          \<lparr>og_available := og_available pl - n\<rparr>", OF _ _ assms])
        (simp_all add: org_consume_intermediate_rows_def Let_def org_frame_def)
  qed
qed

lemma loop_pos:
  assumes R: "0 < R" "R < 4294967296" and spends: "spends R consume" and p: "p < 4294967296"
    and loop: "\<And>pending pl. loop pending pl = (if pending > 0 then
       (case consume (min pending (og_available pl)) (count - pending) pl of
          Inl e \<Rightarrow> Some (Inl e)
        | Inr pl' \<Rightarrow> loop (pending - min pending (og_available pl)) pl') else Some (Inr pl))"
    and pos: "org_pos R n pl"
  shows "\<exists>pl'. loop (of_nat p) pl = Some (Inr pl') \<and> org_pos R (n + p) pl' \<and> org_frame pl pl'"
  using p pos
proof (induction p arbitrary: n pl rule: less_induct)
  case (less p)
  show ?case
  proof (cases "p = 0")
    case True
    then show ?thesis using less.prems(2) by (subst loop) simp
  next
    case False
    then have p0: "(of_nat p :: u32) > 0" using of_nat_u32_less_iff [of 0 p] less.prems(1) by simp
    have go: "\<exists>pl'. loop (of_nat p) pl0 = Some (Inr pl') \<and> org_pos R (n + p) pl' \<and> org_frame pl0 pl'"
      if l: "org_pos R n pl0" "og_available pl0 \<noteq> 0" for pl0
    proof -
      define k where "k = min p (unat (og_available pl0))"
      have k: "0 < k" "k \<le> p" "k \<le> unat (og_available pl0)" using False l(2) by (simp_all add: k_def unat_gt_0)
      have min: "min (of_nat p) (og_available pl0) = (of_nat k :: u32)"
        using less.prems(1) by (auto simp: k_def min_def word_le_nat_alt)
      obtain pl1 where 1: "consume (of_nat k) (count - of_nat p) pl0 = Inr pl1" "org_pos R (n + k) pl1" "org_frame pl0 pl1"
        using spends l(1) k unfolding spends_def by (metis gr_implies_not0)
      have "of_nat p - of_nat k = (of_nat (p - k) :: u32)" using k(2) by (simp add: of_nat_diff)
      then have run: "loop (of_nat p) pl0 = loop (of_nat (p - k)) pl1"
        unfolding loop [of "of_nat p" pl0] min using p0 1(1) by simp
      have "p - k < p" "p - k < 4294967296" "n + k + (p - k) = n + p" using k less.prems(1) by simp_all
      then show ?thesis using less.IH [OF _ _ 1(2)] org_frame_trans [OF 1(3)] unfolding run by metis
    qed
    show ?thesis
    proof (cases "og_available pl = 0")
      case True
      then obtain pl1 where 1: "consume (of_nat 0) (count - of_nat p) pl = Inr pl1" "org_pos R (n + 0) pl1" "org_frame pl pl1"
        "og_available pl1 = og_rows pl" using spends less.prems(2) unfolding spends_def by (metis le0)
      have "og_rows pl = of_nat R" using less.prems(2) by (simp add: org_pos_def)
      then have "og_available pl1 \<noteq> 0" using 1(4) R of_nat_u32_eq_0_iff [OF R(2)] by simp
      moreover have "org_pos R n pl1" using 1(2) by simp
      moreover have "loop (of_nat p) pl = loop (of_nat p) pl1"
        unfolding loop [of "of_nat p" pl] using p0 True 1(1) by simp
      ultimately show ?thesis using go org_frame_trans [OF 1(3)] by metis
    next
      case False
      then show ?thesis using go [OF less.prems(2)] by blast
    qed
  qed
qed

subsection \<open>One call\<close>

text \<open>A call of \<open>add_to_current_segment\<close>: the chunk, the address and the rows. \<open>before\<close> is the address before.\<close>

fun entry_cost :: "bool \<Rightarrow> u32 \<Rightarrow> u32 \<Rightarrow> u32 \<Rightarrow> u32 \<times> u32 \<times> u32 \<Rightarrow> nat" where
  "entry_cost step_reads max_distance before chunk (c, x, k) =
    (if x \<noteq> before then (if step_reads then 0 else unat (x - before) - 1)
     else if step_reads \<and> chunk \<noteq> NO_CHUNK_ID \<and> c - chunk > max_distance then 1 else 0) + unat k"

declare entry_cost.simps [simp del]

fun org_total :: "bool \<Rightarrow> u32 \<Rightarrow> u32 \<Rightarrow> u32 \<Rightarrow> (u32 \<times> u32 \<times> u32) list \<Rightarrow> nat" where
  "org_total step_reads max_distance before chunk [] = 0"
| "org_total step_reads max_distance before chunk ((c, x, k) # es) =
    entry_cost step_reads max_distance before chunk (c, x, k) + org_total step_reads max_distance x c es"

lemma intermediate_rows_pos:
  assumes "0 < R" "R < 4294967296" "org_pos R n pl"
  shows "\<exists>pl'. org_add_intermediate_rows old a k pl = Some (Inr pl') \<and> org_pos R (n + unat k) pl' \<and> org_frame pl pl'"
proof -
  have "\<exists>pl'. org_intermediate_rows_loop old a k (of_nat (unat k)) pl = Some (Inr pl') \<and> org_pos R (n + unat k) pl' \<and> org_frame pl pl'"
    by (rule loop_pos [OF assms(1,2) consume_spends(2) [OF assms(2), of old a] unat_u32_bound _ assms(3), where count = k])
      (subst org_intermediate_rows_loop.simps, simp add: Let_def)
  then show ?thesis by (simp add: org_add_intermediate_rows_def)
qed

lemma add_rows_pos:
  assumes "0 < R" "R < 4294967296" "org_pos R n pl"
  shows "\<exists>pl'. org_add_rows old a k pl = Some (Inr pl') \<and> org_pos R (n + unat k) pl' \<and> org_frame pl pl'"
proof -
  have "\<exists>pl'. org_rows_loop old a k (of_nat (unat k)) pl = Some (Inr pl') \<and> org_pos R (n + unat k) pl' \<and> org_frame pl pl'"
    by (rule loop_pos [OF assms(1,2) consume_spends(1) [OF assms(2), of old a] unat_u32_bound _ assms(3), where count = k])
      (subst org_rows_loop.simps, simp add: Let_def)
  then show ?thesis by (simp add: org_add_rows_def)
qed

lemma intermediate_addr_pos:
  assumes "0 < R" "R < 4294967296" "org_pos R n pl" "a - l > 1"
  shows "\<exists>pl'. org_add_intermediate_addr old (l + 1) (a - 1) pl = Some (Inr pl') \<and>
    org_pos R (n + (unat (a - l) - 1)) pl' \<and> org_frame pl pl'"
proof -
  let ?k = "a - 1 - (l + 1) + 1"
  have "?k = a - l - 1" by (simp add: algebra_simps)
  then have k: "unat ?k = unat (a - l) - 1" "0 < unat ?k"
    using assms(4) by (simp_all add: unat_minus_u32 word_le_nat_alt word_less_nat_alt)
  note run = intermediate_rows_pos [OF assms(1,2)]
  show ?thesis
  proof (cases "?k > 1")
    case True
    obtain pl1 where 1: "org_add_intermediate_rows old (l + 1) 1 pl = Some (Inr pl1)" "org_pos R (n + 1) pl1" "org_frame pl pl1"
      using run [OF assms(3), of old "l + 1" 1] by auto
    obtain pl2 where 2: "org_add_intermediate_rows old (a - 1) (?k - 1) pl1 = Some (Inr pl2)"
      "org_pos R (n + 1 + unat (?k - 1)) pl2" "org_frame pl1 pl2"
      using run [OF 1(2), of old "a - 1" "?k - 1"] by blast
    have "1 \<le> ?k" using True by (rule less_imp_le)
    then have "unat (?k - 1) = unat ?k - 1" by (simp only: unat_minus_u32 unsigned_1)
    then have n: "n + 1 + unat (?k - 1) = n + (unat (a - l) - 1)" using k by simp
    have "org_add_intermediate_addr old (l + 1) (a - 1) pl = Some (Inr pl2)"
      unfolding org_add_intermediate_addr_def Let_def if_P [OF True] 1(1) bindR.simps 2(1) ..
    then show ?thesis using 2(2) [unfolded n] org_frame_trans [OF 1(3) 2(3)] by blast
  next
    case False
    then have "unat ?k = 1" using k(2) by (simp add: word_less_nat_alt)
    then show ?thesis
      using False run [OF assms(3), of old "a - 1" 1] k(1) unfolding org_add_intermediate_addr_def Let_def by auto
  qed
qed

lemma intermediates_pos:
  assumes "0 < R" "R < 4294967296" "org_pos R n pl"
    and "c = og_chunk pl"
  shows "\<exists>pl'. org_add_intermediates old (x) pl = Some (Inr (0, pl')) \<and>
    org_pos R (n + (entry_cost (og_step_reads pl) (chunk_max_distance old) (og_last_addr pl) (og_ref_chunk pl) (c, x, k) - unat k)) pl' \<and>
    org_frame (pl\<lparr>og_last_addr := x\<rparr>) pl'"
proof (cases "og_last_addr pl = x")
  case True
  then have same: "pl\<lparr>og_last_addr := x\<rparr> = pl" by (metis MemPlannerOrg.surjective MemPlannerOrg.update_convs(9))
  show ?thesis
  proof (cases "og_step_reads pl \<and> og_ref_chunk pl \<noteq> NO_CHUNK_ID \<and> og_chunk pl - og_ref_chunk pl > chunk_max_distance old")
    case step: True
    obtain pl' where "org_add_intermediate_rows old (x) 1 pl = Some (Inr pl')" "org_pos R (n + 1) pl'" "org_frame pl pl'"
      using intermediate_rows_pos [OF assms(1-3), of old "x" 1] by auto
    then show ?thesis
      using True step assms(4) unfolding same
      by (simp add: org_add_intermediates_def org_add_intermediate_steps_def entry_cost.simps)
  next
    case False
    then show ?thesis
      using True assms(3,4) unfolding same
      by (auto simp: org_add_intermediates_def org_add_intermediate_steps_def entry_cost.simps)
  qed
next
  case other: False
  let ?l = "og_last_addr pl" and ?a = "x"
  have frame: "org_frame (pl\<lparr>og_last_addr := ?a\<rparr>) (pl'\<lparr>og_last_addr := ?a\<rparr>)" if "org_frame pl pl'" for pl'
    using that by (simp add: org_frame_def)
  have pos: "org_pos R m (pl'\<lparr>og_last_addr := ?a\<rparr>) = org_pos R m pl'" for m pl' by (rule org_pos_cong) simp_all
  show ?thesis
  proof (cases "\<not> og_step_reads pl \<and> ?a - ?l > 1")
    case True
    then obtain pl' where "org_add_intermediate_addr old (?l + 1) (?a - 1) pl = Some (Inr pl')"
      "org_pos R (n + (unat (?a - ?l) - 1)) pl'" "org_frame pl pl'"
      using intermediate_addr_pos [OF assms(1-3), of ?a ?l old] by blast
    then show ?thesis
      using True other frame by (simp add: org_add_intermediates_def entry_cost.simps pos)
  next
    case False
    have "unat (?a - ?l) \<le> 1" if "\<not> og_step_reads pl" using False that by (simp add: word_less_nat_alt)
    then show ?thesis
      using False other frame [OF org_frame_refl] assms(3) by (auto simp: org_add_intermediates_def entry_cost.simps pos)
  qed
qed

lemma preopen_pos:
  assumes "org_pos R n pl" "R < 4294967296"
  shows "org_pos R n (org_preopen_segment old a 0 pl)" "org_frame pl (org_preopen_segment old a 0 pl)"
  using open_pos [OF assms(1) _ assms(2)] assms(1) by (auto simp: org_preopen_segment_def org_frame_def)

lemma entry_pos:
  assumes "0 < R" "R < 4294967296" "org_pos R n pl"
  shows "\<exists>pl'. org_add_to_current_segment old c x k pl = Some (Inr pl') \<and>
    org_pos R (n + entry_cost (og_step_reads pl) (chunk_max_distance old) (og_last_addr pl) (og_ref_chunk pl) (c, x, k)) pl' \<and>
    og_step_reads pl' = og_step_reads pl \<and> og_last_addr pl' = x \<and> og_ref_chunk pl' = c"
proof -
  let ?cost = "entry_cost (og_step_reads pl) (chunk_max_distance old) (og_last_addr pl) (og_ref_chunk pl) (c, x, k)"
  let ?pl = "org_set_current_chunk c pl"
  have same: "og_step_reads ?pl = og_step_reads pl" "og_last_addr ?pl = og_last_addr pl" "og_ref_chunk ?pl = og_ref_chunk pl"
    "og_chunk ?pl = c" by (simp_all add: org_set_current_chunk_def)
  have "org_pos R n ?pl" using assms(3) by (simp add: org_set_current_chunk_def org_pos_cong [of "pl\<lparr>og_chunk := c\<rparr>" pl])
  from intermediates_pos [OF assms(1,2) this same(4) [symmetric], of old]
  obtain pl1 where 1: "org_add_intermediates old (x) ?pl = Some (Inr (0, pl1))"
    "org_pos R (n + (?cost - unat k)) pl1" "org_frame (?pl\<lparr>og_last_addr := x\<rparr>) pl1"
    unfolding same by blast
  let ?pl1 = "org_preopen_segment old (x) 0 pl1"
  let ?pl2 = "org_set_reference c (x) ?pl1"
  note pre = preopen_pos [OF 1(2) assms(2), of old "x"]
  have "org_pos R (n + (?cost - unat k)) ?pl2"
    using pre(1) unfolding org_set_reference_def by (subst org_pos_cong [of _ ?pl1]) simp_all
  from add_rows_pos [OF assms(1,2) this, of old "x" "k"]
  obtain pl3 where 3: "org_add_rows old (x) (k) ?pl2 = Some (Inr pl3)"
    "org_pos R (n + (?cost - unat k) + unat k) pl3" "org_frame ?pl2 pl3" by blast
  have "n + (?cost - unat k) + unat k = n + ?cost" by (simp add: entry_cost.simps)
  moreover have "org_add_to_current_segment old c x k pl = Some (Inr pl3)"
    using 1(1) 3(1) by (simp add: org_add_to_current_segment_def)
  moreover have "og_step_reads pl3 = og_step_reads pl \<and> og_last_addr pl3 = x \<and> og_ref_chunk pl3 = c"
    using 3(3) pre(2) 1(3) same by (simp add: org_frame_def org_set_reference_def)
  ultimately show ?thesis using 3(2) by metis
qed

abbreviation org_calls :: "OldInterface \<Rightarrow> (u32 \<times> u32 \<times> u32) list \<Rightarrow> MemPlannerOrg \<Rightarrow> MemPlannerOrg run" where
  "org_calls old \<equiv> foldR (\<lambda>(c, x, k). org_add_to_current_segment old c x k)"

lemma calls_pos:
  assumes "0 < R" "R < 4294967296" "org_pos R n pl"
  shows "\<exists>pl'. org_calls old es pl = Some (Inr pl') \<and>
    org_pos R (n + org_total (og_step_reads pl) (chunk_max_distance old) (og_last_addr pl) (og_ref_chunk pl) es) pl'"
  using assms(3)
proof (induction es arbitrary: n pl)
  case (Cons e es)
  obtain c x k where e: "e = (c, x, k)" by (cases e)
  from entry_pos [OF assms(1,2) Cons.prems, of old c x k] obtain pl1 where
    1: "org_add_to_current_segment old c x k pl = Some (Inr pl1)"
    "org_pos R (n + entry_cost (og_step_reads pl) (chunk_max_distance old) (og_last_addr pl) (og_ref_chunk pl) (c, x, k)) pl1"
    "og_step_reads pl1 = og_step_reads pl" "og_last_addr pl1 = x" "og_ref_chunk pl1 = c" by blast
  from Cons.IH [OF 1(2)] 1(1) show ?case unfolding e 1(3-5) by (simp add: add.assoc)
qed simp

lemma close_last_pos:
  assumes "0 < R" "R < 4294967296" "org_pos R n pl"
  shows "length (og_segments (org_close_last_segment pl)) = (n + R - 1) div R"
proof -
  let ?k = "length (og_segments pl)"
  have rows: "unat (og_rows pl) = R" and k: "?k * R \<le> n" "n \<le> Suc ?k * R"
    using assms(2,3) by (simp_all add: org_pos_def)
  note av = org_pos_available [OF assms(3,2)]
  show ?thesis
  proof (cases "n = ?k * R")
    case True
    then have "\<not> og_available pl < og_rows pl" using av rows by (simp add: word_less_nat_alt)
    then have "length (og_segments (org_close_last_segment pl)) = ?k" by (simp add: org_close_last_segment_def)
    moreover have "(n + R - 1) div R = ?k" using True assms(1) by (intro div_nat_eqI) (simp_all add: mult.commute)
    ultimately show ?thesis by simp
  next
    case False
    then have n: "?k * R < n" "n \<le> ?k * R + R" using k by simp_all
    then have "og_available pl < og_rows pl" using av rows by (simp add: word_less_nat_alt)
    then have "length (og_segments (org_close_last_segment pl)) = Suc ?k" by (simp add: org_close_last_segment_def)
    moreover have "(n + R - 1) div R = Suc ?k"
    proof (rule div_nat_eqI)
      show "R * Suc ?k \<le> n + R - 1" using n(1) by (simp add: mult.commute)
      show "n + R - 1 < R * Suc (Suc ?k)" using n(2) assms(1) by (simp add: mult.commute)
    qed
    ultimately show ?thesis by simp
  qed
qed

subsection \<open>The constructor of today's check points\<close>

lemma org_add_chunk_segment:
  "org_add_chunk_to_segment old c a n k op = op\<lparr>og_segment := (og_segment op)\<lparr>seg_chunks := (seg_chunks (og_segment op))(c \<mapsto>
    (case seg_chunks (og_segment op) c of None \<Rightarrow> old_check_point old a k n 0 | Some q \<Rightarrow> add_rows a n q))\<rparr>\<rparr>"
  by (simp add: org_add_chunk_to_segment_def org_emplace_def split: option.split)

text \<open>
  The call \<open>try_emplace(chunk, addr, skip, count, 0)\<close> fits the constructor of today, which takes the chunk first: the four
  arguments become the chunk, the address, the skip and the count.
\<close>

definition todays_check_point :: "u32 \<Rightarrow> u32 \<Rightarrow> u32 \<Rightarrow> u32 \<Rightarrow> MemCheckPoint" where
  "todays_check_point a skip count intermediate_skip = check_point_new skip count intermediate_skip 0"

lemma todays_first_rows:
  assumes "old_check_point old = todays_check_point" "seg_chunks (og_segment pl) c = None"
  shows "\<exists>p. seg_chunks (og_segment (org_add_chunk_to_segment old c a n k pl)) c = Some p \<and> from_addr p = k \<and> ck_count p = 0"
  using assms by (simp add: org_add_chunk_segment todays_check_point_def check_point_new_def)

text \<open>One intermediate row of the RAM mode adds the rows of a whole segment to the check point of its chunk.\<close>

lemma intermediate_row_counts_segment:
  assumes "og_step_reads pl" "og_available pl \<noteq> 0" "seg_chunks (og_segment pl) (og_chunk pl) = Some p"
  shows "\<exists>pl'. org_add_intermediate_rows old a 1 pl = Some (Inr pl') \<and> og_available pl' = og_available pl - 1 \<and>
    seg_chunks (og_segment pl') (og_chunk pl) = Some (add_rows a (og_rows pl) p)"
proof -
  have "1 \<le> og_available pl" using assms(2) by (simp add: word_le_nat_alt unat_gt_0 Suc_le_eq)
  then have min: "min 1 (og_available pl) = 1" "\<not> 1 > og_available pl" using assms(2) by (auto simp: min_def)
  let ?pl = "(org_add_chunk_to_segment old (og_chunk pl) a (og_rows pl) 0 pl)\<lparr>og_available := og_available pl - 1\<rparr>"
  have "org_consume_intermediate_rows old a 1 0 pl = Inr ?pl"
    using assms min(2) by (simp add: org_consume_intermediate_rows_def org_add_chunk_segment)
  moreover have "org_intermediate_rows_loop old a 1 0 ?pl = Some (Inr ?pl)" by (subst org_intermediate_rows_loop.simps) simp
  ultimately have "org_add_intermediate_rows old a 1 pl = Some (Inr ?pl)"
    unfolding org_add_intermediate_rows_def by (subst org_intermediate_rows_loop.simps) (simp add: min(1))
  then show ?thesis using assms(3) by (simp add: org_add_chunk_segment)
qed

subsection \<open>Properties\<close>

text \<open>
  C38: What calls of \<open>add_to_current_segment\<close> on a new planner cost. Whatever the calls are, they return without an error,
  "too much rows" included, and \<open>close_last_segment\<close> leaves as many segments as it takes to hold all rows: those of the
  calls and those in between. The latter are, for read-only memory, all the addresses between two calls, counted in bytes
  (seven for two neighbouring words), from the uninitialised \<open>last_addr\<close> on; for the RAM, one for each call whose chunk is
  farther from the one before at its address than the limit.
\<close>

theorem org_calls_fill_segments:
  assumes "0 < R" "R < 4294967296" "org_new last0 (of_nat R) a mb step_reads = Inr pl"
  shows "\<exists>pl'. foldR (\<lambda>(chunk, addr, count). org_add_to_current_segment old chunk addr count) calls pl = Some (Inr pl') \<and>
    length (og_segments (org_close_last_segment pl')) =
      (org_total step_reads (chunk_max_distance old) last0 NO_CHUNK_ID calls + R - 1) div R"
proof -
  have pl: "og_rows pl = of_nat R" "og_available pl = of_nat R" "og_segments pl = []" "og_step_reads pl = step_reads"
      "og_last_addr pl = last0" "og_ref_chunk pl = NO_CHUNK_ID"
    using assms(3) by (auto simp: org_new_def)
  have "org_pos R 0 pl" by (simp add: org_pos_def pl)
  from calls_pos [OF assms(1,2) this, of old calls] obtain pl' where "org_calls old calls pl = Some (Inr pl')"
    "org_pos R (org_total step_reads (chunk_max_distance old) last0 NO_CHUNK_ID calls) pl'"
    unfolding pl by auto
  then show ?thesis using close_last_pos [OF assms(1,2)] by blast
qed

text \<open>Two neighbouring words of the ROM: three rows and two rows, and seven in between.\<close>

theorem org_calls_fill_segments_witness:
  "\<exists>pl pl'. org_new 0x80000000 (of_nat 4) 0x80000000 128 False = Inr pl \<and>
    foldR (\<lambda>(chunk, addr, count). org_add_to_current_segment
        \<lparr>old_check_point = \<lambda>a s n _. check_point_new a s n 0, chunk_max_distance = 0, old_last_addr = \<lambda>_ _. Inr 0\<rparr> chunk addr count)
      [(0, 0x80000000, 3), (5, 0x80000008, 2)] pl = Some (Inr pl') \<and>
    length (og_segments (org_close_last_segment pl')) = 3"
proof -
  let ?old = "\<lparr>old_check_point = \<lambda>a s n _. check_point_new a s n 0, chunk_max_distance = 0, old_last_addr = \<lambda>_ _. Inr 0\<rparr>"
  have "planner_pages 0x80000000 128 = Inr (0, 1)"
    by (simp add: planner_pages_def addr_to_page_eq window_page_def page_to_addr_def)
  then obtain pl where pl: "org_new 0x80000000 (of_nat 4) 0x80000000 128 False = Inr pl" by (simp add: org_new_def)
  have "org_total False 0 0x80000000 NO_CHUNK_ID [(0, 0x80000000, 3), (5, 0x80000008, 2)] = 12"
    by (simp add: entry_cost.simps)
  then show ?thesis
    using org_calls_fill_segments [OF _ _ pl, of ?old "[(0, 0x80000000, 3), (5, 0x80000008, 2)]"] pl by auto
qed

end
