(* ===== verification/Org_Locators.thy ===== *)
theory Org_Locators
  imports Org_Walk Ram_Plan
begin

text \<open>
  The locators of \<open>MemPlannerOrg\<close>: \<open>generate_locators\<close> cuts the stream of entries every \<open>rows\<close> rows, as \<open>MemPlanner\<close> does,
  after it has counted one more row for some entries (\<open>with_extra\<close>), and has none for the start of the stream. It cuts an
  entry once at most, so the theorem asks that no entry has more rows than a segment.
\<close>

subsection \<open>The stream with the extra rows\<close>

text \<open>The code adds the row where the chunk of an entry is near the chunk before it.\<close>

fun near_extra :: "u32 \<Rightarrow> u32 \<Rightarrow> stream_entry list \<Rightarrow> stream_entry list" where
  "near_extra max_distance chunk [] = []"
| "near_extra max_distance chunk (e # es) =
    e\<lparr>e_count := e_count e + (if e_chunk e - chunk > max_distance then 0 else 1)\<rparr> #
      near_extra max_distance (e_chunk e) es"

definition with_extra :: "u32 \<Rightarrow> stream_entry list \<Rightarrow> stream_entry list" where
  "with_extra max_distance es = (case es of [] \<Rightarrow> [] | e # es \<Rightarrow> e # near_extra max_distance (e_chunk e) es)"

definition cut_entry :: "(u32 \<Rightarrow> u32 \<Rightarrow> u32 \<Rightarrow> 'q \<Rightarrow> 'q res) \<Rightarrow> u32 \<Rightarrow> stream_entry \<Rightarrow> u32 \<times> 'q \<Rightarrow> (u32 \<times> 'q) res" where
  "cut_entry push rows e = org_first_entry push rows (e_offset e) (e_pos e) (e_count e)"

subsection \<open>The loops\<close>

lemma org_next_entry_cut:
  "org_next_entry push D rows off p c n (pc, st) =
    bindR (Some (org_first_entry push rows off p (n + (if c - pc > D then 0 else 1)) st))
      (\<lambda>st. Some (Inr ((c, st), False)))"
proof -
  obtain av q where st: "st = (av, q)" by fastforce
  define m where "m = n + (if c - pc > D then 0 else 1)"
  have next_entry: "org_next_entry push D rows off p c n (pc, st) =
      (if av > m then Some (Inr ((c, av - m, q), False))
       else if av < m then bindR (Some (push off p av q)) (\<lambda>q. Some (Inr ((c, av + rows - m, q), False)))
       else bindR (Some (push off p av q)) (\<lambda>q. Some (Inr ((c, rows, q), False))))"
    by (simp add: st org_next_entry_def Let_def m_def)
  have first: "org_first_entry push rows off p m st =
      (if av \<le> m then bindE (push off p av q) (\<lambda>q. Inr (av + rows - m, q)) else Inr (av - m, q))"
    by (simp add: st org_first_entry_def)
  have "org_next_entry push D rows off p c n (pc, st) =
      bindR (Some (org_first_entry push rows off p m st)) (\<lambda>st. Some (Inr ((c, st), False)))"
  proof (cases "av > m")
    case True
    then have "\<not> av \<le> m" by simp
    then show ?thesis unfolding next_entry first using True by simp
  next
    case False
    then have "av \<le> m" "av = m \<or> av < m" by auto
    then show ?thesis unfolding next_entry first by (cases "push off p av q") auto
  qed
  then show ?thesis by (simp only: m_def)
qed

abbreviation entries_at :: "u32 \<Rightarrow> u32 \<Rightarrow> (u32 \<times> u32 \<times> u32) list \<Rightarrow> stream_entry list" where
  "entries_at i off \<equiv> map (\<lambda>(p, c, n). \<lparr>e_thread = i, e_offset = off, e_pos = p, e_chunk = c, e_count = n\<rparr>)"

lemma org_next_entries:
  "\<exists>chunk. foldS (\<lambda>(p, c, n). org_next_entry push D rows off p c n) zs (pc, st) =
    bindR (Some (foldE (cut_entry push rows) (near_extra D pc (entries_at i off zs)) st))
      (\<lambda>st. Some (Inr ((chunk, st), False)))"
proof (induction zs arbitrary: pc st)
  case (Cons z zs)
  obtain p c n where z: "z = (p, c, n)" by (cases z) auto
  show ?case
  proof (cases "org_first_entry push rows off p (n + (if c - pc > D then 0 else 1)) st")
    case (Inl e)
    then show ?thesis by (simp add: z org_next_entry_cut cut_entry_def)
  next
    case (Inr st')
    then show ?thesis using Cons.IH [of c st'] by (simp add: z org_next_entry_cut cut_entry_def)
  qed
qed auto

lemma org_generate_cell_cuts:
  assumes "workers_read ws P V" "off < ADDR_TABLE_SIZE" "i < 8"
  shows "org_generate_cell push D ws rows off i st =
    bindR (Some (foldE (cut_entry push rows) (with_extra D (cell_entries P V (off, i))) st)) (\<lambda>st. Some (Inr (st, False)))"
proof (cases "V i off = []")
  case True
  then have "get_addr_table (ws ! unat i) off = Inr 0"
    using counter_reader.table_empty [OF workers_readD(2) [OF assms(1,3)] assms(2)] by simp
  moreover have "cell_entries P V (off, i) = []"
    using True cell_entries_Nil_iff [OF assms(1,3)] by blast
  ultimately show ?thesis
    using workers_readD(1) [OF assms(1,3)] by (simp add: org_generate_cell_def with_extra_def del: cell_entries.simps)
next
  case False
  note w = workers_readD [OF assms(1,3)]
  let ?w = "ws ! unat i" and ?P = "P i off" and ?V = "V i off"
  note pos = counter_reader.positions [OF w(2), of off]
  obtain p ps where P: "?P = p # ps" using pos False by (cases ?P) auto
  obtain c n vs where V: "?V = (c, n) # vs" using False by (cases ?V) auto
  have len: "length ps = length vs" using pos by (simp add: P V)
  have val: "get_pos_value ?w p = Inr c" "get_pos_value ?w (p + 1) = Inr n"
    using counter_reader.value_chunk [OF w(2), of 0 off] counter_reader.value_count [OF w(2), of 0 off]
    unfolding P V by simp_all
  have init: "get_initial_pos ?w (last ?P) = Inr p"
    using counter_reader.initial_first [OF w(2) False] by (simp add: P)
  have p0: "p \<noteq> 0" using pos by (auto simp: P)
  have entries: "cell_entries P V (off, i) = \<lparr>e_thread = i, e_offset = off, e_pos = p, e_chunk = c, e_count = n\<rparr> # entries_at i off (zip ps vs)"
    by (simp add: P V)
  have start: "org_generate_cell push D ws rows off i st =
    bindR (Some (org_first_entry push rows off p n st)) (\<lambda>(rows_available, q).
      if p = last ?P then Some (Inr ((rows_available, q), False))
      else
        bindR (Some (get_next_pos ?w (p + 1))) (\<lambda>cpos.
        bindR (walk True (get_next_pos ?w) (read_entry (get_pos_value ?w) (org_next_entry push D rows off))
            (last ?P) cpos (c, rows_available, q)) (\<lambda>((_, rows_available, q), _).
        Some (Inr ((rows_available, q), False)))))"
    using w(1) counter_reader.table_last [OF w(2) False] counter_reader.table_nonzero [OF w(2) False] init val p0
    by (simp add: org_generate_cell_def cong: if_cong)
  show ?thesis
  proof (cases "org_first_entry push rows off p n st")
    case (Inl e)
    then show ?thesis unfolding start by (simp add: entries with_extra_def cut_entry_def del: cell_entries.simps)
  next
    case (Inr st')
    obtain av q where st': "st' = (av, q)" by fastforce
    show ?thesis
    proof (cases ps)
      case Nil
      then show ?thesis
        unfolding start using Inr len by (simp add: st' P V with_extra_def cut_entry_def)
    next
      case (Cons p' ps')
      then have more: "Suc 0 < length ?V" using len by (cases vs) (simp_all add: V)
      have next_pos: "get_next_pos ?w (p + 1) = Inr (?P ! Suc 0)"
        using counter_reader.next_step [OF w(2) more] by (simp add: P)
      have "distinct ?P" using pos by blast
      then have "p \<noteq> last ?P" by (auto simp: P Cons)
      moreover have "walk True (get_next_pos ?w) (read_entry (get_pos_value ?w) (org_next_entry push D rows off))
          (last ?P) (?P ! Suc 0) (c, av, q) =
          foldS (\<lambda>(p, c, n). org_next_entry push D rows off p c n) (zip ps vs) (c, av, q)"
        using counter_reader.walk_from [OF w(2) more, of True "org_next_entry push D rows off" "(c, av, q)"]
        by (simp add: run_entries_def P V)
      moreover obtain chunk where "foldS (\<lambda>(p, c, n). org_next_entry push D rows off p c n) (zip ps vs) (c, av, q) =
          bindR (Some (foldE (cut_entry push rows) (near_extra D c (entries_at i off (zip ps vs))) (av, q)))
            (\<lambda>st. Some (Inr ((chunk, st), False)))" using org_next_entries by blast
      ultimately show ?thesis
        unfolding start entries using Inr next_pos
        by (cases "foldE (cut_entry push rows) (near_extra D c (entries_at i off (zip ps vs))) (av, q)")
          (auto simp: st' with_extra_def cut_entry_def)
    qed
  qed
qed

lemma foldR_foldE: "foldR (\<lambda>x s. Some (foldE f (g x) s)) xs s = Some (foldE f (concat (map g xs)) s)"
proof (induction xs arbitrary: s)
  case (Cons x xs)
  then show ?case by (cases "foldE f (g x) s") (simp_all add: foldE_append)
qed simp

subsection \<open>The cuts\<close>

lemma one_cut:
  assumes "0 < R" "n \<le> R"
  shows "cuts R T 0 n = (if R - T mod R \<le> n then [R - T mod R] else [])"
proof -
  let ?r = "R - T mod R"
  have hit: "(T + ?r) mod R = 0" by (rule next_cut [OF assms(1)])
  have "0 < ?r" using assms(1) by simp
  then have "\<not> ?r + (R - 0) \<le> n" using assms(2) by linarith
  then have "cuts R T ?r n = []"
    using cuts_step [OF assms(1), of T ?r n] unfolding hit by (simp only: if_False)
  then show ?thesis using cuts_step [OF assms(1), of T 0 n] by simp
qed

lemma entry_cut:
  assumes "0 < R" "R < 4294967296" "unat (e_count e) \<le> R"
  shows "cut_entry push (of_nat R) e (of_nat (R - T mod R), q) =
    bindE (foldE (\<lambda>s. push (e_offset e) (e_pos e) (of_nat s)) (cuts R T 0 (unat (e_count e))) q) (\<lambda>q.
      Inr (of_nat (R - (T + unat (e_count e)) mod R), q))"
proof -
  let ?n = "unat (e_count e)" and ?r = "R - T mod R"
  have r: "0 < ?r" "?r \<le> R" using assms(1) by simp_all
  have le: "of_nat ?r \<le> e_count e \<longleftrightarrow> ?r \<le> ?n"
    using r(2) assms(2) unat_of_nat_u32 [of ?r] by (simp add: word_le_nat_alt)
  have n: "of_nat ?n = e_count e" by simp
  show ?thesis
  proof (cases "?r \<le> ?n")
    case True
    have "(T + ?n) mod R = (T mod R + ?n) mod R" by (simp add: mod_add_left_eq)
    also have "T mod R + ?n = R + (?n - ?r)" using True assms(1) mod_less_divisor [of R T] by linarith
    also have "(R + (?n - ?r)) mod R = (?n - ?r) mod R" by simp
    also have "\<dots> = ?n - ?r" using r(1) assms(1,3) by (intro mod_less) linarith
    finally have "R - (T + ?n) mod R = ?r + R - ?n" using True assms(3) by simp
    moreover have "of_nat (?r + R - ?n) = (of_nat ?r + of_nat R - e_count e :: u32)"
      using assms(3) n by (subst of_nat_diff) simp_all
    ultimately have "of_nat ?r + of_nat R - e_count e = (of_nat (R - (T + ?n) mod R) :: u32)" by simp
    then show ?thesis
      unfolding one_cut [OF assms(1,3)] cut_entry_def org_first_entry_def prod.case le if_P [OF True]
      by (cases "push (e_offset e) (e_pos e) (of_nat ?r) q") (simp_all del: of_nat_diff)
  next
    case False
    have "(T + ?n) mod R = (T mod R + ?n) mod R" by (simp add: mod_add_left_eq)
    also have "\<dots> = T mod R + ?n" using False by (intro mod_less) linarith
    finally have "R - (T + ?n) mod R = ?r - ?n" by simp
    moreover have "of_nat (?r - ?n) = (of_nat ?r - e_count e :: u32)" using False n by (subst of_nat_diff) simp_all
    ultimately have "of_nat ?r - e_count e = (of_nat (R - (T + ?n) mod R) :: u32)" by simp
    then show ?thesis
      unfolding one_cut [OF assms(1,3)] cut_entry_def org_first_entry_def prod.case le if_not_P [OF False]
      by (simp del: of_nat_diff)
  qed
qed

lemma entries_cut:
  assumes "0 < R" "R < 4294967296" "\<forall>e\<in>set es. unat (e_count e) \<le> R"
  shows "foldE (cut_entry push (of_nat R)) es (of_nat (R - T mod R), q) =
    bindE (foldE (\<lambda>(e, s). push (e_offset e) (e_pos e) (of_nat s)) (stream_cuts R T es) q) (\<lambda>q.
      Inr (of_nat (R - (T + rows_total es) mod R), q))"
  using assms(3)
proof (induction es arbitrary: T q)
  case (Cons e es)
  let ?push = "\<lambda>(e, s). push (e_offset e) (e_pos e) (of_nat s)"
  have map_cuts: "foldE ?push (map (Pair e) ss) q = foldE (\<lambda>s. push (e_offset e) (e_pos e) (of_nat s)) ss q" for ss q
    by (induction ss arbitrary: q) (simp, case_tac "push (e_offset e) (e_pos e) (of_nat a) q", simp_all)
  note cut = entry_cut [OF assms(1,2), of e push T q]
  show ?case
  proof (cases "foldE (\<lambda>s. push (e_offset e) (e_pos e) (of_nat s)) (cuts R T 0 (unat (e_count e))) q")
    case (Inl x)
    then show ?thesis using Cons.prems cut by (simp add: foldE_append map_cuts)
  next
    case (Inr q1)
    then show ?thesis
      using Cons.prems cut Cons.IH [of "T + unat (e_count e)" q1] by (simp add: foldE_append map_cuts add.assoc)
  qed
qed simp

subsection \<open>Properties\<close>

text \<open>
  C39: The locators of a page of the old planner. Whatever the eight \<open>last_addr\<close> of the counters are, as long as the
  greatest of them, at offset \<open>hi\<close>, is in the page, and no entry up to it has more rows than a segment, extra row included
  (the code cuts an entry only once): after \<open>T\<close> rows, \<open>generate_locators\<close> pushes for the page one locator, in order, for
  every place where the rows reach a multiple of \<open>R\<close>, with the offset, the position of the entry, and the rows of the entry
  before the place. It stops with the queue's error if the queue has one, and leaves in \<open>rows_available\<close> what the segment has
  left.
\<close>

theorem org_page_locators:
  assumes "workers_read ws P V" "p < 20" "\<forall>i<8 :: u32. old_last_addr old (ws ! unat i) (of_nat p) = Inr (b i)"
    and "addr_to_offset (Max (b ` {i. i < 8})) 0 = Inr hi" "offset_to_page hi = of_nat p" "0 < R" "R < 4294967296"
    and es: "es = concat (map (\<lambda>c. with_extra (chunk_max_distance old) (cell_entries P V c))
      (range_cells (of_nat p * ADDR_PAGE_SIZE) hi))"
    and "\<forall>e\<in>set es. unat (e_count e) \<le> R"
  shows "org_generate_page push old ws (of_nat R) (of_nat p) (of_nat (R - T mod R), q) =
    Some (bindE (foldE (\<lambda>(e, s). push (e_offset e) (e_pos e) (of_nat s)) (stream_cuts R T es) q) (\<lambda>q.
      Inr ((of_nat (R - (T + rows_total es) mod R), q), False)))"
proof -
  let ?lo = "of_nat p * ADDR_PAGE_SIZE" and ?D = "chunk_max_distance old" and ?R = "of_nat R"
  obtain a where a: "org_get_max_addr old ws (of_nat p) = Inr a" "a \<noteq> 0" "addr_to_offset a 0 = Inr hi"
    "page_to_addr (ucast (of_nat p :: u32)) = Inr (cell_addr (?lo, 0))" "?lo \<le> hi" "offset_to_page ?lo = of_nat p"
    using assms(1-5) by (rule org_page_bounds)
  have "covers (\<lambda>_ _. []) {i. i < 8} p ?lo hi" using a(5,6) assms(5) by (simp add: covers_def)
  note cells = covers_cells(2,3) [OF this assms(2)]
  have "foldS (\<lambda>(off, i). org_generate_cell push ?D ws ?R off i) (range_cells ?lo hi) s =
      bindR (foldR (\<lambda>c s. Some (foldE (cut_entry push ?R) (with_extra ?D (cell_entries P V c)) s)) (range_cells ?lo hi) s)
        (\<lambda>st. Some (Inr (st, False)))" for s
    using org_generate_cell_cuts [OF assms(1)] cells(1) by (intro foldS_never) fastforce
  then have "org_generate_page push old ws ?R (of_nat p) s =
      bindR (Some (foldE (cut_entry push ?R) es s)) (\<lambda>s. Some (Inr (s, False)))" for s
    using a(1-4) by (simp add: org_generate_page_def range_loop [OF cells(2)] foldR_foldE es del: config_values)
  then show ?thesis
    using entries_cut [OF assms(6,7,9), of push T q]
    by (cases "foldE (\<lambda>(e, s). push (e_offset e) (e_pos e) (of_nat s)) (stream_cuts R T es) q") simp_all
qed

lemma with_extra_single:
  assumes "concat (map f cs) = [e]"
  shows "concat (map (\<lambda>c. with_extra D (f c)) cs) = [e]"
proof -
  have "length (f c) \<le> 1" if "c \<in> set cs" for c
    using member_le_sum_list [of "length (f c)" "map (\<lambda>c. length (f c)) cs"] that arg_cong [where f = length, OF assms]
    by (simp add: length_concat comp_def)
  moreover have "with_extra D es = es" if "length es \<le> 1" for es
    using that by (cases es) (simp_all add: with_extra_def)
  ultimately have "concat (map (\<lambda>c. with_extra D (f c)) cs) = concat (map f cs)"
    by (intro arg_cong [where f = concat] map_cong) blast+
  then show ?thesis by (simp only: assms)
qed

text \<open>Two rows before the page, three in it, segments of four.\<close>

theorem org_page_locators_witness:
  "\<exists>ws p. org_generate_page (\<lambda>off cpos skip q. Inr (q @ [(off, cpos, skip)]))
      \<lparr>old_check_point = \<lambda>a s n _. check_point_new a s n 0, chunk_max_distance = 0, old_last_addr = \<lambda>_ _. Inr 0x80000040\<rparr>
      ws 4 0 (2, []) = Some (Inr ((3, [(1, p, 2)]), False))"
proof -
  let ?old = "\<lparr>old_check_point = \<lambda>a s n _. check_point_new a s n 0, chunk_max_distance = 0, old_last_addr = \<lambda>_ _. Inr 0x80000040\<rparr>"
  have one: "addr_to_offset 0x80000040 0 = Inr 1" by (simp add: addr_to_offset_eq window_page_def)
  then obtain ws P where ws: "workers_read ws P (one_entry 1 5 3)" by (rule one_entry_workers)
  obtain p where entries: "concat (map (cell_entries P (one_entry 1 5 3)) (range_cells 0 1)) =
      [\<lparr>e_thread = 0, e_offset = 1, e_pos = p, e_chunk = 5, e_count = 3\<rparr>]" using one_entry_page [OF ws] by blast
  note es = with_extra_single [OF entries]
  have "cuts 4 2 0 3 = [2]" using one_cut [of 4 3 2] by simp
  then show ?thesis
    using org_page_locators [OF ws, of 0 ?old "\<lambda>_. 0x80000040" 1 4 _ "\<lambda>off cpos skip q. Inr (q @ [(off, cpos, skip)])" 2 "[]"]
      one lanes_nonempty by (auto simp: es offset_to_page_words)
qed

end
