(* ===== verification/Org_Table.thy ===== *)
theory Org_Table
  imports Mem_Segment
begin

text \<open>
  The segments of \<open>MemPlannerOrg\<close> in a build without \<open>MEM_CHECK_POINT_MAP\<close>: a vector of check points, and \<open>chunk_table\<close> with
  the place of each chunk. An entry of the table is a generation in the upper half and a place in the lower; \<open>limit_pos\<close> is the
  least entry of the current segment, so that a new segment need not clear the table. The constructor of a check point
  (chunk, address, skip, count, intermediate skip) is a parameter, as in \<open>Planner_Org\<close>.
\<close>

subsection \<open>Operations\<close>

record OrgTable =
  chunk_table :: "u32 \<Rightarrow> u32"
  limit_pos :: u32
  tb_chunks :: "MemCheckPoint list"
  tb_segments :: "MemCheckPoint list list"

definition table_new :: OrgTable where
  "table_new = \<lparr>chunk_table = (\<lambda>_. 0), limit_pos = 0x00010000, tb_chunks = [], tb_segments = []\<rparr>"

definition table_open_segment :: "(u32 \<Rightarrow> u32 \<Rightarrow> u32 \<Rightarrow> u32 \<Rightarrow> u32 \<Rightarrow> MemCheckPoint) \<Rightarrow>
    u32 \<Rightarrow> u32 \<Rightarrow> u32 \<Rightarrow> u32 \<Rightarrow> OrgTable \<Rightarrow> OrgTable" where
  "table_open_segment mk ref_chunk ref_addr ref_skip intermediate_skip t =
    (let t = t\<lparr>limit_pos := push_bit 16 (of_nat (length (tb_segments t)) + 1)\<rparr>;
         t = t\<lparr>tb_segments := tb_segments t @ [tb_chunks t], tb_chunks := []\<rparr> in
     if ref_chunk \<noteq> NO_CHUNK_ID then t\<lparr>tb_chunks := tb_chunks t @ [mk ref_chunk ref_addr ref_skip 0 intermediate_skip]\<rparr>
     else t)"

definition table_add_chunk :: "(u32 \<Rightarrow> u32 \<Rightarrow> u32 \<Rightarrow> u32 \<Rightarrow> u32 \<Rightarrow> MemCheckPoint) \<Rightarrow>
    u32 \<Rightarrow> u32 \<Rightarrow> u32 \<Rightarrow> u32 \<Rightarrow> OrgTable \<Rightarrow> OrgTable res" where
  "table_add_chunk mk chunk_id a count skip t =
    (if \<not> chunk_id < MAX_CHUNKS then Inl Out_of_bounds
     else
       let pos = chunk_table t chunk_id in
       if pos < limit_pos t then
         Inr (t\<lparr>chunk_table := (chunk_table t)(chunk_id := limit_pos t + of_nat (length (tb_chunks t))),
           tb_chunks := tb_chunks t @ [mk chunk_id a skip count 0]\<rparr>)
       else
         let vpos = unat (pos AND 0xFFFF) in
         if vpos < length (tb_chunks t) then Inr (t\<lparr>tb_chunks := (tb_chunks t)[vpos := add_rows a count (tb_chunks t ! vpos)]\<rparr>)
         else Inl Out_of_bounds)"

definition table_add_group :: "(u32 \<Rightarrow> u32 \<Rightarrow> u32 \<Rightarrow> u32 \<Rightarrow> u32 \<Rightarrow> MemCheckPoint) \<Rightarrow> rows_group \<Rightarrow> OrgTable \<Rightarrow> OrgTable res" where
  "table_add_group mk g = table_add_chunk mk (g_chunk g) (g_addr g) (g_count g) (g_skip g)"

subsection \<open>The first segment\<close>

text \<open>The chunks in the order of their first groups.\<close>

definition table_rep :: "u32 list \<Rightarrow> OrgTable \<Rightarrow> bool" where
  "table_rep ks t \<longleftrightarrow> limit_pos t = 0x10000 \<and> distinct ks \<and> (\<forall>k\<in>set ks. k < MAX_CHUNKS) \<and> length (tb_chunks t) = length ks \<and>
    (\<forall>j<length ks. chunk_table t (ks ! j) = 0x10000 + of_nat j) \<and> (\<forall>k. k \<notin> set ks \<longrightarrow> chunk_table t k = 0) \<and> tb_segments t = []"

lemma table_place:
  assumes "j < 8192"
  shows "\<not> 0x10000 + of_nat j < (0x10000 :: u32)" "unat ((0x10000 + of_nat j) AND 0xFFFF :: u32) = j"
proof -
  have u: "unat (0x10000 + of_nat j :: u32) = 65536 + j"
    using assms unat_of_nat_u32 [of "65536 + j"] by simp
  then show "\<not> 0x10000 + of_nat j < (0x10000 :: u32)" by (simp add: word_less_nat_alt)
  have m: "(0xFFFF :: u32) = mask 16" by (simp add: mask_eq_exp_minus_1)
  show "unat ((0x10000 + of_nat j) AND 0xFFFF :: u32) = j" unfolding m unat_and_mask_u32 u using assms by simp
qed

lemma table_step:
  assumes "table_rep ks t" "g_chunk g < MAX_CHUNKS"
  shows "\<exists>t'. table_add_group mk g t = Inr t' \<and>
    table_rep (if g_chunk g \<in> set ks then ks else ks @ [g_chunk g]) t'"
proof -
  let ?c = "g_chunk g"
  note r = assms(1) [unfolded table_rep_def]
  show ?thesis
  proof (cases "?c \<in> set ks")
    case True
    then obtain j where j: "j < length ks" "ks ! j = ?c" by (auto simp: in_set_conv_nth)
    have "j < 8192" using distinct_below [of ks 8192] r j by simp
    note place = table_place [OF this]
    have "chunk_table t ?c = 0x10000 + of_nat j" using r j by auto
    then show ?thesis
      using place r j True assms(2) unfolding table_add_group_def table_add_chunk_def Let_def by (simp add: table_rep_def)
  next
    case False
    have "\<forall>k\<in>set (ks @ [?c]). k < 8192" "distinct (ks @ [?c])" using r False assms(2) by auto
    moreover have "chunk_table t ?c = 0" using r False by blast
    ultimately show ?thesis
      using r False assms(2) unfolding table_add_group_def table_add_chunk_def Let_def
      by (auto simp: table_rep_def nth_append less_Suc_eq dest: nth_mem)
  qed
qed

fun first_chunks :: "u32 list \<Rightarrow> rows_group list \<Rightarrow> u32 list" where
  "first_chunks ks [] = ks"
| "first_chunks ks (g # gs) = first_chunks (if g_chunk g \<in> set ks then ks else ks @ [g_chunk g]) gs"

lemma first_chunks_facts: "set (first_chunks ks gs) = set ks \<union> g_chunk ` set gs" "\<exists>ms. first_chunks ks gs = ks @ ms"
proof (induction gs arbitrary: ks)
  case (Cons g gs)
  { case 1 then show ?case using Cons by (cases "g_chunk g \<in> set ks") (auto simp: insert_absorb)
  next case 2 then show ?case using Cons(2) [of ks] Cons(2) [of "ks @ [g_chunk g]"] by auto }
qed auto

lemma table_first_segment:
  assumes "table_rep ks t" "\<forall>g\<in>set gs. g_chunk g < MAX_CHUNKS"
  shows "\<exists>t'. foldE (table_add_group mk) gs t = Inr t' \<and> table_rep (first_chunks ks gs) t'"
  using assms
proof (induction gs arbitrary: ks t)
  case (Cons g gs)
  then obtain t1 where 1: "table_add_group mk g t = Inr t1" "table_rep (if g_chunk g \<in> set ks then ks else ks @ [g_chunk g]) t1"
    using table_step by (metis list.set_intros(1))
  then show ?case using Cons.IH [OF 1(2)] Cons.prems(2) by simp
qed simp

subsection \<open>Properties\<close>

text \<open>
  C40: The table goes wrong at the second segment. \<open>limit_pos\<close> of the second segment is computed before the first is in the
  vector of segments and is that of the first, so the chunks of the first segment still count as present: adding rows of one
  accesses the new vector out of bounds, except for the chunk that came first, whose rows go to the check point of the
  reference address, whatever its chunk: to the right one only if that is the chunk of the reference.
\<close>

theorem second_segment_stale:
  assumes "gs \<noteq> []" "\<forall>g\<in>set gs. g_chunk g < MAX_CHUNKS" "c \<in> g_chunk ` set gs"
  shows "\<exists>t. foldE (table_add_group mk) gs table_new = Inr t \<and>
    table_add_chunk mk c a count skip (table_open_segment mk ref ra rs k t) =
      (if c = g_chunk (hd gs) \<and> ref \<noteq> NO_CHUNK_ID
       then Inr ((table_open_segment mk ref ra rs k t)\<lparr>tb_chunks := [add_rows a count (mk ref ra rs 0 k)]\<rparr>)
       else Inl Out_of_bounds)"
proof -
  have "table_rep [] table_new" by (simp add: table_rep_def table_new_def)
  from table_first_segment [OF this assms(2), of mk] obtain t where
    t: "foldE (table_add_group mk) gs table_new = Inr t" "table_rep (first_chunks [] gs) t" by blast
  let ?ks = "first_chunks [] gs"
  note r = t(2) [unfolded table_rep_def]
  have "c \<in> set ?ks" using assms(3) first_chunks_facts(1) [of "[]" gs] by simp
  then obtain j where j: "j < length ?ks" "?ks ! j = c" by (auto simp: in_set_conv_nth)
  have "j < 8192" using distinct_below [of ?ks 8192] r j by simp
  note place = table_place [OF this]
  have "c < MAX_CHUNKS" using assms(2,3) by auto
  have entry: "chunk_table t c = 0x10000 + of_nat j" using r j by auto
  obtain ms where "?ks = g_chunk (hd gs) # ms"
    using first_chunks_facts(2) [of "[g_chunk (hd gs)]" "tl gs"] assms(1) by (cases gs) auto
  then have "j = 0 \<longleftrightarrow> c = g_chunk (hd gs)"
    using j nth_eq_iff_index_eq [of ?ks j 0] r by (metis length_greater_0_conv list.distinct(1) nth_Cons_0)
  moreover have "chunk_table (table_open_segment mk ref ra rs k t) = chunk_table t"
    "limit_pos (table_open_segment mk ref ra rs k t) = 0x10000"
    "tb_chunks (table_open_segment mk ref ra rs k t) = (if ref \<noteq> NO_CHUNK_ID then [mk ref ra rs 0 k] else [])"
    using r by (simp_all add: table_open_segment_def Let_def push_bit_eq_mult)
  ultimately show ?thesis
    using t(1) place \<open>c < MAX_CHUNKS\<close> by (auto simp: table_add_chunk_def entry Let_def)
qed

theorem second_segment_stale_witness:
  "\<exists>t. foldE (table_add_group (\<lambda>c a s n _. check_point_new a s n 0))
      [\<lparr>g_chunk = 5, g_addr = 8, g_skip = 0, g_count = 1\<rparr>, \<lparr>g_chunk = 6, g_addr = 8, g_skip = 0, g_count = 1\<rparr>] table_new = Inr t \<and>
    table_add_chunk (\<lambda>c a s n _. check_point_new a s n 0) 6 8 2 0
      (table_open_segment (\<lambda>c a s n _. check_point_new a s n 0) 6 8 1 0 t) = Inl Out_of_bounds"
  using second_segment_stale [of "[\<lparr>g_chunk = 5, g_addr = 8, g_skip = 0, g_count = 1\<rparr>, \<lparr>g_chunk = 6, g_addr = 8, g_skip = 0, g_count = 1\<rparr>]" 6
      "\<lambda>c a s n _. check_point_new a s n 0" 8 2 0 6 8 1 0] by simp

end
