(* ===== verification/Spec2Isabelle.thy ===== *)
theory Spec2Isabelle
  imports Count_Run Mem_Align Context_Protocol Ram_Pipeline Immutable_Plan Fine_Pages Ring_Buffer Segment_Hash Count_And_Plan
    Run_Handle Plan_Schedule Count_End Segment_Dump Run_Stats Load_Log Locator_Types Org_Rows Org_Locators Org_Table
begin

text \<open>
  A verification development for \<open>mem_count_and_plan\<close>, a program that counts the memory accesses of an execution
  trace and plans how the rows of the memory state machines (RAM, ROM, input, alignment) are divided into segments.

  \<^bold>\<open>The program.\<close> The driver (\<open>mem_test.hpp\<close>, \<open>main.cpp\<close>) loads chunks of bus operations from files and
  publishes them in a \<open>MemContext\<close> (\<open>mem_context.hpp\<close>). In the count phase (\<open>mem_count_and_plan.hpp\<close>) eight
  \<open>MemCounter\<close> threads (\<open>mem_counter.hpp\<close>) read all chunks; each counts the accesses to one lane (bits 3 to 5 of
  the address) in a table indexed by the offset of the address, with a chain of blocks of (chunk, count) entries per
  offset. A \<open>MemAlignCounter\<close> (\<open>mem_align_counter.hpp\<close>) counts the unaligned operations. In the plan phase
  planners walk these tables: \<open>ImmutableMemPlanner\<close> (\<open>immutable_mem_planner.hpp\<close>) for the ROM and the input,
  and for the RAM one \<open>MemPlanner\<close> (\<open>mem_planner.hpp\<close>) that finds where segments start and queues them as
  locators (\<open>mem_locators.hpp\<close>) and sixteen that take locators and build the segments (\<open>mem_segment.hpp\<close>).

  \<^bold>\<open>The theories,\<close> in the order of their imports, and the code they model.

  \<^item> \<open>Prelude\<close>: words, the result types (\<open>res\<close>: an error of the datatype \<open>error\<close> or a value; \<open>run\<close>: a \<open>res\<close>
    that may also never come), loops as folds (\<open>foldE\<close>, \<open>foldR\<close>, \<open>foldS\<close>) and as recursion (\<open>for_while\<close>), and the
    interfaces of the step relations: \<open>protocol_invariant\<close>, and \<open>protocol_extension\<close> for a protocol whose threads
    also compute.
  \<^item> \<open>Mem_Config\<close>: \<open>mem_config.hpp\<close>, \<open>mem_types.hpp\<close>.
  \<^item> \<open>Mem_Address\<close>: the static address functions of \<open>MemCounter\<close>. Interface \<open>address_codec\<close>: addresses are
    offsets and lanes, and back. \<open>Fine_Pages\<close>: the 32 MB variants of \<open>tools.cpp\<close>, as a refinement.
  \<^item> \<open>Slot_Chain\<close>, \<open>Mem_Counter\<close>: the tables and \<open>count_aligned\<close>. \<open>rep w B E\<close> relates a counter to its abstract
    state, a log \<open>E\<close> of entries per offset, and every operation is shown to act on the log (\<open>log_add\<close>).
  \<^item> \<open>Chain_Walk\<close>: the loop of the planners over a chain, with the interface \<open>chain_reader\<close>; \<open>reads_as\<close> is what a
    planner sees of a counter.
  \<^item> \<open>Mem_Context\<close> (sequential, interface \<open>chunk_source\<close>) and \<open>Context_Protocol\<close> (one step per atomic access,
    one writer, any readers): \<open>MemContext\<close>.
  \<^item> \<open>Mem_Count\<close>: \<open>MemCounter::execute_chunk\<close> and \<open>MemCounter::execute\<close>; \<open>accesses\<close> specifies a bus operation.
    \<open>Count_Run\<close>: a whole run of \<open>execute\<close>, specified by \<open>chunk_log\<close>, with the blocks it needs (\<open>blocks_needed\<close>).
  \<^item> \<open>Mem_Align\<close>: \<open>MemAlignCounter\<close>; its specification is a division of the operations into segments.
  \<^item> \<open>Mem_Segment\<close>: \<open>MemCheckPoint\<close>, \<open>MemSegment\<close>, \<open>MemSegments\<close>; \<open>segment_spec\<close> is the summary of a list of groups
    of rows. \<open>Segment_Hash\<close>: \<open>MemSegmentHashTable\<close>, with the interface \<open>resettable_map\<close>.
  \<^item> \<open>Mem_Locators\<close> (sequential) and \<open>Locator_Protocol\<close> (one step per store and per load, one producer, any consumers, on a
    machine that keeps the program order or one that reorders): \<open>MemLocators\<close>.
  \<^item> \<open>Planner_Stream\<close>, \<open>Stream_Rows\<close>: what both planners read, as a stream of entries, and the rows behind it.
  \<^item> \<open>Mem_Planner\<close> (the code), \<open>Ram_Plan\<close> (locators are the cuts of the stream, a locator gives its slice),
    \<open>Ram_Pipeline\<close> (all locators, one after the other) and \<open>Locator_Types\<close> (what a locator may name): \<open>MemPlanner\<close>.
  \<^item> \<open>Cell_Walk\<close>: the walk of the planners that compute the address of each counter, with the interface \<open>cell_walk\<close>.
    \<open>Immutable_Planner\<close> (the code) and \<open>Immutable_Plan\<close> (a tape with the gaps, cut into segments): \<open>ImmutableMemPlanner\<close>.
  \<^item> \<open>Planner_Org\<close> (the code), \<open>Org_Walk\<close> (its walk over a page, as a \<open>cell_walk\<close>), \<open>Org_Rows\<close> (the rows and segments its
    calls cost), \<open>Org_Locators\<close> (the locators of a page as cuts of a stream) and \<open>Org_Table\<close> (its segments in a build without
    \<open>MEM_CHECK_POINT_MAP\<close>): \<open>mem_planner_org.hpp\<close>, the planner before the two others.
  \<^item> \<open>Ring_Buffer\<close>: the two ring buffers of \<open>circular_queue.hpp\<close> and \<open>main.cpp\<close>, with the interface
    \<open>bounded_queue\<close>.
  \<^item> \<open>Mem_File\<close>, \<open>Mem_Load\<close>, \<open>Load_Log\<close>: the trace and compact files (\<open>tools.cpp\<close>, \<open>tools.hpp\<close>),
    \<open>count_operations\<close>, \<open>MemTest::load\<close> and the lines it prints of the operations.
  \<^item> \<open>Counted_Stream\<close>, \<open>Count_And_Plan\<close>: the stream of a counted run, \<open>MemCountAndPlan\<close>, \<open>MemTest::execute\<close>
    and \<open>main\<close>, with the threads of a phase one after the other. \<open>Run_Handle\<close>: the object behind the C functions, with
    the thread of a run and the threads that a run leaves behind.
  \<^item> \<open>Count_Schedule\<close>, \<open>Plan_Schedule\<close>: \<open>count_phase\<close> and the RAM part of \<open>plan_phase\<close> as they run, interleaved
    with the publication of the chunks and with the pushes of the locators; both are interpretations of
    \<open>protocol_extension\<close>, over the protocols of \<open>Context_Protocol\<close> and \<open>Locator_Protocol\<close>.
    \<open>Count_End\<close>: that the count phase ends under every schedule.
  \<^item> \<open>Segment_Dump\<close>: what \<open>MemSegments::debug\<close>, \<open>MemSegment::debug\<close> and \<open>MemAlignCounter::debug\<close> print.
    \<open>Run_Stats\<close>: what \<open>MemCountAndPlan::stats\<close> prints, but for the times.

  \<^bold>\<open>What is shown.\<close> The whole run (\<open>count_and_plan_result\<close>, \<open>main_plans_files\<close>): for operations of accepted
  widths at mapped addresses, whose entries fit in the blocks and whose number fits in 32 bits, the program ends without
  an error and its segments hold the rows of the planned pages, once and in order; what it prints accounts for all of them
  (\<open>dump_accounts_for_run\<close>, \<open>stats_report_run\<close>). The order of the threads does not matter: every interleaved count phase in which all
  chunks are received ends with the counters of the sequential one (\<open>count_phase_any_schedule\<close>), and every
  interleaved plan phase that takes all locators, none of them before it is written, and stores all segments with a plan of
  the same rows (\<open>concurrent_run\<close>); after the completion every counting thread leaves (\<open>count_phase_ends\<close>). Under it: the counters
  refine logs, every access is counted once, a thread returns exactly when its addresses are mapped and its entries fit
  in its blocks, and fails only as stated; the planners cut the stream of rows into slices, and the locators they
  exchange are well typed; the queues and the context keep their order under any interleaving; the encodings of
  addresses and files invert each other; the tally and the log of the driver agree with the counters. Of the old
  planner: on a page it visits the entries up to the greatest \<open>last_addr\<close> in order, and cuts their rows into locators; its
  calls return and take the segments that their rows need. Several theorems
  state what goes wrong: entries of the first counted address that the planners do not see, the last page of a region that
  is not planned, a chunk (even one missed by all threads) or a locator missed at completion, counts that are added
  twice, an old file format that is not recognised, a locator read before it is written (in program order it is
  not) or taken before it is pushed, a second run on one object, a stale chunk table of the old planner. The other theorems
  hold for the program with these behaviours: \<open>run_cells\<close>, for one, is what the planners see, with \<open>seen\<close> for the missing
  entries.

  \<^bold>\<open>Bounds.\<close> Constants are those of \<open>mem_config.hpp\<close>. The hypothesis \<open>bounded_run\<close> of the whole run names
  the capacities a run can exceed: \<open>ADDR_SLOTS\<close> blocks per thread, and counts of 32 bits; within them the locators always
  fit (\<open>locators_fit\<close>). Theorems on planners hold for any number of rows per segment
  that fits a word. Array accesses outside an array are the error \<open>Out_of_bounds\<close>. Loops that can spin or run away are
  partial functions, and that they return is part of each theorem; there is no fuel.

  \<^bold>\<open>Concurrency.\<close> The steps of the context are sequentially consistent atomic accesses: its one counter is stored with
  release after the chunk and loaded with acquire before the chunk. The queue of the locators is not such a protocol, as it stores
  \<open>write_pos\<close> relaxed. There a store is in flight until it reaches memory, each field of a locator is loaded by a step of its
  own, and the machine is a parameter: one that keeps the program order, or one that lets stores overtake each other and
  loads return old positions. The state remembers the positions of which a field was loaded too early (\<open>early\<close>). A thread
  runs its body on its own tables and on published chunks or finished counters, so the body of a turn is one step; a store into the map of the segments is one step because of its
  mutex. The planners of the ROM and of the input share nothing with the other threads of their phase and have no
  steps of their own.

  \<^bold>\<open>Parameters.\<close> What the operating system answers on files, and what uninitialised memory holds (\<open>memory\<close>, the
  \<open>slots0\<close>, \<open>chunk0\<close> and table arguments), are arguments of the definitions. So is, in \<open>Planner_Org\<close>, what the old planner was
  written against and is gone (\<open>OldInterface\<close>: the constructor of a check point, the maximal distance of chunks, the last
  address of a page); the theorems hold for any of them, and name what \<open>last_addr\<close> returns where it matters.

  \<^bold>\<open>Not modelled.\<close> Clocks, the times the statistics print, and progress messages; \<open>main2\<close> under \<open>#ifdef false\<close>; the
  branches without \<open>USE_ADDR_COUNT_TABLE\<close>, which \<open>mem_config.hpp\<close> excludes, and those of \<open>MEM_PLANNER_STATS\<close>,
  \<open>DIRECT_MEM_LOCATOR\<close> and \<open>DEBUG_INFO\<close>; the \<open>MemSegment\<close> of a build without \<open>MEM_CHECK_POINT_MAP\<close>, which does not compile (its
  \<open>push\<close> gives the constructor of a check point three arguments of four); memory exhaustion (\<open>bad_alloc\<close>) and the release of memory.
\<close>

end
